(* ===== verification/Broadcast_Prelude.thy ===== *)
theory Broadcast_Prelude
  imports Main "HOL-Library.Word" "HOL-Library.Monad_Syntax"
begin

text \<open>
  Shared vocabulary of the development: the integer and byte types of the C++ code, the
  representation of a C++ execution that aborts, the little-endian object representation
  that the binary serialisation relies on, and the generic lemmas on lists, words and
  options that the component theories use. The collections \<open>wire\<close> and
  \<open>inv_intro\<close> gather the facts that the component proofs pass to the simplifier and the
  classical reasoner.
\<close>

section \<open>Collections of facts\<close>

named_theorems wire "object images, cursor reads and writes"
named_theorems inv_intro "preservation of invariants by operations"

section \<open>Types of the source\<close>

type_synonym u8 = "8 word"
type_synonym u32 = "32 word"
type_synonym u64 = "64 word"

text \<open>\<open>Byte\<close>, \<open>Bytes\<close>, \<open>MessageID\<close> (payload.hpp) and \<open>PeerID\<close> (hosts.hpp).\<close>

type_synonym Byte = u8
type_synonym Bytes = "Byte list"
type_synonym MessageID = u32
type_synonym PeerID = u8

text \<open>
  An execution of the C++ code can stop in ways that are not return values. A function that
  has such a branch returns \<open>fault + 'a\<close>, with \<open>Inl\<close> for the branch; the byte-level
  serialisation, where the only such branches are failed assertions and accesses outside a
  buffer, returns \<open>'a option\<close>.
\<close>

datatype fault =
    AssertFailed
  | EndDereferenced
  | OutOfRange
  | DivisionByZero
  | SyscallFailed
  | NullDereferenced
  | BadVariantAccess
  | InvalidArgument
  | RuntimeError
  | BadFunctionCall
  | ResourceDeadlock

definition fbind :: "fault + 'a \<Rightarrow> ('a \<Rightarrow> fault + 'b) \<Rightarrow> fault + 'b" where
  "fbind x f = (case x of Inl e \<Rightarrow> Inl e | Inr a \<Rightarrow> f a)"

lemma fbind_simps [simp]:
  "fbind (Inl e) f = Inl e"
  "fbind (Inr a) f = f a"
  by (simp_all add: fbind_def)

lemma fbind_eq_Inr: "fbind x f = Inr b \<longleftrightarrow> (\<exists>a. x = Inr a \<and> f a = Inr b)"
  by (cases x) auto

text \<open>\<open>assert(b)\<close> at the byte level.\<close>

definition check :: "bool \<Rightarrow> unit option" where
  "check b = (if b then Some () else None)"

lemma check_simps [simp]:
  "check True = Some ()"
  "check False = None"
  by (simp_all add: check_def)

lemma check_eq_Some [simp]: "check b = Some u \<longleftrightarrow> b"
  by (simp add: check_def)

section \<open>Object representation\<close>

text \<open>
  The code copies the object representation of integers into the buffer. The target of the
  build is x86-64 (\<open>src/concurrency/context.S\<close>), which is little-endian.
\<close>

primrec le_bytes :: "nat \<Rightarrow> nat \<Rightarrow> Bytes" where
  "le_bytes 0 x = []"
| "le_bytes (Suc n) x = of_nat (x mod 256) # le_bytes n (x div 256)"

primrec le_value :: "Bytes \<Rightarrow> nat" where
  "le_value [] = 0"
| "le_value (b # bs) = unat b + 256 * le_value bs"

lemma length_le_bytes [simp]: "length (le_bytes n x) = n"
  by (induction n arbitrary: x) auto

lemma unat_of_nat_byte [simp]: "unat (of_nat (x mod 256) :: Byte) = x mod 256"
  by (simp add: unat_of_nat)

lemma le_value_le_bytes: "x < 256 ^ n \<Longrightarrow> le_value (le_bytes n x) = x"
proof (induction n arbitrary: x)
  case 0
  then show ?case by simp
next
  case (Suc n)
  then have "x div 256 < 256 ^ n" by (simp add: less_mult_imp_div_less mult.commute)
  then have "le_value (le_bytes n (x div 256)) = x div 256" by (rule Suc.IH)
  then show ?case by simp
qed

lemma le_value_bound: "le_value bs < 256 ^ length bs"
proof (induction bs)
  case Nil
  then show ?case by simp
next
  case (Cons b bs)
  have "unat b < 256" using unsigned_less [of b] by simp
  with Cons show ?case by simp
qed

text \<open>\<open>sizeof(T)\<close> for an unsigned integer type, and its object representation.\<close>

definition size_of :: "'a::len itself \<Rightarrow> nat" where
  "size_of t = LENGTH('a) div 8"

definition object_bytes :: "'a::len word \<Rightarrow> Bytes" where
  "object_bytes v = le_bytes (size_of TYPE('a)) (unat v)"

definition object_value :: "Bytes \<Rightarrow> 'a::len word" where
  "object_value bs = of_nat (le_value bs)"

lemma size_of_simps [simp]:
  "size_of TYPE(8) = 1"
  "size_of TYPE(32) = 4"
  "size_of TYPE(64) = 8"
  by (simp_all add: size_of_def)

lemma length_object_bytes [simp]: "length (object_bytes (v :: 'a::len word)) = size_of TYPE('a)"
  by (simp add: object_bytes_def)

lemma object_value_bytes:
  fixes v :: "'a::len word"
  assumes "8 dvd LENGTH('a)"
  shows "object_value (object_bytes v) = v"
proof -
  have "(256::nat) ^ (LENGTH('a) div 8) = 2 ^ LENGTH('a)"
  proof -
    have "(256::nat) ^ (LENGTH('a) div 8) = (2 ^ 8) ^ (LENGTH('a) div 8)" by simp
    also have "\<dots> = 2 ^ (8 * (LENGTH('a) div 8))" by (simp only: power_mult)
    also have "\<dots> = 2 ^ LENGTH('a)" using assms by simp
    finally show ?thesis .
  qed
  then have "unat v < 256 ^ size_of TYPE('a)"
    using unsigned_less [of v] by (simp add: size_of_def)
  then show ?thesis
    by (simp add: object_value_def object_bytes_def le_value_le_bytes)
qed

lemma object_value_u8 [simp]: "object_value (object_bytes (v :: u8)) = v"
  by (rule object_value_bytes) simp

lemma object_value_u32 [simp]: "object_value (object_bytes (v :: u32)) = v"
  by (rule object_value_bytes) simp

text \<open>An array of integers is laid out contiguously.\<close>

definition array_bytes :: "'a::len word list \<Rightarrow> Bytes" where
  "array_bytes vs = concat (map object_bytes vs)"

lemma array_bytes_simps [simp]:
  "array_bytes [] = []"
  "array_bytes (v # vs) = object_bytes v @ array_bytes vs"
  by (simp_all add: array_bytes_def)

lemma length_array_bytes [simp]:
  "length (array_bytes (vs :: 'a::len word list)) = length vs * size_of TYPE('a)"
  by (induction vs) auto

primrec array_value :: "nat \<Rightarrow> Bytes \<Rightarrow> 'a::len word list" where
  "array_value 0 bs = []"
| "array_value (Suc n) bs =
     object_value (take (size_of TYPE('a)) bs) # array_value n (drop (size_of TYPE('a)) bs)"

lemma length_array_value [simp]: "length (array_value n bs) = n"
  by (induction n arbitrary: bs) auto

lemma array_value_u32 [simp]: "array_value (length vs) (array_bytes vs @ r) = (vs :: u32 list)"
  by (induction vs) auto

section \<open>Bounds of words\<close>

lemma unat_u8_bound [simp]: "unat (v :: u8) < 256"
  using unsigned_less [of v] by simp

lemma unat_u32_bound: "unat (v :: u32) < 4294967296"
  using unsigned_less [of v] by simp

lemma unat_of_nat_u8: "n < 256 \<Longrightarrow> unat (of_nat n :: u8) = n"
  by (simp add: unat_of_nat)

lemma unat_of_nat_u32: "n < 4294967296 \<Longrightarrow> unat (of_nat n :: u32) = n"
  by (simp add: unat_of_nat)

lemma unat_succ_below: "i < bound \<Longrightarrow> unat (i + 1) = Suc (unat i)" for i bound :: "'a::len word"
proof -
  assume "i < bound"
  moreover have "unat bound < 2 ^ LENGTH('a)" by (rule unsigned_less)
  ultimately have "Suc (unat i) < 2 ^ LENGTH('a)" unfolding word_less_nat_alt by linarith
  then show ?thesis by (simp add: unat_word_ariths)
qed

lemma unat_add_one_u32: "unat (v :: u32) + 1 < 4294967296 \<Longrightarrow> unat (v + 1) = unat v + 1"
  by (simp add: unat_word_ariths)

section \<open>Lists\<close>

lemma distinct_same_length_subset:
  assumes "distinct xs" and "set xs \<subseteq> set ys" and "length ys \<le> length xs"
  shows "set xs = set ys"
proof -
  have "card (set ys) \<le> card (set xs)"
    using assms(1,3) card_length [of ys] by (simp add: distinct_card)
  then show ?thesis
    using assms(2) by (intro card_seteq) auto
qed

section \<open>Majorities\<close>

text \<open>
  The contract of the quorums that both agreement protocols rest on: two quorums share a
  process, so what every member of each of them vouches for is related by whatever relates
  the vouchers of one process. Majorities of a finite set of processes satisfy it.
\<close>

locale quorum_system =
  fixes quorum :: "'p set \<Rightarrow> bool"
  assumes intersect: "quorum Q \<Longrightarrow> quorum R \<Longrightarrow> \<exists>a. a \<in> Q \<and> a \<in> R"
begin

lemma inhabited: "quorum Q \<Longrightarrow> \<exists>a. a \<in> Q"
  using intersect by blast

lemma vouchers_related:
  assumes "quorum Q" and "quorum R" and "\<And>a. a \<in> Q \<Longrightarrow> vouch a x" and "\<And>a. a \<in> R \<Longrightarrow> vouch a y"
    and "\<And>a. vouch a x \<Longrightarrow> vouch a y \<Longrightarrow> related x y"
  shows "related x y"
  using intersect [OF assms(1,2)] assms(3-5) by blast

end

definition majority_of :: "'p set \<Rightarrow> 'p set \<Rightarrow> bool" where
  "majority_of P Q \<longleftrightarrow> finite P \<and> Q \<subseteq> P \<and> card P < 2 * card Q"

interpretation majority: quorum_system "majority_of P" for P
proof
  fix Q R
  assume Q: "majority_of P Q" and R: "majority_of P R"
  then have fin: "finite Q" "finite R" by (auto simp: majority_of_def intro: finite_subset)
  have "card (Q \<union> R) \<le> card P" using Q R by (auto simp: majority_of_def intro!: card_mono)
  then have "card (Q \<inter> R) \<noteq> 0"
    using card_Un_Int [OF fin] Q R by (simp add: majority_of_def)
  then show "\<exists>a. a \<in> Q \<and> a \<in> R" by (metis IntE card.empty equals0I)
qed

end
