(* ===== verification/Timer_Service.thy ===== *)
theory Timer_Service
  imports Broadcast_Prelude "HOL-Library.Multiset"
begin

text \<open>
  The timer wheel (\<open>include/io/timer.hpp\<close>, \<open>include/io/timer_service.hpp\<close>,
  \<open>src/io/timer_service.cpp\<close>). A timer is the pair of its deadline and id with the object
  that is fired or cancelled; a slot is the list of its timers, in the order of the intrusive
  list. \<open>Tick\<close> takes the number of elapsed ticks that the kernel reports and returns the
  timers to cancel and to fire, in the order of the calls of \<open>Cancel\<close> and \<open>Fire\<close>.
\<close>

section \<open>State\<close>

type_synonym Ticks = u64
type_synonym TimerID = u64
type_synonym DurationMs = u64

record 'a Timer =
  tm_deadline :: Ticks
  tm_id :: TimerID
  tm_object :: 'a

definition kMaxTicksDuration :: nat where "kMaxTicksDuration = 1000"

record 'a TimerService =
  ts_tick_duration :: DurationMs
  ts_ticks :: Ticks
  ts_timers :: "'a Timer list list"
  ts_slot :: nat
  ts_current_id :: TimerID
  ts_cancelled_timers :: "TimerID set"

definition TimerService_init :: "DurationMs \<Rightarrow> 'a TimerService" where
  "TimerService_init tick_duration = \<lparr>ts_tick_duration = tick_duration, ts_ticks = 0,
     ts_timers = replicate kMaxTicksDuration [], ts_slot = 0, ts_current_id = 0, ts_cancelled_timers = {}\<rparr>"

section \<open>Operations\<close>

definition GetID :: "'a TimerService \<Rightarrow> TimerID \<times> 'a TimerService" where
  "GetID ts = (ts_current_id ts, ts\<lparr>ts_current_id := ts_current_id ts + 1\<rparr>)"

definition DoAddTimer :: "'a \<Rightarrow> TimerID \<Rightarrow> Ticks \<Rightarrow> 'a TimerService \<Rightarrow> 'a TimerService" where
  "DoAddTimer object i tick_duration ts =
     (let timer = \<lparr>tm_deadline = ts_ticks ts + tick_duration, tm_id = i, tm_object = object\<rparr>;
          slot = unat (tm_deadline timer) mod kMaxTicksDuration
      in ts\<lparr>ts_timers := (ts_timers ts)[slot := ts_timers ts ! slot @ [timer]]\<rparr>)"

text \<open>The checked conversion of a duration to ticks that both overloads of \<open>AddTimer\<close> start with.\<close>

definition duration_ticks :: "DurationMs \<Rightarrow> 'a TimerService \<Rightarrow> fault + Ticks" where
  "duration_ticks duration ts =
     (if ts_tick_duration ts = 0 then Inl DivisionByZero
      else if \<not> unat (duration div ts_tick_duration ts) < kMaxTicksDuration then Inl AssertFailed
      else Inr (duration div ts_tick_duration ts))"

definition AddTimer :: "'a \<Rightarrow> DurationMs \<Rightarrow> 'a TimerService \<Rightarrow> fault + (TimerID \<times> 'a TimerService)" where
  "AddTimer object duration ts = fbind (duration_ticks duration ts) (\<lambda>tick_duration.
     let timer_id = ts_current_id ts;
         ts = DoAddTimer object timer_id tick_duration ts
     in Inr (timer_id, ts\<lparr>ts_current_id := ts_current_id ts + 1\<rparr>))"

definition AddTimer_id :: "'a \<Rightarrow> TimerID \<Rightarrow> DurationMs \<Rightarrow> 'a TimerService \<Rightarrow> fault + 'a TimerService" where
  "AddTimer_id object i duration ts = fbind (duration_ticks duration ts) (\<lambda>tick_duration.
     Inr (DoAddTimer object i tick_duration ts))"

definition CancelTimer :: "TimerID \<Rightarrow> 'a TimerService \<Rightarrow> 'a TimerService" where
  "CancelTimer i ts = ts\<lparr>ts_cancelled_timers := insert i (ts_cancelled_timers ts)\<rparr>"

definition MaxDuration :: "'a TimerService \<Rightarrow> DurationMs" where
  "MaxDuration ts = of_nat kMaxTicksDuration * ts_tick_duration ts"

definition AdvanceSlot :: "'a TimerService \<Rightarrow> 'a TimerService" where
  "AdvanceSlot ts =
     (let slot = ts_slot ts + 1 in
      ts\<lparr>ts_slot := (if slot = kMaxTicksDuration then 0 else slot)\<rparr>)"

text \<open>The loop of \<open>ExpireSlot\<close>: both lists are built from the front.\<close>

fun split_slot :: "Ticks \<Rightarrow> 'a Timer list \<Rightarrow> 'a Timer list \<Rightarrow> 'a Timer list \<Rightarrow> 'a Timer list \<times> 'a Timer list" where
  "split_slot ticks [] expired remaining = (expired, remaining)"
| "split_slot ticks (timer # slot_list) expired remaining =
     (if ticks \<ge> tm_deadline timer then split_slot ticks slot_list (timer # expired) remaining
      else split_slot ticks slot_list expired (timer # remaining))"

definition ExpireSlot :: "'a TimerService \<Rightarrow> 'a Timer list \<times> 'a TimerService" where
  "ExpireSlot ts =
     (let (expired, remaining) = split_slot (ts_ticks ts) (ts_timers ts ! ts_slot ts) [] []
      in (expired, ts\<lparr>ts_timers := (ts_timers ts)[ts_slot ts := remaining]\<rparr>))"

fun expire_slots :: "nat \<Rightarrow> 'a TimerService \<Rightarrow> 'a Timer list \<times> 'a TimerService" where
  "expire_slots 0 ts = ([], ts)"
| "expire_slots (Suc n) ts =
     (let ts = AdvanceSlot ts;
          (slot_expired_timers, ts) = ExpireSlot ts;
          (rest, ts) = expire_slots n ts
      in (slot_expired_timers @ rest, ts))"

fun sort_out :: "TimerID set \<Rightarrow> 'a Timer list \<Rightarrow> TimerID set \<times> 'a Timer list \<times> 'a Timer list" where
  "sort_out cancelled [] = (cancelled, [], [])"
| "sort_out cancelled (timer # ts) =
     (if tm_id timer \<in> cancelled then
        let (c, to_cancel, to_fire) = sort_out (cancelled - {tm_id timer}) ts in (c, timer # to_cancel, to_fire)
      else let (c, to_cancel, to_fire) = sort_out cancelled ts in (c, to_cancel, timer # to_fire))"

definition Tick :: "Ticks \<Rightarrow> 'a TimerService \<Rightarrow> 'a Timer list \<times> 'a Timer list \<times> 'a TimerService" where
  "Tick elapsed ts =
     (let ts = ts\<lparr>ts_ticks := ts_ticks ts + elapsed\<rparr>;
          (expired_timers, ts) = expire_slots (unat elapsed) ts;
          (cancelled, to_cancel, to_fire) = sort_out (ts_cancelled_timers ts) expired_timers
      in (to_cancel, to_fire, ts\<lparr>ts_cancelled_timers := cancelled\<rparr>))"

definition TimerService_Stop :: "'a TimerService \<Rightarrow> 'a Timer list \<times> 'a TimerService" where
  "TimerService_Stop ts = expire_slots kMaxTicksDuration ts"

section \<open>The wheel\<close>

definition all_timers :: "'a TimerService \<Rightarrow> 'a Timer multiset" where
  "all_timers ts = mset (concat (ts_timers ts))"

text \<open>The hand of the wheel follows the clock and every timer is in the slot of its deadline.\<close>

definition ts_ok :: "'a TimerService \<Rightarrow> bool" where
  "ts_ok ts \<longleftrightarrow> length (ts_timers ts) = kMaxTicksDuration \<and> ts_slot ts = unat (ts_ticks ts) mod kMaxTicksDuration \<and>
     (\<forall>j < kMaxTicksDuration. \<forall>t \<in> set (ts_timers ts ! j). unat (tm_deadline t) mod kMaxTicksDuration = j)"

text \<open>No timer is due: what holds after every tick as long as timers are added with a positive number of ticks.\<close>

definition none_due :: "'a TimerService \<Rightarrow> bool" where
  "none_due ts \<longleftrightarrow> (\<forall>t \<in># all_timers ts. ts_ticks ts < tm_deadline t)"

lemma split_slot_eq:
  "split_slot ticks xs e r = (rev (filter (\<lambda>t. tm_deadline t \<le> ticks) xs) @ e, rev (filter (\<lambda>t. \<not> tm_deadline t \<le> ticks) xs) @ r)"
  by (induction ticks xs e r rule: split_slot.induct) auto

lemma mset_concat_update:
  assumes "i < length xs"
  shows "mset (concat (xs[i := ys])) + mset (xs ! i) = mset (concat xs) + mset ys"
proof -
  have "xs = take i xs @ (xs ! i) # drop (Suc i) xs" by (rule id_take_nth_drop [OF assms])
  then have "mset (concat xs) = mset (concat (take i xs)) + mset (xs ! i) + mset (concat (drop (Suc i) xs))"
    by (metis concat.simps(2) concat_append mset_append add.assoc)
  moreover have "mset (concat (xs[i := ys])) = mset (concat (take i xs)) + mset ys + mset (concat (drop (Suc i) xs))"
    by (simp add: upd_conv_take_nth_drop [OF assms])
  ultimately show ?thesis by (simp add: ac_simps)
qed

lemma ExpireSlot_effect:
  assumes "ts_slot ts < length (ts_timers ts)"
  shows "mset (fst (ExpireSlot ts)) + all_timers (snd (ExpireSlot ts)) = all_timers ts"
    and "\<forall>t\<in>set (fst (ExpireSlot ts)). tm_deadline t \<le> ts_ticks ts"
    and "\<forall>t\<in>set (ts_timers (snd (ExpireSlot ts)) ! ts_slot ts). \<not> tm_deadline t \<le> ts_ticks ts"
    and "j \<noteq> ts_slot ts \<Longrightarrow> ts_timers (snd (ExpireSlot ts)) ! j = ts_timers ts ! j"
    and "set (ts_timers (snd (ExpireSlot ts)) ! j) \<subseteq> set (ts_timers ts ! j)"
    and "length (ts_timers (snd (ExpireSlot ts))) = length (ts_timers ts)"
    and "ts_slot (snd (ExpireSlot ts)) = ts_slot ts" and "ts_ticks (snd (ExpireSlot ts)) = ts_ticks ts"
    and "ts_cancelled_timers (snd (ExpireSlot ts)) = ts_cancelled_timers ts"
proof -
  let ?xs = "ts_timers ts ! ts_slot ts"
  let ?E = "filter (\<lambda>t. tm_deadline t \<le> ts_ticks ts) ?xs" and ?R = "filter (\<lambda>t. \<not> tm_deadline t \<le> ts_ticks ts) ?xs"
  have parts: "mset ?xs = mset ?E + mset ?R" by (simp flip: multiset_partition)
  have eqs: "mset (fst (ExpireSlot ts)) = mset ?E"
    "all_timers (snd (ExpireSlot ts)) = mset (concat ((ts_timers ts)[ts_slot ts := rev ?R]))"
    by (simp_all add: ExpireSlot_def split_slot_eq all_timers_def)
  have "mset (concat ((ts_timers ts)[ts_slot ts := rev ?R])) + (mset ?E + mset ?R) = all_timers ts + mset ?R"
    using mset_concat_update [OF assms, of "rev ?R"] unfolding parts all_timers_def by simp
  then have "(mset ?E + mset (concat ((ts_timers ts)[ts_slot ts := rev ?R]))) + mset ?R = all_timers ts + mset ?R"
    by (simp only: ac_simps)
  then show "mset (fst (ExpireSlot ts)) + all_timers (snd (ExpireSlot ts)) = all_timers ts"
    unfolding eqs by (simp only: add_right_cancel)
qed (use assms in \<open>auto simp: ExpireSlot_def split_slot_eq nth_list_update split: if_splits\<close>)

lemma AdvanceSlot_effect:
  assumes "ts_slot ts < kMaxTicksDuration"
  shows "ts_slot (AdvanceSlot ts) = Suc (ts_slot ts) mod kMaxTicksDuration"
    and "ts_timers (AdvanceSlot ts) = ts_timers ts" and "ts_ticks (AdvanceSlot ts) = ts_ticks ts"
    and "ts_cancelled_timers (AdvanceSlot ts) = ts_cancelled_timers ts"
    and "all_timers (AdvanceSlot ts) = all_timers ts"
  using assms by (auto simp: AdvanceSlot_def Let_def all_timers_def)

text \<open>The hand moves on by one slot, and the slot it reaches is emptied of what is due.\<close>

definition wheel_ok :: "'a TimerService \<Rightarrow> bool" where
  "wheel_ok ts \<longleftrightarrow> length (ts_timers ts) = kMaxTicksDuration \<and> ts_slot ts < kMaxTicksDuration"

lemma pass_slot_effect:
  assumes "wheel_ok ts"
  defines "es \<equiv> fst (ExpireSlot (AdvanceSlot ts))" and "ts' \<equiv> snd (ExpireSlot (AdvanceSlot ts))"
  shows "wheel_ok ts'" and "ts_slot ts' = Suc (ts_slot ts) mod kMaxTicksDuration"
    and "ts_ticks ts' = ts_ticks ts" and "ts_cancelled_timers ts' = ts_cancelled_timers ts"
    and "mset es + all_timers ts' = all_timers ts"
    and "\<forall>t\<in>set es. tm_deadline t \<le> ts_ticks ts"
    and "set (ts_timers ts' ! j) \<subseteq> set (ts_timers ts ! j)"
    and "\<forall>t\<in>set (ts_timers ts' ! ts_slot ts'). \<not> tm_deadline t \<le> ts_ticks ts"
proof -
  have "ts_slot ts < kMaxTicksDuration" using assms(1) by (simp add: wheel_ok_def)
  note adv = AdvanceSlot_effect [OF this]
  have "ts_slot (AdvanceSlot ts) < length (ts_timers (AdvanceSlot ts))"
    using adv(1,2) assms(1) by (simp add: wheel_ok_def kMaxTicksDuration_def)
  note ex = ExpireSlot_effect [OF this]
  show slot: "ts_slot ts' = Suc (ts_slot ts) mod kMaxTicksDuration" using ex(7) adv(1) by (simp add: ts'_def)
  show "wheel_ok ts'" using ex(6,7) adv(1,2) assms(1) by (simp add: wheel_ok_def ts'_def kMaxTicksDuration_def)
  show "ts_ticks ts' = ts_ticks ts" "ts_cancelled_timers ts' = ts_cancelled_timers ts"
    using ex(8,9) adv(3,4) by (simp_all add: ts'_def)
  show "mset es + all_timers ts' = all_timers ts" using ex(1) adv(5) by (simp add: es_def ts'_def)
  show "\<forall>t\<in>set es. tm_deadline t \<le> ts_ticks ts" using ex(2) adv(3) by (simp add: es_def)
  show "set (ts_timers ts' ! j) \<subseteq> set (ts_timers ts ! j)" using ex(5) [of j] adv(2) by (simp add: ts'_def)
  show "\<forall>t\<in>set (ts_timers ts' ! ts_slot ts'). \<not> tm_deadline t \<le> ts_ticks ts"
    using ex(3,7) adv(3) by (simp add: ts'_def)
qed

lemma expire_slots_Suc:
  "expire_slots (Suc n) ts =
     (let (es, ts') = ExpireSlot (AdvanceSlot ts) in (es @ fst (expire_slots n ts'), snd (expire_slots n ts')))"
  by (simp add: Let_def case_prod_beta)

lemma slot_after:
  "ts_slot ts' = Suc (ts_slot ts) mod kMaxTicksDuration \<Longrightarrow>
     (ts_slot ts' + i) mod kMaxTicksDuration = (ts_slot ts + Suc i) mod kMaxTicksDuration"
  by (simp add: mod_simps)

lemma expire_slots_frame:
  assumes "wheel_ok ts"
  shows "wheel_ok (snd (expire_slots n ts)) \<and>
    ts_slot (snd (expire_slots n ts)) = (ts_slot ts + n) mod kMaxTicksDuration \<and>
    ts_ticks (snd (expire_slots n ts)) = ts_ticks ts \<and>
    ts_cancelled_timers (snd (expire_slots n ts)) = ts_cancelled_timers ts"
  using assms
proof (induction n arbitrary: ts)
  case 0
  then show ?case by (simp add: wheel_ok_def)
next
  case (Suc n)
  note one = pass_slot_effect [OF Suc.prems]
  show ?case using Suc.IH [OF one(1)] one(3,4) slot_after [OF one(2), of n]
    by (simp add: expire_slots_Suc case_prod_beta del: expire_slots.simps)
qed

text \<open>Expiring \<open>n\<close> slots: nothing is lost, and only what is due is taken out.\<close>

lemma expire_slots_conserves:
  assumes "wheel_ok ts"
  shows "mset (fst (expire_slots n ts)) + all_timers (snd (expire_slots n ts)) = all_timers ts \<and>
    (\<forall>t\<in>set (fst (expire_slots n ts)). tm_deadline t \<le> ts_ticks ts) \<and>
    set (ts_timers (snd (expire_slots n ts)) ! j) \<subseteq> set (ts_timers ts ! j)"
  using assms
proof (induction n arbitrary: ts)
  case 0
  then show ?case by simp
next
  case (Suc n)
  note one = pass_slot_effect [OF Suc.prems]
  let ?b = "snd (ExpireSlot (AdvanceSlot ts))"
  note IH = Suc.IH [OF one(1)]
  have "mset (fst (expire_slots n ?b)) + all_timers (snd (expire_slots n ?b)) = all_timers ?b" using IH by blast
  then have "mset (fst (expire_slots (Suc n) ts)) + all_timers (snd (expire_slots (Suc n) ts)) = all_timers ts"
    using one(5) by (simp add: expire_slots_Suc case_prod_beta add.assoc del: expire_slots.simps)
  then show ?case using IH one(3,6) one(7) [of j]
    by (auto simp add: expire_slots_Suc case_prod_beta simp del: expire_slots.simps)
qed

text \<open>The slots that were passed hold no timer that is due.\<close>

lemma expire_slots_passed:
  assumes "wheel_ok ts" and "0 < i" and "i \<le> n" and "j = (ts_slot ts + i) mod kMaxTicksDuration"
    and "t \<in> set (ts_timers (snd (expire_slots n ts)) ! j)"
  shows "\<not> tm_deadline t \<le> ts_ticks ts"
  using assms
proof (induction n arbitrary: ts i)
  case 0
  then show ?case by simp
next
  case (Suc n)
  let ?b = "snd (ExpireSlot (AdvanceSlot ts))"
  note one = pass_slot_effect [OF Suc.prems(1)]
  obtain k where k: "i = Suc k" "k \<le> n" using Suc.prems(2,3) by (cases i) auto
  have t: "t \<in> set (ts_timers (snd (expire_slots n ?b)) ! j)"
    using Suc.prems(5) by (simp add: expire_slots_Suc case_prod_beta del: expire_slots.simps)
  show ?case
  proof (cases k)
    case 0
    then have "j = ts_slot ?b" using Suc.prems(4) k(1) one(2) by simp
    then show ?thesis using t one(8) expire_slots_conserves [OF one(1), of n j] by blast
  next
    case (Suc m)
    then show ?thesis
      using Suc.IH [OF one(1), of k] k t one(3) slot_after [OF one(2), of k] Suc.prems(4) by simp
  qed
qed

lemma expire_slots_effect:
  fixes ts :: "'a TimerService"
  assumes "length (ts_timers ts) = kMaxTicksDuration" and "ts_slot ts < kMaxTicksDuration"
  shows "mset (fst (expire_slots n ts)) + all_timers (snd (expire_slots n ts)) = all_timers ts \<and>
    (\<forall>t\<in>set (fst (expire_slots n ts)). tm_deadline t \<le> ts_ticks ts) \<and>
    (\<forall>j<kMaxTicksDuration. set (ts_timers (snd (expire_slots n ts)) ! j) \<subseteq> set (ts_timers ts ! j) \<and>
       ((\<exists>i. 0 < i \<and> i \<le> n \<and> j = (ts_slot ts + i) mod kMaxTicksDuration) \<longrightarrow>
        (\<forall>t\<in>set (ts_timers (snd (expire_slots n ts)) ! j). \<not> tm_deadline t \<le> ts_ticks ts))) \<and>
    length (ts_timers (snd (expire_slots n ts))) = kMaxTicksDuration \<and>
    ts_slot (snd (expire_slots n ts)) = (ts_slot ts + n) mod kMaxTicksDuration \<and>
    ts_ticks (snd (expire_slots n ts)) = ts_ticks ts \<and>
    ts_cancelled_timers (snd (expire_slots n ts)) = ts_cancelled_timers ts"
proof -
  have "wheel_ok ts" using assms by (simp add: wheel_ok_def)
  then show ?thesis
    using expire_slots_frame [of ts n] expire_slots_conserves [of ts n] expire_slots_passed [of ts _ n]
    unfolding wheel_ok_def by blast
qed
text \<open>Slots that were not passed are untouched.\<close>

lemma expire_slots_unpassed:
  assumes "length (ts_timers ts) = kMaxTicksDuration" and "ts_slot ts < kMaxTicksDuration"
    and "\<forall>i. 0 < i \<and> i \<le> n \<longrightarrow> j \<noteq> (ts_slot ts + i) mod kMaxTicksDuration"
  shows "ts_timers (snd (expire_slots n ts)) ! j = ts_timers ts ! j"
  using assms
proof (induction n arbitrary: ts)
  case 0
  then show ?case by simp
next
  case (Suc n)
  let ?a = "AdvanceSlot ts" and ?b = "snd (ExpireSlot (AdvanceSlot ts))"
  note adv = AdvanceSlot_effect [OF Suc.prems(2)]
  have slot: "ts_slot ?a < length (ts_timers ?a)"
    using adv(1,2) Suc.prems(1) by (simp add: kMaxTicksDuration_def)
  note ex = ExpireSlot_effect [OF slot]
  have b: "length (ts_timers ?b) = kMaxTicksDuration" "ts_slot ?b = Suc (ts_slot ts) mod kMaxTicksDuration"
    using ex(6,7) adv Suc.prems(1) by simp_all
  have bs: "ts_slot ?b < kMaxTicksDuration" using b(2) by (simp add: kMaxTicksDuration_def)
  have shift: "(ts_slot ?b + i) mod kMaxTicksDuration = (ts_slot ts + Suc i) mod kMaxTicksDuration" for i
    unfolding b(2) by (simp add: mod_simps)
  have "j \<noteq> ts_slot ?a" using Suc.prems(3) [rule_format, of 1] adv(1) by simp
  then have "ts_timers ?b ! j = ts_timers ts ! j" using ex(4) adv(2) by simp
  moreover have "\<forall>i. 0 < i \<and> i \<le> n \<longrightarrow> j \<noteq> (ts_slot ?b + i) mod kMaxTicksDuration"
    unfolding shift using Suc.prems(3) by auto
  ultimately show ?case using Suc.IH [OF b(1) bs] by (simp add: Let_def case_prod_beta)
qed

section \<open>Ticking\<close>

lemma distinct_submset:
  assumes "mset xs \<subseteq># mset ys" and "distinct ys"
  shows "distinct xs"
proof -
  obtain zs where "mset zs = mset ys - mset xs" using ex_mset by blast
  then have "mset ys = mset (xs @ zs)" using assms(1) by simp
  then have "distinct (xs @ zs)" using assms(2) mset_eq_imp_distinct_iff by blast
  then show ?thesis by simp
qed

lemma sort_out_mset:
  "mset (fst (snd (sort_out c ts))) + mset (snd (snd (sort_out c ts))) = mset ts"
  by (induction c ts rule: sort_out.induct) (auto simp: case_prod_beta Let_def)

lemma sort_out_ids:
  assumes "distinct (map tm_id ts)"
  shows "fst (snd (sort_out c ts)) = filter (\<lambda>t. tm_id t \<in> c) ts"
    and "snd (snd (sort_out c ts)) = filter (\<lambda>t. tm_id t \<notin> c) ts"
    and "fst (sort_out c ts) = c - tm_id ` set ts"
proof -
  have "fst (snd (sort_out c ts)) = filter (\<lambda>t. tm_id t \<in> c) ts \<and>
      snd (snd (sort_out c ts)) = filter (\<lambda>t. tm_id t \<notin> c) ts \<and> fst (sort_out c ts) = c - tm_id ` set ts"
    using assms
  proof (induction c ts rule: sort_out.induct)
    case (1 c)
    then show ?case by simp
  next
    case (2 c t ts)
    have ne: "tm_id u \<noteq> tm_id t" if "u \<in> set ts" for u using "2.prems" imageI [OF that, of tm_id] by auto
    have "filter (\<lambda>u. tm_id u \<in> c - {tm_id t}) ts = filter (\<lambda>u. tm_id u \<in> c) ts"
      "filter (\<lambda>u. tm_id u \<notin> c - {tm_id t}) ts = filter (\<lambda>u. tm_id u \<notin> c) ts"
      by (rule filter_cong; use ne in force)+
    with 2 show ?case by (auto simp: case_prod_beta Let_def)
  qed
  then show "fst (snd (sort_out c ts)) = filter (\<lambda>t. tm_id t \<in> c) ts"
    "snd (snd (sort_out c ts)) = filter (\<lambda>t. tm_id t \<notin> c) ts"
    "fst (sort_out c ts) = c - tm_id ` set ts"
    by auto
qed

text \<open>
  A timer whose deadline lies in the interval that was passed sits in a slot that was passed.
\<close>

lemma slot_passed:
  assumes "old < D" and "D \<le> old + e" and "0 < (k :: nat)"
  shows "\<exists>i. 0 < i \<and> i \<le> e \<and> D mod k = (old mod k + i) mod k"
  using assms mod_add_left_eq [of old k "D - old"] by (intro exI [of _ "D - old"]) simp

lemma not_full_turn:
  assumes "j < K" and "0 < k" and "k < (K :: nat)"
  shows "(j + k) mod K \<noteq> j"
proof (cases "j + k < K")
  case True
  then show ?thesis using assms by simp
next
  case False
  then have "(j + k) mod K = j + k - K" using assms by (simp add: le_mod_geq)
  then show ?thesis using False assms by simp
qed

lemma in_all_timers:
  assumes "ts_ok ts"
  shows "t \<in># all_timers ts \<longleftrightarrow> t \<in> set (ts_timers ts ! (unat (tm_deadline t) mod kMaxTicksDuration))"
proof
  assume "t \<in># all_timers ts"
  then obtain xs where "xs \<in> set (ts_timers ts)" "t \<in> set xs" by (auto simp: all_timers_def)
  then obtain j where "j < kMaxTicksDuration" "t \<in> set (ts_timers ts ! j)"
    using assms by (auto simp: ts_ok_def in_set_conv_nth)
  then show "t \<in> set (ts_timers ts ! (unat (tm_deadline t) mod kMaxTicksDuration))"
    using assms by (auto simp: ts_ok_def)
next
  assume t: "t \<in> set (ts_timers ts ! (unat (tm_deadline t) mod kMaxTicksDuration))"
  have "unat (tm_deadline t) mod kMaxTicksDuration < length (ts_timers ts)"
    using assms by (simp add: ts_ok_def kMaxTicksDuration_def)
  then show "t \<in># all_timers ts" using t by (auto simp: all_timers_def dest: nth_mem)
qed

text \<open>
  Both \<open>Tick\<close> and \<open>Stop\<close> run \<open>expire_slots\<close> at a given clock. If every timer that is due
  sits in a passed slot, exactly the due timers are taken out.
\<close>

lemma split_by:
  assumes "E + R = A" and "\<forall>t\<in>#E. P t" and "\<forall>t\<in>#R. \<not> P t"
  shows "E = filter_mset P A" and "R = filter_mset (\<lambda>t. \<not> P t) A"
proof -
  have "filter_mset P E = E" "filter_mset P R = {#}" "filter_mset (\<lambda>t. \<not> P t) E = {#}" "filter_mset (\<lambda>t. \<not> P t) R = R"
    using assms(2,3) by (auto simp: filter_mset_eq_conv)
  then show "E = filter_mset P A" "R = filter_mset (\<lambda>t. \<not> P t) A"
    using assms(1) by (metis filter_union_mset add.right_neutral add.left_neutral)+
qed

lemma ts_ok_expire:
  assumes ok: "length (ts_timers ts) = kMaxTicksDuration" "ts_slot ts < kMaxTicksDuration"
      "\<forall>j < kMaxTicksDuration. \<forall>t \<in> set (ts_timers ts ! j). unat (tm_deadline t) mod kMaxTicksDuration = j"
    and slot: "(ts_slot ts + n) mod kMaxTicksDuration = unat (ts_ticks ts) mod kMaxTicksDuration"
    and passed: "\<And>t. t \<in># all_timers ts \<Longrightarrow> tm_deadline t \<le> ts_ticks ts \<Longrightarrow>
      \<exists>i. 0 < i \<and> i \<le> n \<and> unat (tm_deadline t) mod kMaxTicksDuration = (ts_slot ts + i) mod kMaxTicksDuration"
  shows "ts_ok (snd (expire_slots n ts))"
    and "mset (fst (expire_slots n ts)) = {#t \<in># all_timers ts. tm_deadline t \<le> ts_ticks ts#}"
    and "all_timers (snd (expire_slots n ts)) = {#t \<in># all_timers ts. \<not> tm_deadline t \<le> ts_ticks ts#}"
proof -
  let ?ts = "snd (expire_slots n ts)"
  note eff = expire_slots_effect [OF ok(1,2), of n]
  have home: "unat (tm_deadline t) mod kMaxTicksDuration = j"
    if "j < kMaxTicksDuration" "t \<in> set (ts_timers ?ts ! j)" for j t
    using eff ok(3) that by blast
  show okt: "ts_ok ?ts" using eff home slot by (simp add: ts_ok_def)
  have cons: "mset (fst (expire_slots n ts)) + all_timers ?ts = all_timers ts" using eff by blast
  have "\<not> tm_deadline t \<le> ts_ticks ts" if t: "t \<in># all_timers ?ts" for t
  proof
    assume due: "tm_deadline t \<le> ts_ticks ts"
    have "t \<in># all_timers ts" using t cons by (metis union_iff)
    then obtain i where "0 < i" "i \<le> n" "unat (tm_deadline t) mod kMaxTicksDuration = (ts_slot ts + i) mod kMaxTicksDuration"
      using passed due by blast
    moreover have "t \<in> set (ts_timers ?ts ! (unat (tm_deadline t) mod kMaxTicksDuration))"
      using t in_all_timers [OF okt] by blast
    moreover have "unat (tm_deadline t) mod kMaxTicksDuration < kMaxTicksDuration" by (simp add: kMaxTicksDuration_def)
    ultimately show False using eff due by blast
  qed
  then have rest: "\<forall>t\<in>#all_timers ?ts. \<not> tm_deadline t \<le> ts_ticks ts" by blast
  have gone: "\<forall>t\<in>#mset (fst (expire_slots n ts)). tm_deadline t \<le> ts_ticks ts" using eff by simp
  show "mset (fst (expire_slots n ts)) = {#t \<in># all_timers ts. tm_deadline t \<le> ts_ticks ts#}"
    by (rule split_by(1) [OF cons gone rest])
  show "all_timers ?ts = {#t \<in># all_timers ts. \<not> tm_deadline t \<le> ts_ticks ts#}"
    by (rule split_by(2) [OF cons gone rest])
qed

lemma Tick_effect:
  assumes ok: "ts_ok ts" and due: "none_due ts" and nowrap: "unat (ts_ticks ts) + unat e < 2 ^ 64"
  defines "now \<equiv> ts_ticks ts + e"
  shows "mset (fst (Tick e ts)) + mset (fst (snd (Tick e ts))) = {#t \<in># all_timers ts. tm_deadline t \<le> now#}"
    and "all_timers (snd (snd (Tick e ts))) = {#t \<in># all_timers ts. \<not> tm_deadline t \<le> now#}"
    and "ts_ticks (snd (snd (Tick e ts))) = now"
    and "ts_ok (snd (snd (Tick e ts)))" and "none_due (snd (snd (Tick e ts)))"
proof -
  let ?ts = "ts\<lparr>ts_ticks := now\<rparr>"
  have now: "unat now = unat (ts_ticks ts) + unat e" using nowrap by (simp add: now_def unat_word_ariths)
  have all: "all_timers ?ts = all_timers ts" by (simp add: all_timers_def)
  have passed: "\<exists>i. 0 < i \<and> i \<le> unat e \<and> unat (tm_deadline t) mod kMaxTicksDuration = (ts_slot ?ts + i) mod kMaxTicksDuration"
    if "t \<in># all_timers ?ts" "tm_deadline t \<le> ts_ticks ?ts" for t
  proof -
    have "unat (ts_ticks ts) < unat (tm_deadline t)" "unat (tm_deadline t) \<le> unat (ts_ticks ts) + unat e"
      using due that all now by (auto simp: none_due_def word_less_nat_alt word_le_nat_alt)
    then show ?thesis
      using slot_passed [of "unat (ts_ticks ts)" "unat (tm_deadline t)" "unat e" kMaxTicksDuration] ok
      by (auto simp: ts_ok_def kMaxTicksDuration_def)
  qed
  have pre: "length (ts_timers ?ts) = kMaxTicksDuration" "ts_slot ?ts < kMaxTicksDuration"
    "\<forall>j < kMaxTicksDuration. \<forall>t \<in> set (ts_timers ?ts ! j). unat (tm_deadline t) mod kMaxTicksDuration = j"
    "(ts_slot ?ts + unat e) mod kMaxTicksDuration = unat (ts_ticks ?ts) mod kMaxTicksDuration"
    using ok now by (auto simp: ts_ok_def kMaxTicksDuration_def mod_simps)
  note ex = ts_ok_expire [OF pre passed, unfolded all]
  let ?x = "expire_slots (unat e) ?ts"
  have tick: "Tick e ts = (fst (snd (sort_out (ts_cancelled_timers (snd ?x)) (fst ?x))),
      snd (snd (sort_out (ts_cancelled_timers (snd ?x)) (fst ?x))),
      (snd ?x)\<lparr>ts_cancelled_timers := fst (sort_out (ts_cancelled_timers (snd ?x)) (fst ?x))\<rparr>)"
    by (simp add: Tick_def Let_def case_prod_beta now_def)
  have ticks: "ts_ticks (snd ?x) = now" using expire_slots_effect [OF pre(1,2), of "unat e"] by simp
  show "mset (fst (Tick e ts)) + mset (fst (snd (Tick e ts))) = {#t \<in># all_timers ts. tm_deadline t \<le> now#}"
    using ex(2) sort_out_mset [of "ts_cancelled_timers (snd ?x)" "fst ?x"] by (simp add: tick)
  show rest: "all_timers (snd (snd (Tick e ts))) = {#t \<in># all_timers ts. \<not> tm_deadline t \<le> now#}"
    using ex(3) by (simp add: tick all_timers_def)
  show tn: "ts_ticks (snd (snd (Tick e ts))) = now" by (simp add: tick ticks)
  show "ts_ok (snd (snd (Tick e ts)))" using ex(1) by (simp add: tick ts_ok_def)
  show "none_due (snd (snd (Tick e ts)))" unfolding none_due_def rest tn by auto
qed

section \<open>Adding timers\<close>

lemma DoAddTimer_effect:
  assumes ok: "ts_ok ts"
  shows "ts_ok (DoAddTimer x i d ts)"
    and "all_timers (DoAddTimer x i d ts) =
      add_mset \<lparr>tm_deadline = ts_ticks ts + d, tm_id = i, tm_object = x\<rparr> (all_timers ts)"
    and "ts_ticks (DoAddTimer x i d ts) = ts_ticks ts"
proof -
  let ?t = "\<lparr>tm_deadline = ts_ticks ts + d, tm_id = i, tm_object = x\<rparr>"
  let ?slot = "unat (ts_ticks ts + d) mod kMaxTicksDuration"
  have slot: "?slot < length (ts_timers ts)" using ok by (simp add: ts_ok_def kMaxTicksDuration_def)
  show "ts_ok (DoAddTimer x i d ts)"
    using ok slot by (auto simp: ts_ok_def DoAddTimer_def Let_def nth_list_update)
  have "all_timers (DoAddTimer x i d ts) + mset (ts_timers ts ! ?slot) =
      add_mset ?t (all_timers ts) + mset (ts_timers ts ! ?slot)"
    using mset_concat_update [OF slot, of "ts_timers ts ! ?slot @ [?t]"]
    by (simp add: DoAddTimer_def Let_def all_timers_def)
  then show "all_timers (DoAddTimer x i d ts) = add_mset ?t (all_timers ts)" by (simp only: add_right_cancel)
  show "ts_ticks (DoAddTimer x i d ts) = ts_ticks ts" by (simp add: DoAddTimer_def Let_def)
qed

lemma none_due_add:
  assumes "ts_ok ts" and "none_due ts" and "0 < unat d" and "unat (ts_ticks ts) + unat d < 2 ^ 64"
  shows "none_due (DoAddTimer x i d ts)"
  using assms by (auto simp: none_due_def DoAddTimer_effect word_less_nat_alt unat_word_ariths)

lemma TimerService_init_ok [simp]:
  "ts_ok (TimerService_init d)" "none_due (TimerService_init d)"
  by (auto simp: ts_ok_def none_due_def TimerService_init_def all_timers_def kMaxTicksDuration_def)

section \<open>A demonstration state\<close>

text \<open>A service with a tick of 10 ms and two timers, of 30 ms and of 50 ms.\<close>

definition timer_demo :: "nat TimerService" where
  "timer_demo = DoAddTimer 1 1 5 (DoAddTimer 0 0 3 (TimerService_init 10))"

lemma timer_demo_ok: "ts_ok timer_demo" "none_due timer_demo"
  "all_timers timer_demo = {#\<lparr>tm_deadline = 5, tm_id = 1, tm_object = 1\<rparr>, \<lparr>tm_deadline = 3, tm_id = 0, tm_object = 0\<rparr>#}"
  "ts_ticks timer_demo = 0"
proof -
  have "ts_ticks (TimerService_init d :: nat TimerService) = 0" "all_timers (TimerService_init d :: nat TimerService) = {#}" for d
    by (auto simp: TimerService_init_def all_timers_def)
  then show "ts_ok timer_demo" "none_due timer_demo"
    "all_timers timer_demo = {#\<lparr>tm_deadline = 5, tm_id = 1, tm_object = 1\<rparr>, \<lparr>tm_deadline = 3, tm_id = 0, tm_object = 0\<rparr>#}"
    "ts_ticks timer_demo = 0"
    by (simp_all add: timer_demo_def DoAddTimer_effect none_due_add)
qed

section \<open>Guarantees\<close>



text \<open>With distinct ids, a tick cancels exactly the expired timers whose cancellation was
  requested and fires exactly the others, and a request is consumed by the timer it hits.
\<close>

lemma timer_tick_cancels:
  assumes "ts_ok ts" and "none_due ts" and "unat (ts_ticks ts) + unat e < 2 ^ 64" and "Tick e ts = (cancelled, fired, ts')"
    and "distinct (map tm_id (concat (ts_timers ts)))"
  shows "(\<forall>t. t \<in> set cancelled \<longleftrightarrow> t \<in># all_timers ts \<and> tm_deadline t \<le> ts_ticks ts + e \<and> tm_id t \<in> ts_cancelled_timers ts) \<and>
    (\<forall>t. t \<in> set fired \<longleftrightarrow> t \<in># all_timers ts \<and> tm_deadline t \<le> ts_ticks ts + e \<and> tm_id t \<notin> ts_cancelled_timers ts) \<and>
    ts_cancelled_timers ts' = ts_cancelled_timers ts - tm_id ` set cancelled"
proof -
  let ?ts = "ts\<lparr>ts_ticks := ts_ticks ts + e\<rparr>"
  let ?x = "expire_slots (unat e) ?ts"
  have pre: "length (ts_timers ?ts) = kMaxTicksDuration" "ts_slot ?ts < kMaxTicksDuration"
    using assms(1) by (auto simp: ts_ok_def kMaxTicksDuration_def)
  note eff = expire_slots_effect [OF pre, of "unat e"]
  have keep: "ts_cancelled_timers (snd ?x) = ts_cancelled_timers ts" using eff by simp
  have all: "all_timers ?ts = all_timers ts" by (simp add: all_timers_def)
  have "mset (fst ?x) \<subseteq># mset (concat (ts_timers ts))"
    using eff all by (metis all_timers_def mset_subset_eq_add_left)
  then have "image_mset tm_id (mset (fst ?x)) \<subseteq># image_mset tm_id (mset (concat (ts_timers ts)))"
    by (rule image_mset_subseteq_mono)
  then have dist: "distinct (map tm_id (fst ?x))"
    using assms(5) by (metis distinct_submset mset_map)
  note sorted = sort_out_ids [OF dist, of "ts_cancelled_timers ts"]
  have res: "cancelled = filter (\<lambda>t. tm_id t \<in> ts_cancelled_timers ts) (fst ?x)"
    "fired = filter (\<lambda>t. tm_id t \<notin> ts_cancelled_timers ts) (fst ?x)"
    "ts_cancelled_timers ts' = ts_cancelled_timers ts - tm_id ` set (fst ?x)"
    using assms(4) sorted by (auto simp: Tick_def Let_def case_prod_beta keep)
  have "mset (fst ?x) = {#t \<in># all_timers ts. tm_deadline t \<le> ts_ticks ts + e#}"
    using Tick_effect(1) [OF assms(1-3)] assms(4) sort_out_mset [of "ts_cancelled_timers ts" "fst ?x"]
    by (auto simp: Tick_def Let_def case_prod_beta keep)
  then have set: "set (fst ?x) = {t. t \<in># all_timers ts \<and> tm_deadline t \<le> ts_ticks ts + e}"
    by (metis set_mset_mset set_mset_filter)
  show ?thesis unfolding res set_filter set by auto
qed

lemma timer_tick_cancels_witness:
  "let r = Tick 4 (CancelTimer 0 timer_demo); ts = CancelTimer 0 timer_demo in
    (\<forall>t. t \<in> set (fst r) \<longleftrightarrow> t \<in># all_timers ts \<and> tm_deadline t \<le> ts_ticks ts + 4 \<and> tm_id t \<in> ts_cancelled_timers ts) \<and>
    (\<forall>t. t \<in> set (fst (snd r)) \<longleftrightarrow> t \<in># all_timers ts \<and> tm_deadline t \<le> ts_ticks ts + 4 \<and> tm_id t \<notin> ts_cancelled_timers ts) \<and>
    ts_cancelled_timers (snd (snd r)) = ts_cancelled_timers ts - tm_id ` set (fst r)"
  unfolding Let_def
proof (rule timer_tick_cancels)
  show "ts_ok (CancelTimer 0 timer_demo)" "none_due (CancelTimer 0 timer_demo)"
    "unat (ts_ticks (CancelTimer 0 timer_demo)) + unat (4 :: u64) < 2 ^ 64"
    using timer_demo_ok by (simp_all add: CancelTimer_def ts_ok_def none_due_def all_timers_def)
  have "mset (map tm_id (concat (ts_timers (CancelTimer 0 timer_demo)))) = mset [1, 0 :: u64]"
    using arg_cong [OF timer_demo_ok(3), of "image_mset tm_id"] by (simp add: all_timers_def CancelTimer_def)
  then show "distinct (map tm_id (concat (ts_timers (CancelTimer 0 timer_demo))))"
    using mset_eq_imp_distinct_iff by fastforce
qed simp

text \<open>
  \<open>Stop\<close>, whose comment is \<open>Expire all timers\<close>, cancels no timer of a running
  service: every timer that is not due yet stays on the wheel.
\<close>

theorem timer_stop_keeps_pending:
  assumes "ts_ok ts" and "none_due ts"
  shows "fst (TimerService_Stop ts) = [] \<and> all_timers (snd (TimerService_Stop ts)) = all_timers ts"
proof -
  have pre: "length (ts_timers ts) = kMaxTicksDuration" "ts_slot ts < kMaxTicksDuration"
    using assms(1) by (auto simp: ts_ok_def kMaxTicksDuration_def)
  note eff = expire_slots_effect [OF pre, of kMaxTicksDuration]
  have "t \<notin> set (fst (TimerService_Stop ts))" for t
  proof
    assume t: "t \<in> set (fst (TimerService_Stop ts))"
    then have "tm_deadline t \<le> ts_ticks ts" "t \<in># all_timers ts"
      using eff unfolding TimerService_Stop_def by (metis, metis set_mset_mset union_iff)
    then show False using assms(2) by (auto simp: none_due_def)
  qed
  then have "fst (TimerService_Stop ts) = []" by (cases "fst (TimerService_Stop ts)") auto
  then show ?thesis using eff by (auto simp: TimerService_Stop_def)
qed

theorem timer_stop_keeps_pending_witness:
  "fst (TimerService_Stop timer_demo) = [] \<and> all_timers (snd (TimerService_Stop timer_demo)) = all_timers timer_demo"
  by (rule timer_stop_keeps_pending) (simp_all add: timer_demo_ok)

text \<open>
  A timer with a duration shorter than one tick is put into the slot the hand points at:
  it is due at once but is not taken out before the hand has gone round the whole wheel.
\<close>

theorem timer_short_duration_waits:
  assumes "ts_ok ts" and "AddTimer_id x i duration ts = Inr ts1" and "duration < ts_tick_duration ts"
    and "unat e < kMaxTicksDuration"
  shows "\<lparr>tm_deadline = ts_ticks ts, tm_id = i, tm_object = x\<rparr> \<in># all_timers (snd (snd (Tick e ts1)))"
proof -
  let ?t = "\<lparr>tm_deadline = ts_ticks ts, tm_id = i, tm_object = x\<rparr>"
  have "duration div ts_tick_duration ts = 0"
    using assms(3) by (simp add: word_arith_nat_div word_less_nat_alt)
  then have ts1: "ts1 = DoAddTimer x i 0 ts"
    using assms(2) by (auto simp: AddTimer_id_def duration_ticks_def split: if_splits)
  let ?ts = "ts1\<lparr>ts_ticks := ts_ticks ts1 + e\<rparr>" and ?j = "unat (ts_ticks ts) mod kMaxTicksDuration"
  have pre: "length (ts_timers ?ts) = kMaxTicksDuration" "ts_slot ?ts < kMaxTicksDuration" and slot: "ts_slot ?ts = ?j"
    and t: "?t \<in> set (ts_timers ?ts ! ?j)"
    using assms(1) by (auto simp: ts1 DoAddTimer_def Let_def ts_ok_def kMaxTicksDuration_def)
  have j: "?j < kMaxTicksDuration" by (simp add: kMaxTicksDuration_def)
  have "?j \<noteq> (ts_slot ?ts + k) mod kMaxTicksDuration" if k: "0 < k" "k \<le> unat e" for k
    using not_full_turn [OF j k(1)] k(2) assms(4) unfolding slot by (metis le_less_trans)
  then have "ts_timers (snd (expire_slots (unat e) ?ts)) ! ?j = ts_timers ?ts ! ?j"
    by (intro expire_slots_unpassed [OF pre]) blast
  moreover have "length (ts_timers (snd (expire_slots (unat e) ?ts))) = kMaxTicksDuration"
    using expire_slots_effect [OF pre, of "unat e"] by blast
  ultimately have "?t \<in># all_timers (snd (expire_slots (unat e) ?ts))"
    using t j nth_mem [of ?j "ts_timers (snd (expire_slots (unat e) ?ts))"]
    by (auto simp: all_timers_def intro!: bexI)
  then show ?thesis by (simp add: Tick_def Let_def case_prod_beta all_timers_def)
qed

theorem timer_short_duration_waits_witness:
  "\<lparr>tm_deadline = ts_ticks timer_demo, tm_id = 7, tm_object = 7\<rparr> \<in># all_timers (snd (snd (Tick 999 (DoAddTimer 7 7 0 timer_demo))))"
proof (rule timer_short_duration_waits [where duration = 9])
  have dur: "ts_tick_duration timer_demo = 10"
    by (simp add: timer_demo_def DoAddTimer_def Let_def TimerService_init_def)
  show "AddTimer_id 7 7 9 timer_demo = Inr (DoAddTimer 7 7 0 timer_demo)"
    by (simp add: AddTimer_id_def duration_ticks_def dur kMaxTicksDuration_def)
  show "(9 :: u64) < ts_tick_duration timer_demo" by (simp add: dur)
qed (simp_all add: timer_demo_ok kMaxTicksDuration_def)

end
