(* ===== verification/Payload.thy ===== *)
theory Payload
  imports Broadcast_Prelude
begin

text \<open>
  Binary serialisation (\<open>include/io/transport/payload.hpp\<close>): the two marshalling
  templates over byte pointers, the packet and the acknowledgement message. A write
  pointer into a buffer is a pair of the bytes before it and the bytes from it on; a read
  pointer is the bytes from it on. An access outside the buffer, undefined in C++, and a
  failed \<open>assert\<close> are \<open>None\<close>. The locale \<open>serializable\<close> is the contract of
  \<open>ISerializable\<close> that every sender and receiver of messages relies on.
\<close>

section \<open>Byte pointers\<close>

type_synonym cursor = "Bytes \<times> Bytes"

definition copy_bytes :: "Bytes \<Rightarrow> cursor \<Rightarrow> cursor option" where
  "copy_bytes bs c =
     (if length bs \<le> length (snd c) then Some (fst c @ bs, drop (length bs) (snd c)) else None)"

definition buffer_of :: "cursor \<Rightarrow> Bytes" where
  "buffer_of c = fst c @ snd c"

definition BinaryMarshalPrimitiveType :: "'a::len word \<Rightarrow> cursor \<Rightarrow> cursor option" where
  "BinaryMarshalPrimitiveType value bytes = copy_bytes (object_bytes value) bytes"

definition BinaryUnmarshalPrimitiveType :: "Bytes \<Rightarrow> 'a::len word option" where
  "BinaryUnmarshalPrimitiveType bytes =
     (let n = size_of TYPE('a) in
      if n \<le> length bytes then Some (object_value (take n bytes)) else None)"

definition BinaryMarshalArrayType :: "'a::len word list \<Rightarrow> nat \<Rightarrow> cursor \<Rightarrow> cursor option" where
  "BinaryMarshalArrayType value n bytes =
     (if n \<le> length value then copy_bytes (array_bytes (take n value)) bytes else None)"

definition BinaryUnmarshalArrayType :: "nat \<Rightarrow> Bytes \<Rightarrow> 'a::len word list option" where
  "BinaryUnmarshalArrayType n bytes =
     (if n * size_of TYPE('a) \<le> length bytes then Some (array_value n bytes) else None)"

lemma copy_bytes_eq [wire]:
  "copy_bytes bs (d, r) = (if length bs \<le> length r then Some (d @ bs, drop (length bs) r) else None)"
  by (simp add: copy_bytes_def)

lemma marshal_primitive_eq [wire]:
  "BinaryMarshalPrimitiveType (v :: 'a::len word) (d, r) =
     (if size_of TYPE('a) \<le> length r
      then Some (d @ object_bytes v, drop (size_of TYPE('a)) r) else None)"
  by (simp add: BinaryMarshalPrimitiveType_def copy_bytes_def)

lemma marshal_array_eq [wire]:
  "n = length vs \<Longrightarrow> BinaryMarshalArrayType (vs :: 'a::len word list) n (d, r) =
     (if n * size_of TYPE('a) \<le> length r
      then Some (d @ array_bytes vs, drop (n * size_of TYPE('a)) r) else None)"
  by (simp add: BinaryMarshalArrayType_def copy_bytes_def)

lemma unmarshal_u8 [wire]: "BinaryUnmarshalPrimitiveType (object_bytes (v :: u8) @ r) = Some v"
  by (simp add: BinaryUnmarshalPrimitiveType_def)

lemma unmarshal_u32 [wire]: "BinaryUnmarshalPrimitiveType (object_bytes (v :: u32) @ r) = Some v"
  by (simp add: BinaryUnmarshalPrimitiveType_def)

lemmas unmarshal_u32_exact [wire] = unmarshal_u32 [where r = "[]", simplified]

lemma unmarshal_array_u32 [wire]:
  "n = length vs \<Longrightarrow> BinaryUnmarshalArrayType n (array_bytes (vs :: u32 list) @ r) = Some vs"
  by (simp add: BinaryUnmarshalArrayType_def)

lemma drop_object_u8 [wire]: "n = 1 \<Longrightarrow> drop n (object_bytes (v :: u8) @ r) = r"
  by simp

lemma drop_object_u32 [wire]: "n = 4 \<Longrightarrow> drop n (object_bytes (v :: u32) @ r) = r"
  by simp

lemma drop_array_u32 [wire]:
  "n = 4 * length vs \<Longrightarrow> drop n (array_bytes (vs :: u32 list) @ r) = r"
  by simp

section \<open>The contract of serialisable messages\<close>

text \<open>
  \<open>Bytes buffer(m.Size()); m.Marshal(buffer);\<close>, the way every caller allocates the
  buffer: a fresh vector of zero bytes.
\<close>

definition marshal_fresh :: "('m \<Rightarrow> nat) \<Rightarrow> ('m \<Rightarrow> Bytes \<Rightarrow> Bytes option) \<Rightarrow> 'm \<Rightarrow> Bytes option" where
  "marshal_fresh sz marshal m = marshal m (replicate (sz m) 0)"

locale serializable =
  fixes Size :: "'m \<Rightarrow> nat"
    and Marshal :: "'m \<Rightarrow> Bytes \<Rightarrow> Bytes option"
    and Unmarshal :: "Bytes \<Rightarrow> 'm option"
    and image :: "'m \<Rightarrow> Bytes"
    and wf :: "'m \<Rightarrow> bool"
  assumes marshal_image:
      "wf m \<Longrightarrow> length buf = Size m \<Longrightarrow> Marshal m buf = Some (image m @ drop (length (image m)) buf)"
    and image_fits: "wf m \<Longrightarrow> length (image m) \<le> Size m"
    and unmarshal_image:
      "wf m \<Longrightarrow> length r = Size m - length (image m) \<Longrightarrow> Unmarshal (image m @ r) = Some m"
begin

lemma fresh_image:
  "wf m \<Longrightarrow> marshal_fresh Size Marshal m =
     Some (image m @ replicate (Size m - length (image m)) 0)"
  by (simp add: marshal_fresh_def marshal_image)

lemma fresh_roundtrip:
  assumes "wf m"
  shows "\<exists>bs. marshal_fresh Size Marshal m = Some bs \<and> length bs = Size m \<and> Unmarshal bs = Some m"
  using assms image_fits [OF assms] by (simp add: fresh_image unmarshal_image)

lemma fresh_inj:
  assumes "wf m" and "wf m'" and "marshal_fresh Size Marshal m = marshal_fresh Size Marshal m'"
  shows "m = m'"
  using fresh_roundtrip [OF assms(1)] fresh_roundtrip [OF assms(2)] assms(3) by auto

end

section \<open>Packet\<close>

text \<open>An \<open>enum class : uint8_t\<close> can hold any byte, so the type is the byte itself.\<close>

type_synonym PacketType = u8

definition kAckMessage :: PacketType where "kAckMessage = 0"
definition kPayloadMessage :: PacketType where "kPayloadMessage = 1"

definition packet_identifier :: u8 where "packet_identifier = 67"

record Packet =
  pkt_type :: PacketType
  pkt_id :: MessageID
  pkt_source :: PeerID
  pkt_message :: Bytes

definition kUDPOverhead :: nat where "kUDPOverhead = 8 + 20"

definition kPacketOverhead :: nat where
  "kPacketOverhead = size_of TYPE(8) + size_of TYPE(8) + size_of TYPE(32) + kUDPOverhead"

definition Packet_HeaderSize :: nat where
  "Packet_HeaderSize = size_of TYPE(8) + size_of TYPE(8) + size_of TYPE(32) + size_of TYPE(8)"

definition Packet_Size :: "Packet \<Rightarrow> nat" where
  "Packet_Size p = Packet_HeaderSize + length (pkt_message p)"

definition Packet_Marshal :: "Packet \<Rightarrow> Bytes \<Rightarrow> Bytes option" where
  "Packet_Marshal p bytes = do {
     check (length bytes \<ge> Packet_Size p);
     data \<leftarrow> BinaryMarshalPrimitiveType packet_identifier ([], bytes);
     data \<leftarrow> BinaryMarshalPrimitiveType (pkt_type p) data;
     data \<leftarrow> BinaryMarshalPrimitiveType (pkt_id p) data;
     data \<leftarrow> BinaryMarshalPrimitiveType (pkt_source p) data;
     data \<leftarrow> copy_bytes (pkt_message p) data;
     Some (buffer_of data)
   }"

text \<open>Moving bytes out of the message copies them: the buffer is the same.\<close>

definition Packet_MarshalExtract :: "Packet \<Rightarrow> Bytes \<Rightarrow> Bytes option" where
  "Packet_MarshalExtract p bytes = do {
     check (length bytes \<ge> Packet_Size p);
     data \<leftarrow> BinaryMarshalPrimitiveType packet_identifier ([], bytes);
     data \<leftarrow> BinaryMarshalPrimitiveType (pkt_type p) data;
     data \<leftarrow> BinaryMarshalPrimitiveType (pkt_id p) data;
     data \<leftarrow> BinaryMarshalPrimitiveType (pkt_source p) data;
     data \<leftarrow> copy_bytes (pkt_message p) data;
     Some (buffer_of data)
   }"

definition Packet_Unmarshal :: "Bytes \<Rightarrow> Packet option" where
  "Packet_Unmarshal bytes = do {
     check (length bytes \<ge> Packet_HeaderSize);
     let data = drop (size_of TYPE(8)) bytes;
     t \<leftarrow> BinaryUnmarshalPrimitiveType data;
     let data = drop (size_of TYPE(8)) data;
     i \<leftarrow> BinaryUnmarshalPrimitiveType data;
     let data = drop (size_of TYPE(32)) data;
     s \<leftarrow> BinaryUnmarshalPrimitiveType data;
     Some \<lparr>pkt_type = t, pkt_id = i, pkt_source = s, pkt_message = drop Packet_HeaderSize bytes\<rparr>
   }"

definition Packet_image :: "Packet \<Rightarrow> Bytes" where
  "Packet_image p = object_bytes packet_identifier @ object_bytes (pkt_type p) @
     object_bytes (pkt_id p) @ object_bytes (pkt_source p) @ pkt_message p"

lemma length_Packet_image [simp]: "length (Packet_image p) = Packet_Size p"
  by (simp add: Packet_image_def Packet_Size_def Packet_HeaderSize_def)

lemma Packet_Marshal_image:
  "Packet_Size p \<le> length buf \<Longrightarrow>
     Packet_Marshal p buf = Some (Packet_image p @ drop (Packet_Size p) buf)"
  by (auto simp: Packet_Marshal_def Packet_image_def Packet_Size_def Packet_HeaderSize_def wire
      buffer_of_def add.commute)

lemma Packet_MarshalExtract_eq: "Packet_MarshalExtract = Packet_Marshal"
  by (intro ext) (simp only: Packet_MarshalExtract_def Packet_Marshal_def)

lemma Packet_Unmarshal_image: "Packet_Unmarshal (Packet_image p) = Some p"
  by (simp add: Packet_Unmarshal_def Packet_HeaderSize_def Packet_Size_def Packet_image_def wire)

interpretation packet: serializable Packet_Size Packet_Marshal Packet_Unmarshal Packet_image
  "\<lambda>_. True"
  by unfold_locales (simp_all add: Packet_Marshal_image Packet_Unmarshal_image)

section \<open>Acknowledgements\<close>

record AckMessage =
  acks :: "MessageID list"

text \<open>\<open>sizeof(acks.size())\<close> is the size of \<open>size_t\<close>, not of the one-byte count written.\<close>

definition AckMessage_Size :: "AckMessage \<Rightarrow> nat" where
  "AckMessage_Size m = size_of TYPE(64) + unat (of_nat (length (acks m)) :: u8) * size_of TYPE(32)"

definition AckMessage_HeaderSize :: nat where
  "AckMessage_HeaderSize = size_of TYPE(8)"

definition AckMessage_Marshal :: "AckMessage \<Rightarrow> Bytes \<Rightarrow> Bytes option" where
  "AckMessage_Marshal m bytes = do {
     check (length (acks m) < 255);
     let num_elements = (of_nat (length (acks m)) :: u8);
     data \<leftarrow> BinaryMarshalPrimitiveType num_elements ([], bytes);
     data \<leftarrow> BinaryMarshalArrayType (acks m) (length (acks m)) data;
     Some (buffer_of data)
   }"

definition AckMessage_MarshalExtract :: "AckMessage \<Rightarrow> Bytes \<Rightarrow> Bytes option" where
  "AckMessage_MarshalExtract m bytes = AckMessage_Marshal m bytes"

definition AckMessage_Unmarshal :: "Bytes \<Rightarrow> AckMessage option" where
  "AckMessage_Unmarshal bytes = do {
     check (length bytes \<ge> AckMessage_HeaderSize);
     num_elements \<leftarrow> (BinaryUnmarshalPrimitiveType bytes :: u8 option);
     let data = drop (size_of TYPE(8)) bytes;
     ids \<leftarrow> BinaryUnmarshalArrayType (unat num_elements) data;
     Some \<lparr>acks = ids\<rparr>
   }"

definition AckMessage_image :: "AckMessage \<Rightarrow> Bytes" where
  "AckMessage_image m = object_bytes (of_nat (length (acks m)) :: u8) @ array_bytes (acks m)"

interpretation ack_message: serializable AckMessage_Size AckMessage_Marshal AckMessage_Unmarshal
  AckMessage_image "\<lambda>m. length (acks m) < 255"
proof unfold_locales
  fix m :: AckMessage and buf :: Bytes
  assume "length (acks m) < 255" and "length buf = AckMessage_Size m"
  then show "AckMessage_Marshal m buf = Some (AckMessage_image m @ drop (length (AckMessage_image m)) buf)"
    by (simp add: AckMessage_Marshal_def AckMessage_image_def AckMessage_Size_def wire buffer_of_def
        unat_of_nat_u8)
next
  fix m :: AckMessage
  assume "length (acks m) < 255"
  then show "length (AckMessage_image m) \<le> AckMessage_Size m"
    by (simp add: AckMessage_image_def AckMessage_Size_def unat_of_nat_u8)
next
  fix m :: AckMessage and r :: Bytes
  assume "length (acks m) < 255"
  then show "AckMessage_Unmarshal (AckMessage_image m @ r) = Some m"
    by (simp add: AckMessage_Unmarshal_def AckMessage_image_def AckMessage_HeaderSize_def wire
        unat_of_nat_u8)
qed

end
