(* ===== verification/Retry.thy ===== *)
theory Retry
  imports Timer_Service Payload
begin

text \<open>
  Retrying with a growing timeout (\<open>include/io/transport/backoff_retry.hpp\<close>,
  \<open>include/io/retryable_handler.hpp\<close>): the policy, the timer that repeats a callback under
  the same timer id, and the base class of the event handlers that re-arm their event.
\<close>

section \<open>\<open>RetryPolicy\<close>\<close>

text \<open>
  A \<open>double\<close> multiplier is a dyadic rational, kept as numerator and denominator. The
  product is exact as long as it has at most 53 bits, which holds for the timeouts that a
  timer wheel accepts.
\<close>

record RetryPolicy =
  rp_timeout_ms :: DurationMs
  rp_multiplier :: "nat \<times> nat"
  rp_max_timeout_ms :: DurationMs
  rp_initial_timeout :: DurationMs
  rp_with_jitter :: bool

definition RetryPolicy_init :: "DurationMs \<Rightarrow> nat \<times> nat \<Rightarrow> DurationMs \<Rightarrow> bool \<Rightarrow> RetryPolicy" where
  "RetryPolicy_init timeout_ms multiplier max_timeout_ms with_jitter =
     \<lparr>rp_timeout_ms = timeout_ms, rp_multiplier = multiplier, rp_max_timeout_ms = max_timeout_ms,
      rp_initial_timeout = timeout_ms, rp_with_jitter = with_jitter\<rparr>"

definition GetTimeout :: "RetryPolicy \<Rightarrow> DurationMs" where
  "GetTimeout p = rp_timeout_ms p"

definition IsValid :: "RetryPolicy \<Rightarrow> bool" where
  "IsValid p \<longleftrightarrow> rp_timeout_ms p \<le> rp_max_timeout_ms p"

text \<open>\<open>RandInt\<close> is a parameter: it draws a value between its two arguments.\<close>

type_synonym rand_int = "DurationMs \<Rightarrow> DurationMs \<Rightarrow> DurationMs"

definition Next :: "rand_int \<Rightarrow> RetryPolicy \<Rightarrow> RetryPolicy" where
  "Next RandInt p =
     (let max_new_timeout = of_nat (unat (rp_timeout_ms p) * fst (rp_multiplier p) div snd (rp_multiplier p))
      in if rp_with_jitter p then p\<lparr>rp_timeout_ms := RandInt (rp_timeout_ms p) max_new_timeout\<rparr>
         else p\<lparr>rp_timeout_ms := max_new_timeout\<rparr>)"

definition Reset :: "RetryPolicy \<Rightarrow> RetryPolicy" where
  "Reset p = p\<lparr>rp_timeout_ms := rp_initial_timeout p\<rparr>"

section \<open>What a timer runs\<close>

text \<open>
  A channel is named by the key under which the transport keeps it. A timer is either a
  \<open>BackoffRetryTimer\<close>, whose callback sends a packet of its channel again, or the
  \<open>retry_function_\<close> of an event handler, which re-arms the event of that handler.
\<close>

datatype HandlerKind = WriteHandler | ReadHandler

record BackoffRetryTimer =
  brt_channel :: PeerID
  brt_packet :: Packet
  brt_retry_policy :: RetryPolicy

datatype TimerObject = BackoffTimer BackoffRetryTimer | RetryFunction PeerID HandlerKind

section \<open>\<open>BackoffRetryTimer\<close>\<close>

definition BackoffRetryTimer_Rearm ::
    "TimerID \<Rightarrow> BackoffRetryTimer \<Rightarrow> TimerObject TimerService \<Rightarrow> fault + TimerObject TimerService" where
  "BackoffRetryTimer_Rearm i timer ts =
     (let policy = brt_retry_policy timer in
      if IsValid policy then AddTimer_id (BackoffTimer timer) i (GetTimeout policy) ts else Inr ts)"

text \<open>\<open>run\<close> is the effect of the callback on the rest of the state.\<close>

definition BackoffRetryTimer_Fire ::
    "(PeerID \<Rightarrow> Packet \<Rightarrow> 's \<Rightarrow> 's) \<Rightarrow> rand_int \<Rightarrow> TimerID \<Rightarrow> BackoffRetryTimer \<Rightarrow>
     's \<Rightarrow> TimerObject TimerService \<Rightarrow> fault + ('s \<times> TimerObject TimerService)" where
  "BackoffRetryTimer_Fire run RandInt i timer s ts =
     (let s = run (brt_channel timer) (brt_packet timer) s;
          timer = timer\<lparr>brt_retry_policy := Next RandInt (brt_retry_policy timer)\<rparr>
      in fbind (BackoffRetryTimer_Rearm i timer ts) (\<lambda>ts. Inr (s, ts)))"

section \<open>\<open>IRetryableHandler\<close>\<close>

text \<open>What becomes of the one-shot event of a handler when \<open>Handle\<close> returns.\<close>

datatype Rearming = RearmedNow | RearmedAfter DurationMs | NotRearmed

definition ScheduleAfter ::
    "PeerID \<Rightarrow> HandlerKind \<Rightarrow> DurationMs \<Rightarrow> TimerObject TimerService \<Rightarrow> fault + TimerObject TimerService" where
  "ScheduleAfter channel handler timeout ts =
     fbind (AddTimer (RetryFunction channel handler) timeout ts) (\<lambda>(_, ts). Inr ts)"

definition Retry ::
    "PeerID \<Rightarrow> HandlerKind \<Rightarrow> rand_int \<Rightarrow> RetryPolicy \<Rightarrow> TimerObject TimerService \<Rightarrow>
     fault + (Rearming \<times> RetryPolicy \<times> TimerObject TimerService)" where
  "Retry channel handler RandInt policy ts =
     (if IsValid policy then
        let timeout = GetTimeout policy;
            policy = Next RandInt policy
        in fbind (ScheduleAfter channel handler timeout ts) (\<lambda>ts. Inr (RearmedAfter timeout, policy, ts))
      else Inr (NotRearmed, policy, ts))"

section \<open>A policy runs out\<close>

text \<open>The policy after \<open>n\<close> calls of \<open>Next\<close>; the timeouts it hands out while it is valid, at most \<open>n\<close> of them.\<close>

fun nexts :: "rand_int \<Rightarrow> nat \<Rightarrow> RetryPolicy \<Rightarrow> RetryPolicy" where
  "nexts RandInt 0 p = p"
| "nexts RandInt (Suc n) p = nexts RandInt n (Next RandInt p)"

fun timeouts :: "rand_int \<Rightarrow> nat \<Rightarrow> RetryPolicy \<Rightarrow> DurationMs list" where
  "timeouts RandInt 0 p = []"
| "timeouts RandInt (Suc n) p =
     (if IsValid p then GetTimeout p # timeouts RandInt n (Next RandInt p) else [])"

lemma Next_frame [simp]:
  "rp_multiplier (Next R p) = rp_multiplier p" "rp_max_timeout_ms (Next R p) = rp_max_timeout_ms p"
  "rp_initial_timeout (Next R p) = rp_initial_timeout p" "rp_with_jitter (Next R p) = rp_with_jitter p"
  by (simp_all add: Next_def Let_def)

text \<open>
  A policy without jitter that grows: its multiplier adds at least one to the timeout, and
  its largest product fits 64 bits.
\<close>

definition growing :: "RetryPolicy \<Rightarrow> bool" where
  "growing p \<longleftrightarrow> \<not> rp_with_jitter p \<and> snd (rp_multiplier p) > 0 \<and>
     snd (rp_multiplier p) * Suc (unat (rp_timeout_ms p)) \<le> unat (rp_timeout_ms p) * fst (rp_multiplier p) \<and>
     unat (rp_max_timeout_ms p) * fst (rp_multiplier p) div snd (rp_multiplier p) < 2 ^ 64"

lemma growing_Next:
  assumes "growing p" and "IsValid p"
  shows "unat (rp_timeout_ms p) < unat (rp_timeout_ms (Next R p))" and "growing (Next R p)"
proof -
  obtain a b where m: "rp_multiplier p = (a, b)" by (cases "rp_multiplier p")
  let ?t = "unat (rp_timeout_ms p)" and ?t' = "unat (rp_timeout_ms p) * a div b"
  have b: "0 < b" and grow: "b * Suc ?t \<le> ?t * a"
    and max: "unat (rp_max_timeout_ms p) * a div b < 2 ^ 64"
    using assms(1) by (simp_all add: growing_def m)
  have "?t \<le> unat (rp_max_timeout_ms p)" using assms(2) by (simp add: IsValid_def word_le_nat_alt)
  then have "?t' \<le> unat (rp_max_timeout_ms p) * a div b" by (intro div_le_mono mult_right_mono) simp_all
  then have fits: "?t' < 2 ^ 64" using max by simp
  have new: "unat (rp_timeout_ms (Next R p)) = ?t'"
    using assms(1) fits by (simp add: Next_def m growing_def unat_of_nat)
  have "Suc ?t \<le> ?t'" using grow b by (simp add: less_eq_div_iff_mult_less_eq mult.commute)
  then show less: "?t < unat (rp_timeout_ms (Next R p))" by (simp add: new)
  have "b \<le> a"
  proof (rule ccontr)
    assume "\<not> b \<le> a"
    then have "?t * a \<le> ?t * b" by simp
    moreover have "b * Suc ?t = b + ?t * b" by (simp add: mult.commute)
    ultimately show False using grow b by linarith
  qed
  then obtain d where d: "a = b + d" using le_Suc_ex by blast
  have "b \<le> ?t * d" using grow by (simp add: d algebra_simps)
  also have "\<dots> \<le> ?t' * d" using \<open>Suc ?t \<le> ?t'\<close> by (intro mult_right_mono) simp_all
  finally have "b * Suc ?t' \<le> ?t' * a" by (simp add: d algebra_simps)
  then show "growing (Next R p)" using assms(1) by (simp add: growing_def m new)
qed

lemma timeouts_bounded:
  assumes "growing p"
  shows "length (timeouts R n p) \<le> unat (rp_max_timeout_ms p) + 1 - unat (rp_timeout_ms p)"
  using assms
proof (induction n arbitrary: p)
  case 0
  then show ?case by simp
next
  case (Suc n)
  show ?case
  proof (cases "IsValid p")
    case False
    then show ?thesis by simp
  next
    case True
    then have "unat (rp_timeout_ms p) \<le> unat (rp_max_timeout_ms p)" by (simp add: IsValid_def word_le_nat_alt)
    then show ?thesis
      using Suc.IH [OF growing_Next(2) [OF Suc.prems True, of R]] growing_Next(1) [OF Suc.prems True, of R] True
      by simp
  qed
qed

section \<open>Guarantees\<close>

text \<open>
  A growing policy runs out: after a bounded number of calls of \<open>Next\<close> it is no longer
  valid, so a \<open>BackoffRetryTimer\<close> repeats its callback a bounded number of times and an
  event handler reschedules itself a bounded number of times in a row.
\<close>

lemma retry_policy_runs_out:
  assumes "growing p"
  shows "\<exists>n \<le> unat (rp_max_timeout_ms p) + 1. \<not> IsValid (nexts RandInt n p)"
proof (rule ccontr)
  let ?n = "unat (rp_max_timeout_ms p) + 2"
  assume "\<not> (\<exists>n \<le> unat (rp_max_timeout_ms p) + 1. \<not> IsValid (nexts RandInt n p))"
  then have valid: "\<forall>m < ?n. IsValid (nexts RandInt m p)" by simp
  have "length (timeouts RandInt k q) = k" if "\<forall>m < k. IsValid (nexts RandInt m q)" for k q
    using that
  proof (induction k arbitrary: q)
    case 0
    then show ?case by simp
  next
    case (Suc k)
    have "IsValid q" using Suc.prems by (metis nexts.simps(1) zero_less_Suc)
    moreover have "\<forall>m < k. IsValid (nexts RandInt m (Next RandInt q))"
      using Suc.prems by (metis Suc_mono nexts.simps(2))
    ultimately show ?case using Suc.IH by simp
  qed
  then have "length (timeouts RandInt ?n p) = ?n" using valid by blast
  then show False using timeouts_bounded [OF assms, of RandInt ?n] by simp
qed

text \<open>The policy that the applications use for messages, with a wheel of 1000 ticks of 100 ms.\<close>

definition msg_policy_demo :: RetryPolicy where
  "msg_policy_demo = RetryPolicy_init 1000 (3, 1) (MaxDuration (TimerService_init 100 :: nat TimerService)) False"

lemma msg_policy_demo_growing: "growing msg_policy_demo"
  by (simp add: growing_def msg_policy_demo_def RetryPolicy_init_def MaxDuration_def TimerService_init_def
      kMaxTicksDuration_def)

lemma retry_policy_runs_out_witness:
  "\<exists>n \<le> unat (rp_max_timeout_ms msg_policy_demo) + 1. \<not> IsValid (nexts (\<lambda>a b. b) n msg_policy_demo)"
  by (rule retry_policy_runs_out [OF msg_policy_demo_growing])

text \<open>
  A policy is still valid when its timeout equals the longest duration of the wheel, but
  the wheel asserts that durations are shorter: a handler that is rescheduled with such a
  policy stops the program.
\<close>

theorem retry_at_maximum_asserts:
  assumes "unat (ts_tick_duration ts) * kMaxTicksDuration < 2 ^ 64" and "ts_tick_duration ts \<noteq> 0"
    and "rp_timeout_ms p = MaxDuration ts" and "rp_max_timeout_ms p = MaxDuration ts"
  shows "IsValid p \<and> Retry channel handler RandInt p ts = Inl AssertFailed"
proof -
  let ?tick = "unat (ts_tick_duration ts)"
  have max: "unat (MaxDuration ts) = ?tick * kMaxTicksDuration"
    using assms(1) by (simp add: MaxDuration_def unat_word_ariths unat_of_nat kMaxTicksDuration_def mult.commute)
  have "?tick \<noteq> 0" using assms(2) by (simp add: unat_eq_zero)
  then have "unat (MaxDuration ts div ts_tick_duration ts) = kMaxTicksDuration"
    by (simp add: unat_div max)
  then have "duration_ticks (GetTimeout p) ts = Inl AssertFailed"
    using assms(2,3) by (simp add: duration_ticks_def GetTimeout_def)
  moreover have "IsValid p" using assms(3,4) by (simp add: IsValid_def)
  ultimately show ?thesis by (simp add: Retry_def ScheduleAfter_def AddTimer_def)
qed

theorem retry_at_maximum_asserts_witness:
  "IsValid (RetryPolicy_init 100000 (3, 2) 100000 False) \<and>
   Retry 1 WriteHandler (\<lambda>a b. b) (RetryPolicy_init 100000 (3, 2) 100000 False) (TimerService_init 100) = Inl AssertFailed"
  by (rule retry_at_maximum_asserts)
    (simp_all add: TimerService_init_def kMaxTicksDuration_def RetryPolicy_init_def MaxDuration_def)

end
