(* ===== verification/Concurrent_Containers.thy ===== *)
theory Concurrent_Containers
  imports Broadcast_Prelude
begin

text \<open>
  The lock-protected containers of \<open>include/concurrency\<close> (\<open>mrmw_map.hpp\<close>,
  \<open>mrmw_set.hpp\<close>, \<open>queue.hpp\<close>, \<open>budget.hpp\<close>) and the id generators of
  \<open>include/util/unique_id.hpp\<close>. Every operation holds the lock of its container, or is
  one atomic instruction, for as long as it touches the state, so it is a function on that
  state; interleavings of threads are sequences of these functions (theory \<open>Spin_Lock\<close>).
\<close>

section \<open>\<open>MRMWUnorderedMap\<close>\<close>

text \<open>
  \<open>Set\<close> is \<open>emplace\<close>: it keeps an entry that is already there. \<open>Drain\<close>
  moves the values out of the entries, in an order that the hash table chooses, and keeps
  the entries: the order is a parameter, the entries are left as moved-from values.
\<close>

definition Map_Set :: "'k \<Rightarrow> 'v \<Rightarrow> ('k \<rightharpoonup> 'v) \<Rightarrow> ('k \<rightharpoonup> 'v)" where
  "Map_Set key value m = (case m key of None \<Rightarrow> m(key \<mapsto> value) | Some _ \<Rightarrow> m)"

definition Map_Has :: "'k \<Rightarrow> ('k \<rightharpoonup> 'v) \<Rightarrow> bool" where
  "Map_Has key m = (m key \<noteq> None)"

definition Map_Take :: "'k \<Rightarrow> ('k \<rightharpoonup> 'v) \<Rightarrow> 'v option \<times> ('k \<rightharpoonup> 'v)" where
  "Map_Take key m = (m key, m(key := None))"

definition Map_Get :: "'k \<Rightarrow> ('k \<rightharpoonup> 'v) \<Rightarrow> 'v option" where
  "Map_Get key m = m key"

definition Map_Drain :: "'k list \<Rightarrow> ('v \<Rightarrow> 'v) \<Rightarrow> ('k \<rightharpoonup> 'v) \<Rightarrow> 'v list \<times> ('k \<rightharpoonup> 'v)" where
  "Map_Drain order moved m =
     (List.map_filter m order, (\<lambda>k. if k \<in> set order then map_option moved (m k) else m k))"

text \<open>
  The contract that the users of the map rely on: an entry is handed over once. \<open>holds\<close>
  reads the abstract content of a state.
\<close>

locale entry_store =
  fixes set_entry :: "'k \<Rightarrow> 'v \<Rightarrow> 's \<Rightarrow> 's"
    and take_entry :: "'k \<Rightarrow> 's \<Rightarrow> 'v option \<times> 's"
    and has_entry :: "'k \<Rightarrow> 's \<Rightarrow> bool"
    and holds :: "'s \<Rightarrow> 'k \<Rightarrow> 'v option"
  assumes holds_set: "holds (set_entry k v s) j = (if j = k \<and> holds s k = None then Some v else holds s j)"
    and take_result: "fst (take_entry k s) = holds s k"
    and holds_take: "holds (snd (take_entry k s)) j = (if j = k then None else holds s j)"
    and has_holds: "has_entry k s \<longleftrightarrow> holds s k \<noteq> None"
begin

lemma take_after_set: "\<not> has_entry k s \<Longrightarrow> fst (take_entry k (set_entry k v s)) = Some v"
  by (simp add: take_result holds_set has_holds)

lemma first_set_wins: "fst (take_entry k (set_entry k w (set_entry k v s))) = fst (take_entry k (set_entry k v s))"
  by (simp add: take_result holds_set)

lemma take_once: "fst (take_entry k (snd (take_entry k s))) = None"
  by (simp add: take_result holds_take)

lemma has_after_take: "has_entry j (snd (take_entry k s)) \<longleftrightarrow> j \<noteq> k \<and> has_entry j s"
  by (simp add: has_holds holds_take)

lemma has_after_set: "has_entry j (set_entry k v s) \<longleftrightarrow> j = k \<or> has_entry j s"
  by (auto simp: has_holds holds_set)

end

interpretation mrmw_map: entry_store Map_Set Map_Take Map_Has "\<lambda>m. m"
  by unfold_locales (auto simp: Map_Set_def Map_Take_def Map_Has_def split: option.split)

section \<open>\<open>MRMWUnorderedSet\<close>\<close>

definition Set_Insert :: "'k \<Rightarrow> 'k set \<Rightarrow> bool \<times> 'k set" where
  "Set_Insert key b = (key \<notin> b, insert key b)"

definition Set_Has :: "'k \<Rightarrow> 'k set \<Rightarrow> bool" where
  "Set_Has key b = (key \<in> b)"

definition Set_Delete :: "'k \<Rightarrow> 'k set \<Rightarrow> 'k set" where
  "Set_Delete key b = b - {key}"

definition EstimateSize :: "'k set \<Rightarrow> nat" where
  "EstimateSize b = card b"

section \<open>Unique identifiers\<close>

text \<open>\<open>fetch_add(1)\<close>: the old value is returned, the counter wraps.\<close>

definition UniqueID_Get :: "'a::len word \<Rightarrow> 'a word \<times> 'a word" where
  "UniqueID_Get current_id = (current_id, current_id + 1)"

fun UniqueID_Gets :: "nat \<Rightarrow> 'a::len word \<Rightarrow> 'a word list \<times> 'a word" where
  "UniqueID_Gets 0 c = ([], c)"
| "UniqueID_Gets (Suc n) c =
     (let (x, c) = UniqueID_Get c; (xs, c) = UniqueID_Gets n c in (x # xs, c))"

lemma UniqueID_Gets_eq:
  "UniqueID_Gets n c = (map (\<lambda>i. c + of_nat i) [0..<n], c + of_nat n)"
proof (induction n arbitrary: c)
  case 0
  then show ?case by simp
next
  case (Suc n)
  have "[0..<Suc n] = 0 # map Suc [0..<n]" by (simp add: map_Suc_upt upt_conv_Cons)
  then show ?case
    by (simp add: UniqueID_Get_def Suc algebra_simps)
qed

lemma UniqueID_Gets_distinct:
  fixes c :: "'a::len word"
  assumes "n \<le> 2 ^ LENGTH('a)"
  shows "distinct (fst (UniqueID_Gets n c))"
proof -
  have "inj_on (\<lambda>i. c + of_nat i :: 'a word) {0..<n}"
  proof (rule inj_onI)
    fix i j assume "i \<in> {0..<n}" "j \<in> {0..<n}" and eq: "c + of_nat i = c + (of_nat j :: 'a word)"
    then have "i < 2 ^ LENGTH('a)" "j < 2 ^ LENGTH('a)" using assms by auto
    moreover have "(of_nat i :: 'a word) = of_nat j" using eq by simp
    ultimately show "i = j" by (metis mod_less unat_of_nat)
  qed
  then show ?thesis by (simp add: UniqueID_Gets_eq distinct_map)
qed

section \<open>\<open>SharedBudget\<close>\<close>

text \<open>\<open>counter_ + credit\<close> wraps at 64 bits before it is clipped.\<close>

record SharedBudget =
  sb_counter :: u64
  sb_max_budget :: u64

definition SharedBudget_init :: "u64 \<Rightarrow> u64 \<Rightarrow> SharedBudget" where
  "SharedBudget_init initial_budget max_budget = \<lparr>sb_counter = initial_budget, sb_max_budget = max_budget\<rparr>"

definition Credit :: "u64 \<Rightarrow> SharedBudget \<Rightarrow> u64 \<times> SharedBudget" where
  "Credit max_credit b =
     (let credit = min (sb_counter b) max_credit in
      (credit, b\<lparr>sb_counter := sb_counter b - credit\<rparr>))"

definition Credit_all :: "SharedBudget \<Rightarrow> u64 \<times> SharedBudget" where
  "Credit_all b = Credit (- 1) b"

definition TopUp :: "u64 \<Rightarrow> SharedBudget \<Rightarrow> SharedBudget" where
  "TopUp credit b = b\<lparr>sb_counter := min (sb_counter b + credit) (sb_max_budget b)\<rparr>"

definition budget_ok :: "SharedBudget \<Rightarrow> bool" where
  "budget_ok b \<longleftrightarrow> sb_counter b \<le> sb_max_budget b"

lemma Credit_frame [simp]: "sb_max_budget (snd (Credit c b)) = sb_max_budget b"
  by (simp add: Credit_def Let_def)

lemma Credit_all_eq: "Credit_all b = (sb_counter b, b\<lparr>sb_counter := 0\<rparr>)"
  by (simp add: Credit_all_def Credit_def Let_def min_def)

lemma TopUp_frame [simp]: "sb_max_budget (TopUp c b) = sb_max_budget b"
  by (simp add: TopUp_def)

lemma budget_ok_TopUp [inv_intro]: "budget_ok (TopUp c b)"
  by (simp add: budget_ok_def TopUp_def)

lemma unat_min: "unat (min a b :: 'a::len word) = min (unat a) (unat b)"
  by (auto simp: min_def word_le_nat_alt)

lemma Credit_nat:
  "unat (fst (Credit c b)) = min (unat (sb_counter b)) (unat c)"
  "unat (sb_counter (snd (Credit c b))) = unat (sb_counter b) - unat (fst (Credit c b))"
  by (simp_all add: Credit_def Let_def unat_min unat_sub)

lemma budget_ok_Credit [inv_intro]: "budget_ok b \<Longrightarrow> budget_ok (snd (Credit c b))"
  by (simp add: budget_ok_def word_le_nat_alt Credit_nat)

lemma TopUp_nat:
  assumes "unat (sb_counter b) + unat c < 2 ^ 64"
  shows "unat (sb_counter (TopUp c b)) = min (unat (sb_counter b) + unat c) (unat (sb_max_budget b))"
  using assms by (simp add: TopUp_def unat_min unat_word_ariths)

text \<open>Credit that was taken and is given back leaves the budget as it was.\<close>

lemma TopUp_Credit:
  assumes "budget_ok b"
  shows "TopUp (fst (Credit c b)) (snd (Credit c b)) = b"
  using assms by (simp add: TopUp_def Credit_def Let_def budget_ok_def min_absorb1)

section \<open>\<open>UnboundedMRMWQueue\<close>\<close>

text \<open>
  \<open>Take\<close> blocks while the queue is empty and open: \<open>None\<close> stands for a call that waits,
  \<open>Some None\<close> for \<open>nullopt\<close>.
\<close>

record 'a UnboundedQueue =
  uq_buffer :: "'a list"
  uq_is_closed :: bool

definition UQ_Put :: "'a \<Rightarrow> 'a UnboundedQueue \<Rightarrow> bool \<times> 'a UnboundedQueue" where
  "UQ_Put value q =
     (if uq_is_closed q then (False, q) else (True, q\<lparr>uq_buffer := uq_buffer q @ [value]\<rparr>))"

definition UQ_Take :: "'a UnboundedQueue \<Rightarrow> ('a option \<times> 'a UnboundedQueue) option" where
  "UQ_Take q =
     (if uq_buffer q = [] \<and> \<not> uq_is_closed q then None
      else Some (case uq_buffer q of
        [] \<Rightarrow> (None, q)
      | value # rest \<Rightarrow> (Some value, q\<lparr>uq_buffer := rest\<rparr>)))"

definition UQ_Close :: "'a UnboundedQueue \<Rightarrow> 'a UnboundedQueue" where
  "UQ_Close q = q\<lparr>uq_is_closed := True\<rparr>"

definition UQ_Clear :: "'a UnboundedQueue \<Rightarrow> 'a UnboundedQueue" where
  "UQ_Clear q = q\<lparr>uq_is_closed := True, uq_buffer := []\<rparr>"

datatype 'a queue_op = QPut 'a | QTake | QClose

text \<open>A history of calls: what was accepted and what was handed out, in order.\<close>

inductive uq_run :: "'a queue_op list \<Rightarrow> 'a list \<Rightarrow> 'a list \<Rightarrow> 'a UnboundedQueue \<Rightarrow> bool" where
  start: "uq_run [] [] [] \<lparr>uq_buffer = [], uq_is_closed = False\<rparr>"
| put: "uq_run ops ins outs q \<Longrightarrow> UQ_Put v q = (ok, q') \<Longrightarrow>
    uq_run (ops @ [QPut v]) (if ok then ins @ [v] else ins) outs q'"
| take: "uq_run ops ins outs q \<Longrightarrow> UQ_Take q = Some (r, q') \<Longrightarrow>
    uq_run (ops @ [QTake]) ins (case r of Some v \<Rightarrow> outs @ [v] | None \<Rightarrow> outs) q'"
| close: "uq_run ops ins outs q \<Longrightarrow> uq_run (ops @ [QClose]) ins outs (UQ_Close q)"

lemma uq_run_fifo: "uq_run ops ins outs q \<Longrightarrow> ins = outs @ uq_buffer q"
  by (induction rule: uq_run.induct)
    (auto simp: UQ_Put_def UQ_Take_def UQ_Close_def split: if_splits list.splits)

end
