(* ===== verification/Hosts.thy ===== *)
theory Hosts
  imports Broadcast_Prelude
begin

text \<open>
  The table of processes (\<open>include/io/transport/hosts.hpp\<close>). A host id is an
  \<open>unsigned long\<close> in the parsed file and a byte everywhere else; the constructor
  truncates it when it fills the table and compares it untruncated with the local id.
\<close>

type_synonym u16 = "16 word"

record Host =
  host_id :: u64
  host_ip :: u32
  host_port :: u16

record AddrInfo =
  sin_family :: u16
  sin_port :: u16
  s_addr :: u32

definition kSocketFamily :: u16 where "kSocketFamily = 2"

record HostsTable =
  hosts_list :: "Host list"
  hosts_map :: "PeerID \<rightharpoonup> Host"
  localID :: PeerID
  peers :: "PeerID list"

primrec fill_hosts :: "PeerID \<Rightarrow> Host list \<Rightarrow> (PeerID \<rightharpoonup> Host) \<Rightarrow> PeerID list \<Rightarrow>
    (PeerID \<rightharpoonup> Host) \<times> PeerID list" where
  "fill_hosts me [] m ps = (m, ps)"
| "fill_hosts me (host # hs) m ps =
     fill_hosts me hs (m(ucast (host_id host) \<mapsto> host))
       (if host_id host \<noteq> ucast me then ps @ [ucast (host_id host)] else ps)"

definition HostsTable_init :: "Host list \<Rightarrow> PeerID \<Rightarrow> HostsTable" where
  "HostsTable_init hs me =
     (let (m, ps) = fill_hosts me hs Map.empty [] in
      \<lparr>hosts_list = hs, hosts_map = m, localID = me, peers = ps\<rparr>)"

text \<open>
  \<open>hosts_[id]\<close> of an id that is not in the map inserts a host whose fields are not
  initialised; what follows reads them.
\<close>

definition GetHost :: "HostsTable \<Rightarrow> PeerID \<Rightarrow> fault + Host" where
  "GetHost t i = (case hosts_map t i of Some h \<Rightarrow> Inr h | None \<Rightarrow> Inl OutOfRange)"

definition LocalID :: "HostsTable \<Rightarrow> PeerID" where
  "LocalID t = localID t"

definition LocalHost :: "HostsTable \<Rightarrow> fault + Host" where
  "LocalHost t = GetHost t (localID t)"

definition GetPeers :: "HostsTable \<Rightarrow> PeerID list" where
  "GetPeers t = peers t"

definition GetNetworkSize :: "HostsTable \<Rightarrow> bool \<Rightarrow> nat" where
  "GetNetworkSize t with_me = (if with_me then length (peers t) + 1 else length (peers t))"

definition Resolve :: "HostsTable \<Rightarrow> PeerID \<Rightarrow> fault + AddrInfo" where
  "Resolve t i = fbind (GetHost t i)
     (\<lambda>h. Inr \<lparr>sin_family = kSocketFamily, sin_port = host_port h, s_addr = host_ip h\<rparr>)"

definition ResolveLocalHost :: "HostsTable \<Rightarrow> fault + AddrInfo" where
  "ResolveLocalHost t = Resolve t (localID t)"

text \<open>The hosts file the code is meant for: ids are distinct, fit a byte, and include the local one.\<close>

definition valid_hosts :: "Host list \<Rightarrow> PeerID \<Rightarrow> bool" where
  "valid_hosts hs me \<longleftrightarrow> distinct (map host_id hs) \<and> (\<forall>h\<in>set hs. unat (host_id h) < 256) \<and>
     ucast me \<in> set (map host_id hs)"

lemma fill_hosts_peers:
  "snd (fill_hosts me hs m ps) =
     ps @ map (\<lambda>h. ucast (host_id h)) (filter (\<lambda>h. host_id h \<noteq> ucast me) hs)"
  by (induction hs arbitrary: m ps) auto

lemma fill_hosts_map:
  "fst (fill_hosts me hs m ps) i =
     (case find (\<lambda>h. ucast (host_id h) = i) (rev hs) of Some h \<Rightarrow> Some h | None \<Rightarrow> m i)"
proof (induction hs arbitrary: m ps)
  case Nil
  then show ?case by simp
next
  case (Cons h hs)
  have snoc: "find P (xs @ [x]) =
      (case find P xs of Some y \<Rightarrow> Some y | None \<Rightarrow> if P x then Some x else None)"
    for P and xs :: "Host list" and x
    by (induction xs) auto
  show ?case
    by (auto simp: Cons.IH snoc split: option.split)
qed

lemma ucast_u64_u8_inj:
  fixes a b :: u64
  assumes "unat a < 256" and "unat b < 256" and "(ucast a :: u8) = ucast b"
  shows "a = b"
proof -
  have "unat (ucast a :: u8) = unat a" "unat (ucast b :: u8) = unat b"
    using assms(1,2) by (simp_all add: unsigned_ucast_eq take_bit_nat_eq_self)
  then show ?thesis using assms(3) by (metis word_unat_eq_iff)
qed

lemma ucast_u8_u64_u8: "ucast (ucast (x :: u8) :: u64) = x"
  by (simp add: word_unat_eq_iff unsigned_ucast_eq take_bit_word_eq_self)

lemma unat_ucast_u8_u64: "unat (ucast (x :: u8) :: u64) < 256"
proof -
  have "take_bit 64 (unat x) \<le> unat x" by (rule take_bit_nat_less_eq_self)
  also have "unat x < 256" by simp
  finally show ?thesis by (simp add: unsigned_ucast_eq)
qed

lemma peers_eq:
  "peers (HostsTable_init hs me) =
     map (\<lambda>h. ucast (host_id h)) (filter (\<lambda>h. host_id h \<noteq> ucast me) hs)"
  by (simp add: HostsTable_init_def case_prod_beta Let_def fill_hosts_peers)

lemma localID_init [simp]: "localID (HostsTable_init hs me) = me"
  by (simp add: HostsTable_init_def case_prod_beta Let_def)

text \<open>What the primitives rely on: the peers and the local process enumerate the processes.\<close>

definition enumerates :: "HostsTable \<Rightarrow> PeerID set \<Rightarrow> bool" where
  "enumerates t P \<longleftrightarrow> distinct (peers t) \<and> localID t \<notin> set (peers t) \<and>
     insert (localID t) (set (peers t)) = P"

lemma enumerates_size: "enumerates t P \<Longrightarrow> GetNetworkSize t True = card P"
  by (auto simp: enumerates_def GetNetworkSize_def distinct_card)

lemma enumerates_init:
  assumes "valid_hosts hs me"
  shows "enumerates (HostsTable_init hs me) ((\<lambda>h. ucast (host_id h)) ` set hs)"
proof -
  have inj: "inj_on (\<lambda>h. ucast (host_id h) :: PeerID) (set hs)"
  proof (rule inj_onI)
    fix x y
    assume xy: "x \<in> set hs" "y \<in> set hs" "(ucast (host_id x) :: PeerID) = ucast (host_id y)"
    then have "host_id x = host_id y"
      using assms ucast_u64_u8_inj [of "host_id x" "host_id y"] by (simp add: valid_hosts_def)
    then show "x = y" using assms xy by (simp add: valid_hosts_def distinct_map inj_on_def)
  qed
  have "distinct (peers (HostsTable_init hs me))"
    using assms inj by (auto simp: peers_eq distinct_map valid_hosts_def intro: inj_on_subset)
  moreover have "me \<notin> set (peers (HostsTable_init hs me))"
  proof
    assume "me \<in> set (peers (HostsTable_init hs me))"
    then obtain h where h: "h \<in> set hs" "host_id h \<noteq> ucast me" "me = ucast (host_id h)"
      by (auto simp: peers_eq)
    have "unat (host_id h) < 256" using assms h(1) by (simp add: valid_hosts_def)
    moreover have "unat (ucast me :: u64) < 256"
      by (rule unat_ucast_u8_u64)
    moreover have "(ucast (host_id h) :: u8) = ucast (ucast me :: u64)"
      using h(3) by (simp add: ucast_u8_u64_u8)
    ultimately show False using h(2) ucast_u64_u8_inj by blast
  qed
  moreover have "insert me (set (peers (HostsTable_init hs me))) = (\<lambda>h. ucast (host_id h)) ` set hs"
    using assms by (auto simp: peers_eq valid_hosts_def ucast_u8_u64_u8 image_iff)
      (metis ucast_u8_u64_u8)+
  ultimately show ?thesis by (simp add: enumerates_def)
qed

end
