(* ===== verification/Event_Loop.thy ===== *)
theory Event_Loop
  imports Broadcast_Prelude
begin

unbundle bit_operations_syntax

text \<open>
  The event loop around \<open>epoll\<close> (\<open>src/runtime/event_loop.cpp\<close>). The answers of the
  system calls are parameters, and so are the event handlers, which are named by the address
  that the code stores in the event's data.
\<close>

section \<open>Events\<close>

datatype EventType = kReadReady | kWriteReady | kError

text \<open>The flags of Linux's \<open>epoll\<close>.\<close>

definition EPOLLIN :: u32 where "EPOLLIN = 1"
definition EPOLLOUT :: u32 where "EPOLLOUT = 4"
definition EPOLLERR :: u32 where "EPOLLERR = 8"
definition EPOLLONESHOT :: u32 where "EPOLLONESHOT = push_bit 30 1"

lemmas epoll_flags = EPOLLIN_def EPOLLOUT_def EPOLLERR_def EPOLLONESHOT_def

definition ToEventType :: "u32 \<Rightarrow> fault + EventType" where
  "ToEventType epoll_events =
     (if epoll_events AND EPOLLIN \<noteq> 0 then Inr kReadReady
      else if epoll_events AND EPOLLOUT \<noteq> 0 then Inr kWriteReady
      else if epoll_events AND EPOLLERR \<noteq> 0 then Inr kError
      else Inl AssertFailed)"

fun ToEpollEvents :: "EventType \<Rightarrow> u32" where
  "ToEpollEvents kReadReady = EPOLLONESHOT OR EPOLLIN"
| "ToEpollEvents kWriteReady = EPOLLONESHOT OR EPOLLOUT"
| "ToEpollEvents kError = EPOLLONESHOT OR EPOLLERR"

record Event =
  ev_fd :: u32
  ev_handler :: u64
  ev_type :: EventType

text \<open>
  The kernel's structure: the flags, and a union of 64 bits that holds a pointer or, in its
  low 32 bits, a descriptor.
\<close>

record EpollEvent =
  ee_events :: u32
  ee_data :: u64

definition data_fd :: "u64 \<Rightarrow> u32" where
  "data_fd d = ucast d"

definition AsEpollEvent :: "Event \<Rightarrow> EpollEvent" where
  "AsEpollEvent e = \<lparr>ee_events = ToEpollEvents (ev_type e), ee_data = ev_handler e\<rparr>"

section \<open>Registering\<close>

text \<open>
  A call of \<open>epoll_ctl\<close> that the code makes, and its return code as an argument;
  \<open>CANNOT_FAIL\<close> ends the process on \<open>-1\<close>.
\<close>

datatype epoll_ctl = EPOLL_CTL_ADD u32 EpollEvent | EPOLL_CTL_MOD u32 EpollEvent | EPOLL_CTL_DEL u32

definition CANNOT_FAIL :: "int \<Rightarrow> 'a \<Rightarrow> fault + 'a" where
  "CANNOT_FAIL code a = (if code = -1 then Inl SyscallFailed else Inr a)"

definition AddEvent :: "int \<Rightarrow> Event \<Rightarrow> fault + epoll_ctl" where
  "AddEvent code event = CANNOT_FAIL code (EPOLL_CTL_ADD (ev_fd event) (AsEpollEvent event))"

definition ModEvent :: "int \<Rightarrow> Event \<Rightarrow> fault + epoll_ctl" where
  "ModEvent code event = CANNOT_FAIL code (EPOLL_CTL_MOD (ev_fd event) (AsEpollEvent event))"

definition DelEvent :: "int \<Rightarrow> u32 \<Rightarrow> fault + epoll_ctl" where
  "DelEvent code fd = CANNOT_FAIL code (EPOLL_CTL_DEL fd)"

text \<open>The upper half of the union is not initialised: it is a parameter.\<close>

definition SetupStopEvent :: "u32 \<Rightarrow> u32 \<Rightarrow> int \<Rightarrow> fault + epoll_ctl" where
  "SetupStopEvent garbage stop_event_descriptor code =
     CANNOT_FAIL code (EPOLL_CTL_ADD stop_event_descriptor
       \<lparr>ee_events = EPOLLIN, ee_data = push_bit 32 (ucast garbage) OR ucast stop_event_descriptor\<rparr>)"

section \<open>The wait loop\<close>

definition HandleEpollEvent ::
    "u32 \<Rightarrow> (u64 \<Rightarrow> EventType \<Rightarrow> 's \<Rightarrow> fault + 's) \<Rightarrow> EpollEvent \<Rightarrow> 's \<Rightarrow> fault + (bool \<times> 's)" where
  "HandleEpollEvent stop_event_descriptor handle e s =
     (if data_fd (ee_data e) = stop_event_descriptor then Inr (False, s)
      else fbind (ToEventType (ee_events e)) (\<lambda>type.
           fbind (handle (ee_data e) type s) (\<lambda>s. Inr (True, s))))"

fun handle_events ::
    "u32 \<Rightarrow> (u64 \<Rightarrow> EventType \<Rightarrow> 's \<Rightarrow> fault + 's) \<Rightarrow> EpollEvent list \<Rightarrow> bool \<Rightarrow> 's \<Rightarrow> fault + (bool \<times> 's)" where
  "handle_events sd handle [] stop_flag s = Inr (stop_flag, s)"
| "handle_events sd handle (e # es) stop_flag s =
     fbind (HandleEpollEvent sd handle e s) (\<lambda>(go_on, s).
       handle_events sd handle es (if go_on then stop_flag else True) s)"

text \<open>An answer of \<open>epoll_wait\<close>: events, an interruption by a signal, another error.\<close>

datatype wait_answer = Events "EpollEvent list" | Interrupted | WaitError

text \<open>
  The loop consumes answers until one contains the stop event. It returns \<open>None\<close> for the
  loop that is still waiting when the answers end, and otherwise the answers it has not read.
\<close>

fun EpollWaitLoop ::
    "u32 \<Rightarrow> (u64 \<Rightarrow> EventType \<Rightarrow> 's \<Rightarrow> fault + 's) \<Rightarrow> wait_answer list \<Rightarrow> 's \<Rightarrow> fault + (wait_answer list option \<times> 's)" where
  "EpollWaitLoop sd handle [] s = Inr (None, s)"
| "EpollWaitLoop sd handle (Interrupted # as) s = EpollWaitLoop sd handle as s"
| "EpollWaitLoop sd handle (WaitError # as) s = Inl SyscallFailed"
| "EpollWaitLoop sd handle (Events es # as) s =
     fbind (handle_events sd handle es False s) (\<lambda>(stop_flag, s).
       if stop_flag then Inr (Some as, s) else EpollWaitLoop sd handle as s)"

section \<open>Properties\<close>

text \<open>
  What epoll reports for a registered event contains the flag that was asked for, so
  the type survives the translation to flags and back, also when an error is reported with it.
\<close>

lemma ToEventType_ToEpollEvents: "ToEventType (ToEpollEvents t) = Inr t"
  by (cases t) (simp_all add: ToEventType_def epoll_flags)

lemma ToEventType_with_error:
  "ToEventType (ToEpollEvents t OR EPOLLERR) = Inr t"
  by (cases t) (simp_all add: ToEventType_def epoll_flags)

lemma ToEventType_hangup: "ToEventType 16 = Inl AssertFailed"
  by (simp add: ToEventType_def epoll_flags)

definition dispatched :: "u32 \<Rightarrow> EpollEvent list \<Rightarrow> EpollEvent list" where
  "dispatched sd es = [e \<leftarrow> es. data_fd (ee_data e) \<noteq> sd]"

fun fold_handlers :: "(u64 \<Rightarrow> EventType \<Rightarrow> 's \<Rightarrow> fault + 's) \<Rightarrow> EpollEvent list \<Rightarrow> 's \<Rightarrow> fault + 's" where
  "fold_handlers handle [] s = Inr s"
| "fold_handlers handle (e # es) s =
     fbind (ToEventType (ee_events e)) (\<lambda>type. fbind (handle (ee_data e) type s) (fold_handlers handle es))"

lemma fbind_assoc: "fbind (fbind x f) g = fbind x (\<lambda>a. fbind (f a) g)"
  by (cases x) auto

lemma handle_events_eq:
  "handle_events sd handle es stop s =
   fbind (fold_handlers handle (dispatched sd es) s)
     (\<lambda>s. Inr (stop \<or> (\<exists>e\<in>set es. data_fd (ee_data e) = sd), s))"
proof (induction es arbitrary: stop s)
  case Nil
  then show ?case by (simp add: dispatched_def)
next
  case (Cons e es)
  show ?case
  proof (cases "data_fd (ee_data e) = sd")
    case True
    with Cons [of True s] show ?thesis by (simp add: HandleEpollEvent_def dispatched_def)
  next
    case False
    have fun_eq: "(\<lambda>s. handle_events sd handle es stop s) =
        (\<lambda>s. fbind (fold_handlers handle (dispatched sd es) s)
          (\<lambda>s. Inr (stop \<or> (\<exists>e\<in>set es. data_fd (ee_data e) = sd), s)))"
      using Cons by blast
    from False show ?thesis by (simp add: HandleEpollEvent_def dispatched_def fbind_assoc fun_eq [unfolded dispatched_def])
  qed
qed

fun live_events :: "u32 \<Rightarrow> wait_answer list \<Rightarrow> EpollEvent list" where
  "live_events sd [] = []"
| "live_events sd (Interrupted # as) = live_events sd as"
| "live_events sd (WaitError # as) = []"
| "live_events sd (Events es # as) =
     dispatched sd es @ (if \<exists>e\<in>set es. data_fd (ee_data e) = sd then [] else live_events sd as)"

lemma fold_handlers_append:
  "fold_handlers handle (xs @ ys) s = fbind (fold_handlers handle xs s) (fold_handlers handle ys)"
proof (induction xs arbitrary: s)
  case (Cons e xs)
  then have "fold_handlers handle (xs @ ys) = (\<lambda>s. fbind (fold_handlers handle xs s) (fold_handlers handle ys))"
    by blast
  then show ?case by (simp add: fbind_assoc)
qed simp

text \<open>A runner of the event loop handles the events it receives in order, each with its
  type, the whole batch with the stop signal included and nothing after it; it leaves the
  loop at the first batch that contains the stop signal, and interruptions by signals do
  not disturb it.\<close>

lemma event_loop_dispatches:
  assumes "WaitError \<notin> set answers" and "EpollWaitLoop sd handle answers s = Inr (rest, s')"
  shows "fold_handlers handle (live_events sd answers) s = Inr s' \<and>
    (rest = None \<longleftrightarrow> (\<forall>es. Events es \<in> set answers \<longrightarrow> (\<forall>e\<in>set es. data_fd (ee_data e) \<noteq> sd)))"
  using assms
proof (induction sd handle answers s rule: EpollWaitLoop.induct)
  case (4 sd handle es as s)
  from "4.prems"(2) obtain s1 where s1: "fold_handlers handle (dispatched sd es) s = Inr s1"
    by (auto simp: handle_events_eq fbind_assoc fbind_eq_Inr)
  show ?case
  proof (cases "\<exists>e\<in>set es. data_fd (ee_data e) = sd")
    case True
    with "4.prems" s1 show ?thesis by (auto simp: handle_events_eq)
  next
    case False
    with "4.prems" s1 have "EpollWaitLoop sd handle as s1 = Inr (rest, s')" by (simp add: handle_events_eq)
    moreover have "handle_events sd handle es False s = Inr (False, s1)" using False s1 by (simp add: handle_events_eq)
    ultimately show ?thesis
      using "4.IH" "4.prems"(1) False s1 by (auto simp: fold_handlers_append)
  qed
qed auto

lemma event_loop_dispatches_witness:
  "fold_handlers (\<lambda>h t s. Inr (s @ [(h, t)])) [\<lparr>ee_events = 4, ee_data = 100\<rparr>] [] = Inr [(100, kWriteReady)]"
  using event_loop_dispatches [of "[Interrupted, Events [\<lparr>ee_events = 1, ee_data = 7\<rparr>, \<lparr>ee_events = 4, ee_data = 100\<rparr>]]"
      7 "\<lambda>h t s. Inr (s @ [(h, t)])" "[]" "Some []" "[(100, kWriteReady)]"]
  by (simp add: HandleEpollEvent_def ToEventType_def data_fd_def dispatched_def epoll_flags)

text \<open>
  The stop signal is recognised by the low 32 bits of the data: a handler whose address ends
  in the number of the stop descriptor is taken for it.
\<close>

lemma handler_taken_for_stop:
  "ucast (ev_handler event) = sd \<Longrightarrow> HandleEpollEvent sd handle (AsEpollEvent event) s = Inr (False, s)"
  by (simp add: HandleEpollEvent_def AsEpollEvent_def data_fd_def)

lemma stop_event_recognised:
  assumes "SetupStopEvent garbage sd code = Inr (EPOLL_CTL_ADD sd e)"
  shows "HandleEpollEvent sd handle e s = Inr (False, s)"
proof -
  have "data_fd (push_bit 32 (ucast garbage) OR ucast sd) = sd"
    by (rule bit_word_eqI) (auto simp: data_fd_def bit_simps)
  with assms show ?thesis by (auto simp: SetupStopEvent_def CANNOT_FAIL_def HandleEpollEvent_def split: if_splits)
qed

end
