(* ===== verification/Fairloss_Channel.thy ===== *)
theory Fairloss_Channel
  imports Retry Concurrent_Containers Hosts Event_Loop
begin

text \<open>
  The fair-loss channel (\<open>include/io/transport/fairloss_channel.hpp\<close>) with the socket calls
  it makes (\<open>include/io/transport/udp_socket.hpp\<close>). The kernel's answers to \<open>read\<close> and
  \<open>write\<close> are parameters. The queue of outgoing packets is the list of its packets in the
  order in which \<open>TryPopAll\<close> hands them out (theory \<open>Task_Queue\<close>).
\<close>

section \<open>Socket calls\<close>

datatype errno = EAGAIN | ECONNREFUSED | OtherErrno

datatype 'a sysret = Ret 'a | Err errno

datatype WriteStatus = kWouldBlock | kConnRefused | kOk

definition UDPSocket_Write :: "nat sysret \<Rightarrow> fault + WriteStatus" where
  "UDPSocket_Write result =
     (case result of
        Err EAGAIN \<Rightarrow> Inr kWouldBlock
      | Err ECONNREFUSED \<Rightarrow> Inr kConnRefused
      | Err OtherErrno \<Rightarrow> Inl SyscallFailed
      | Ret _ \<Rightarrow> Inr kOk)"

text \<open>\<open>Some bytes\<close> is a read of those bytes, \<open>None\<close> the result \<open>-1\<close>.\<close>

definition UDPSocket_Read :: "Bytes sysret \<Rightarrow> fault + Bytes option" where
  "UDPSocket_Read result =
     (case result of
        Err EAGAIN \<Rightarrow> Inr None
      | Err ECONNREFUSED \<Rightarrow> Inr None
      | Err OtherErrno \<Rightarrow> Inl SyscallFailed
      | Ret bytes \<Rightarrow> Inr (Some bytes))"

section \<open>State\<close>

record FairLossRetryPolicy =
  error_policy :: RetryPolicy
  empty_write_policy :: RetryPolicy

text \<open>
  \<open>fl_self\<close> stands for the identity of the channel object. Each event handler has its own
  copy of the policies.
\<close>

record FairLossChannel =
  fl_self :: PeerID
  fl_outgoing_packets :: "Packet list"
  fl_outgoing_message_ids :: "MessageID set"
  fl_send_budget :: SharedBudget
  fl_write_error_policy :: RetryPolicy
  fl_write_empty_policy :: RetryPolicy
  fl_read_error_policy :: RetryPolicy

definition FairLossChannel_init :: "PeerID \<Rightarrow> FairLossRetryPolicy \<Rightarrow> u64 \<Rightarrow> FairLossChannel" where
  "FairLossChannel_init self retry_policy max_budget =
     \<lparr>fl_self = self, fl_outgoing_packets = [], fl_outgoing_message_ids = {},
      fl_send_budget = SharedBudget_init max_budget max_budget,
      fl_write_error_policy = error_policy retry_policy,
      fl_write_empty_policy = empty_write_policy retry_policy,
      fl_read_error_policy = error_policy retry_policy\<rparr>"

section \<open>Sending\<close>

definition kOutgoingMessageCap :: nat where "kOutgoingMessageCap = 20000"

definition FairLoss_Send :: "Packet \<Rightarrow> FairLossChannel \<Rightarrow> FairLossChannel" where
  "FairLoss_Send packet chan =
     (if EstimateSize (fl_outgoing_message_ids chan) \<ge> kOutgoingMessageCap then chan
      else let (inserted, ids) = Set_Insert (pkt_id packet) (fl_outgoing_message_ids chan);
               chan = chan\<lparr>fl_outgoing_message_ids := ids\<rparr>
           in if inserted then chan\<lparr>fl_outgoing_packets := fl_outgoing_packets chan @ [packet]\<rparr>
              else chan)"

definition AddSendCredits :: "u64 \<Rightarrow> FairLossChannel \<Rightarrow> FairLossChannel" where
  "AddSendCredits credits chan = chan\<lparr>fl_send_budget := TopUp credits (fl_send_budget chan)\<rparr>"

definition FairLoss_Stop :: "FairLossChannel \<Rightarrow> FairLossChannel" where
  "FairLoss_Stop chan = chan\<lparr>fl_outgoing_packets := []\<rparr>"

section \<open>The write handler\<close>

definition Reschedule_error ::
    "rand_int \<Rightarrow> FairLossChannel \<Rightarrow> TimerObject TimerService \<Rightarrow> fault + (Rearming \<times> FairLossChannel \<times> TimerObject TimerService)" where
  "Reschedule_error RandInt chan ts =
     fbind (Retry (fl_self chan) WriteHandler RandInt (fl_write_error_policy chan) ts)
       (\<lambda>(r, policy, ts). Inr (r, chan\<lparr>fl_write_error_policy := policy\<rparr>, ts))"

definition Reschedule_empty ::
    "rand_int \<Rightarrow> FairLossChannel \<Rightarrow> TimerObject TimerService \<Rightarrow> fault + (Rearming \<times> FairLossChannel \<times> TimerObject TimerService)" where
  "Reschedule_empty RandInt chan ts =
     fbind (Retry (fl_self chan) WriteHandler RandInt (fl_write_empty_policy chan) ts)
       (\<lambda>(r, policy, ts). Inr (r, chan\<lparr>fl_write_empty_policy := policy\<rparr>, ts))"

text \<open>
  The loop over the batch. Its state is what the handler keeps on its stack (the budget, the
  rest of the batch, the status of the last write) with the set of ids, which it updates
  packet by packet, and the datagrams written so far. \<open>write i\<close> is the kernel's answer to the
  \<open>i\<close>-th call of \<open>write\<close>.
\<close>

record write_state =
  ws_budget :: u64
  ws_batch :: "Packet list"
  ws_status :: WriteStatus
  ws_ids :: "MessageID set"
  ws_sent :: "Bytes list"

text \<open>One iteration: the flag says whether the loop goes on.\<close>

definition write_packet :: "nat sysret \<Rightarrow> Packet \<Rightarrow> write_state \<Rightarrow> fault + (bool \<times> write_state)" where
  "write_packet result next w =
     (let message_size = 1;
          payload = (pkt_type next = kPayloadMessage)
      in if payload \<and> message_size > ws_budget w then
           Inr (False, w\<lparr>ws_batch := next # ws_batch w\<rparr>)
         else
           let budget = (if payload then ws_budget w - message_size else ws_budget w) in
           case marshal_fresh Packet_Size Packet_Marshal next of
             None \<Rightarrow> Inl AssertFailed
           | Some send_buffer \<Rightarrow>
             fbind (UDPSocket_Write result) (\<lambda>write_status.
               if write_status = kWouldBlock \<or> write_status = kConnRefused then
                 Inr (False, w\<lparr>ws_budget := (if payload then budget + message_size else budget),
                        ws_status := write_status, ws_batch := next # ws_batch w\<rparr>)
               else
                 Inr (True, w\<lparr>ws_budget := budget, ws_status := write_status,
                        ws_ids := Set_Delete (pkt_id next) (ws_ids w),
                        ws_sent := ws_sent w @ [send_buffer]\<rparr>)))"

fun write_loop :: "(nat \<Rightarrow> nat sysret) \<Rightarrow> nat \<Rightarrow> Packet list \<Rightarrow> write_state \<Rightarrow> fault + write_state" where
  "write_loop write i [] w = Inr (w\<lparr>ws_batch := []\<rparr>)"
| "write_loop write i (next # batch) w =
     fbind (write_packet (write i) next (w\<lparr>ws_batch := batch\<rparr>)) (\<lambda>(go_on, w).
       if go_on then write_loop write (Suc i) batch w else Inr w)"

text \<open>The end of \<open>Handle\<close>: the rest of the batch and of the budget go back, and the event is re-armed.\<close>

definition finish_write ::
    "rand_int \<Rightarrow> write_state \<Rightarrow> FairLossChannel \<Rightarrow> TimerObject TimerService \<Rightarrow>
     fault + (Rearming \<times> Bytes list \<times> FairLossChannel \<times> TimerObject TimerService)" where
  "finish_write RandInt w chan ts =
     (let chan = chan\<lparr>fl_outgoing_message_ids := ws_ids w,
            fl_outgoing_packets := fl_outgoing_packets chan @ ws_batch w,
            fl_send_budget := (if ws_budget w > 0 then TopUp (ws_budget w) (fl_send_budget chan)
                               else fl_send_budget chan)\<rparr>
      in if ws_status w = kConnRefused then
           fbind (Reschedule_error RandInt chan ts) (\<lambda>(r, chan, ts). Inr (r, ws_sent w, chan, ts))
         else
           Inr (RearmedNow, ws_sent w,
                chan\<lparr>fl_write_error_policy := Reset (fl_write_error_policy chan)\<rparr>, ts))"

text \<open>\<open>Handle\<close> returns what happens to its event and the datagrams it wrote.\<close>

definition WriteEventHandler_Handle ::
    "rand_int \<Rightarrow> (nat \<Rightarrow> nat sysret) \<Rightarrow> EventType \<Rightarrow> FairLossChannel \<Rightarrow> TimerObject TimerService \<Rightarrow>
     fault + (Rearming \<times> Bytes list \<times> FairLossChannel \<times> TimerObject TimerService)" where
  "WriteEventHandler_Handle RandInt write type chan ts =
     (if type = kError then
        fbind (Reschedule_error RandInt chan ts) (\<lambda>(r, chan, ts). Inr (r, [], chan, ts))
      else if type \<noteq> kWriteReady then Inl AssertFailed
      else
        let (budget, send_budget) = Credit_all (fl_send_budget chan);
            chan = chan\<lparr>fl_send_budget := send_budget\<rparr>
        in if budget = 0 then
             fbind (Reschedule_empty RandInt chan ts) (\<lambda>(r, chan, ts). Inr (r, [], chan, ts))
           else
             let batch = fl_outgoing_packets chan;
                 chan = chan\<lparr>fl_outgoing_packets := []\<rparr>
             in if batch = [] then
                  let chan = chan\<lparr>fl_send_budget := TopUp budget (fl_send_budget chan)\<rparr>
                  in fbind (Reschedule_empty RandInt chan ts) (\<lambda>(r, chan, ts). Inr (r, [], chan, ts))
                else
                  let chan = chan\<lparr>fl_write_empty_policy := Reset (fl_write_empty_policy chan)\<rparr> in
                  fbind (write_loop write 0 batch
                      \<lparr>ws_budget = budget, ws_batch = [], ws_status = kConnRefused,
                       ws_ids = fl_outgoing_message_ids chan, ws_sent = []\<rparr>)
                    (\<lambda>w. finish_write RandInt w chan ts))"

section \<open>The read handler\<close>

text \<open>
  The loop reads until the kernel has nothing more; an empty datagram is skipped. The kernel's
  answers are the list \<open>reads\<close>: a loop that the kernel never stops is an infinite supply of
  datagrams, which the finite list excludes. \<open>callback\<close> is applied to the state \<open>'s\<close> of
  the layers above, packet by packet.
\<close>

fun read_loop ::
    "(Packet \<Rightarrow> 's \<Rightarrow> fault + 's) \<Rightarrow> Bytes sysret list \<Rightarrow> 's \<Rightarrow> fault + 's" where
  "read_loop callback [] s = Inr s"
| "read_loop callback (result # reads) s =
     fbind (UDPSocket_Read result) (\<lambda>r. case r of
       None \<Rightarrow> Inr s
     | Some bytes \<Rightarrow>
         if bytes = [] then read_loop callback reads s
         else case Packet_Unmarshal bytes of
                None \<Rightarrow> Inl AssertFailed
              | Some packet \<Rightarrow> fbind (callback packet s) (read_loop callback reads))"

definition ReadEventHandler_Handle ::
    "rand_int \<Rightarrow> (Packet \<Rightarrow> 's \<Rightarrow> fault + 's) \<Rightarrow> Bytes sysret list \<Rightarrow> EventType \<Rightarrow>
     PeerID \<Rightarrow> RetryPolicy \<Rightarrow> 's \<Rightarrow> TimerObject TimerService \<Rightarrow>
     fault + (Rearming \<times> RetryPolicy \<times> 's \<times> TimerObject TimerService)" where
  "ReadEventHandler_Handle RandInt callback reads type self policy s ts =
     (if type = kError then
        fbind (Retry self ReadHandler RandInt policy ts) (\<lambda>(r, policy, ts). Inr (r, policy, s, ts))
      else if type \<noteq> kReadReady then Inl AssertFailed
      else fbind (read_loop callback reads s) (\<lambda>s. Inr (RearmedNow, Reset policy, s, ts)))"

section \<open>What the write loop does\<close>

definition payloads :: "Packet list \<Rightarrow> nat" where
  "payloads ps = length (filter (\<lambda>p. pkt_type p = kPayloadMessage) ps)"

lemma payloads_simps [simp]:
  "payloads [] = 0"
  "payloads (p # ps) = (if pkt_type p = kPayloadMessage then 1 else 0) + payloads ps"
  by (simp_all add: payloads_def)

lemma packet_bytes: "marshal_fresh Packet_Size Packet_Marshal p = Some (Packet_image p)"
  by (simp add: packet.fresh_image)

text \<open>One iteration writes the packet, or keeps it at the front of the batch and stops.\<close>

lemma write_packet_cases:
  assumes "write_packet result next w = Inr (go_on, w')"
  shows "go_on \<and> (pkt_type next = kPayloadMessage \<longrightarrow> 0 < unat (ws_budget w)) \<and> ws_batch w' = ws_batch w \<and>
      ws_ids w' = ws_ids w - {pkt_id next} \<and> ws_sent w' = ws_sent w @ [Packet_image next] \<and>
      unat (ws_budget w') = unat (ws_budget w) - payloads [next] \<and> ws_status w' = kOk
    \<or> \<not> go_on \<and> ws_batch w' = next # ws_batch w \<and> ws_ids w' = ws_ids w \<and> ws_sent w' = ws_sent w \<and>
      ws_budget w' = ws_budget w"
proof (cases "pkt_type next = kPayloadMessage \<and> ws_budget w = 0")
  case True
  then show ?thesis using assms by (auto simp: write_packet_def)
next
  case False
  then have pos: "0 < unat (ws_budget w)" if "pkt_type next = kPayloadMessage"
    using that by (simp add: unat_gt_0)
  have minus: "unat (ws_budget w - 1) = unat (ws_budget w) - 1" if "pkt_type next = kPayloadMessage"
    using pos [OF that] by (simp add: unat_minus_one unat_gt_0)
  show ?thesis
  proof (cases "UDPSocket_Write result")
    case (Inl e)
    then show ?thesis using assms False by (simp add: write_packet_def packet_bytes Let_def)
  next
    case (Inr status)
    then show ?thesis
      using assms False pos minus
      by (cases status) (auto simp: write_packet_def packet_bytes Let_def Set_Delete_def)
  qed
qed

lemma write_loop_effect:
  assumes "write_loop write i batch w = Inr w'"
  shows "\<exists>n \<le> length batch. ws_batch w' = drop n batch \<and> ws_sent w' = ws_sent w @ map Packet_image (take n batch) \<and>
    ws_ids w' = ws_ids w - pkt_id ` set (take n batch) \<and> payloads (take n batch) \<le> unat (ws_budget w) \<and>
    unat (ws_budget w') = unat (ws_budget w) - payloads (take n batch)"
  using assms
proof (induction batch arbitrary: i w)
  case Nil
  then show ?case by auto
next
  case (Cons p batch)
  then obtain go_on w1 where one: "write_packet (write i) p (w\<lparr>ws_batch := batch\<rparr>) = Inr (go_on, w1)"
    and rest: "(if go_on then write_loop write (Suc i) batch w1 else Inr w1) = Inr w'"
    by (auto simp: fbind_eq_Inr)
  show ?case
  proof (cases go_on)
    case False
    then show ?thesis using write_packet_cases [OF one] rest by (intro exI [of _ 0]) auto
  next
    case True
    then obtain n where n: "n \<le> length batch" "ws_batch w' = drop n batch"
      "ws_sent w' = ws_sent w1 @ map Packet_image (take n batch)"
      "ws_ids w' = ws_ids w1 - pkt_id ` set (take n batch)" "payloads (take n batch) \<le> unat (ws_budget w1)"
      "unat (ws_budget w') = unat (ws_budget w1) - payloads (take n batch)"
      using Cons.IH [of "Suc i" w1] rest by (auto simp del: One_nat_def)
    have first: "pkt_type p = kPayloadMessage \<longrightarrow> 0 < unat (ws_budget w)" "ws_ids w1 = ws_ids w - {pkt_id p}"
      "ws_sent w1 = ws_sent w @ [Packet_image p]" "unat (ws_budget w1) = unat (ws_budget w) - payloads [p]"
      using write_packet_cases [OF one] True by simp_all
    have "ws_ids w' = ws_ids w - pkt_id ` set (take (Suc n) (p # batch))" using n(4) first(2) by auto
    moreover have "payloads (take (Suc n) (p # batch)) \<le> unat (ws_budget w)" using n(5) first(1,4) by auto
    ultimately show ?thesis
      using n(1-3,6) first(3,4) by (intro exI [of _ "Suc n"]) simp
  qed
qed

section \<open>Interleavings\<close>

text \<open>
  The write handler runs on the event loop while other threads send packets and add credits.
  The steps of a run are the operations on the shared structures: a sender inserts the id and,
  as a second step, pushes the packet; the handler takes the budget and the batch, writes the
  packets one by one and gives back the rest. \<open>fc_pushing\<close> are the packets of senders between
  their two steps, \<open>fc_writer\<close> is the handler inside its loop with the flag of the last
  iteration.
\<close>

record fl_conf =
  fc_out :: "Packet list"
  fc_ids :: "MessageID set"
  fc_budget :: SharedBudget
  fc_writer :: "(bool \<times> write_state) option"
  fc_pushing :: "Packet list"

definition conf_of :: "FairLossChannel \<Rightarrow> fl_conf" where
  "conf_of chan = \<lparr>fc_out = fl_outgoing_packets chan, fc_ids = fl_outgoing_message_ids chan,
     fc_budget = fl_send_budget chan, fc_writer = None, fc_pushing = []\<rparr>"

inductive fl_step :: "fl_conf \<Rightarrow> fl_conf \<Rightarrow> bool" where
  send_insert: "Set_Insert (pkt_id p) (fc_ids c) = (inserted, ids) \<Longrightarrow>
    fl_step c (c\<lparr>fc_ids := ids, fc_pushing := (if inserted then fc_pushing c @ [p] else fc_pushing c)\<rparr>)"
| send_push: "fc_pushing c = xs @ p # ys \<Longrightarrow>
    fl_step c (c\<lparr>fc_pushing := xs @ ys, fc_out := fc_out c @ [p]\<rparr>)"
| credits: "fl_step c (c\<lparr>fc_budget := TopUp n (fc_budget c)\<rparr>)"
| take_batch: "fc_writer c = None \<Longrightarrow> Credit_all (fc_budget c) = (budget, b) \<Longrightarrow>
    fl_step c (c\<lparr>fc_budget := b, fc_out := [], fc_writer := Some (True,
      \<lparr>ws_budget = budget, ws_batch = fc_out c, ws_status = kConnRefused, ws_ids = fc_ids c, ws_sent = []\<rparr>)\<rparr>)"
| write_one: "fc_writer c = Some (True, w) \<Longrightarrow> ws_batch w = p # batch \<Longrightarrow>
    write_packet result p (w\<lparr>ws_batch := batch, ws_ids := fc_ids c\<rparr>) = Inr (go_on, w') \<Longrightarrow>
    fl_step c (c\<lparr>fc_ids := ws_ids w', fc_writer := Some (go_on, w')\<rparr>)"
| give_back: "fc_writer c = Some (go_on, w) \<Longrightarrow> \<not> go_on \<or> ws_batch w = [] \<Longrightarrow>
    fl_step c (c\<lparr>fc_writer := None, fc_out := fc_out c @ ws_batch w,
      fc_budget := (if ws_budget w > 0 then TopUp (ws_budget w) (fc_budget c) else fc_budget c)\<rparr>)"

inductive fl_reach :: "fl_conf \<Rightarrow> fl_conf \<Rightarrow> bool" for c where
  start: "fl_reach c c"
| step: "fl_reach c d \<Longrightarrow> fl_step d e \<Longrightarrow> fl_reach c e"

text \<open>The packets that are somewhere between \<open>Send\<close> and the socket.\<close>

definition on_the_way :: "fl_conf \<Rightarrow> Packet list" where
  "on_the_way c = fc_out c @ (case fc_writer c of None \<Rightarrow> [] | Some (_, w) \<Rightarrow> ws_batch w) @ fc_pushing c"

definition fl_inv :: "fl_conf \<Rightarrow> bool" where
  "fl_inv c \<longleftrightarrow> distinct (map pkt_id (on_the_way c)) \<and> fc_ids c = pkt_id ` set (on_the_way c) \<and>
     budget_ok (fc_budget c)"

lemma fl_inv_step:
  assumes "fl_step c d" and "fl_inv c"
  shows "fl_inv d"
  using assms(1)
proof (cases rule: fl_step.cases)
  case (send_insert p inserted ids)
  then show ?thesis
    using assms(2) by (cases "pkt_id p \<in> fc_ids c"; cases "fc_writer c") (auto simp: fl_inv_def on_the_way_def Set_Insert_def)
next
  case (send_push xs p ys)
  then show ?thesis using assms(2) by (cases "fc_writer c") (auto simp: fl_inv_def on_the_way_def)
next
  case (credits n)
  then show ?thesis using assms(2) by (simp add: fl_inv_def on_the_way_def inv_intro)
next
  case (take_batch budget b)
  then show ?thesis using assms(2) by (auto simp: fl_inv_def on_the_way_def Credit_all_eq budget_ok_def)
next
  case (write_one w p batch result go_on w')
  have way: "on_the_way c = fc_out c @ (p # batch) @ fc_pushing c" using write_one(2,3) by (simp add: on_the_way_def)
  show ?thesis
  proof (cases go_on)
    case True
    then have "ws_batch w' = batch" "ws_ids w' = fc_ids c - {pkt_id p}"
      using write_packet_cases [OF write_one(4)] by simp_all
    then have "on_the_way d = fc_out c @ batch @ fc_pushing c" "fc_ids d = fc_ids c - {pkt_id p}"
      "fc_budget d = fc_budget c" using write_one(1) by (simp_all add: on_the_way_def)
    moreover have "pkt_id p \<notin> pkt_id ` (set (fc_out c) \<union> set batch \<union> set (fc_pushing c))"
      using assms(2) unfolding fl_inv_def way by auto
    ultimately show ?thesis using assms(2) by (simp add: fl_inv_def way image_Un)
  next
    case False
    then have "ws_batch w' = p # batch" "ws_ids w' = fc_ids c"
      using write_packet_cases [OF write_one(4)] by simp_all
    then have "on_the_way d = on_the_way c" "fc_ids d = fc_ids c" "fc_budget d = fc_budget c"
      using write_one(1) by (simp_all add: way) (simp add: on_the_way_def)
    then show ?thesis using assms(2) by (simp add: fl_inv_def)
  qed
next
  case (give_back go_on w)
  then show ?thesis using assms(2) by (auto simp: fl_inv_def on_the_way_def inv_intro)
qed

lemma fl_reach_inv: "fl_reach c d \<Longrightarrow> fl_inv c \<Longrightarrow> fl_inv d"
  by (induction rule: fl_reach.induct) (auto intro: fl_inv_step)

lemma fl_reach_trans: "fl_reach d e \<Longrightarrow> fl_reach c d \<Longrightarrow> fl_reach c e"
  by (induction rule: fl_reach.induct) (auto intro: fl_reach.step)

section \<open>The handler as a run\<close>

text \<open>The loop is a sequence of single writes.\<close>

lemma write_loop_run:
  assumes "write_loop write i batch w = Inr w'" and "fc_writer c = Some (True, w\<lparr>ws_batch := batch\<rparr>)"
    and "fc_ids c = ws_ids w"
  shows "\<exists>go_on. fl_reach c (c\<lparr>fc_ids := ws_ids w', fc_writer := Some (go_on, w')\<rparr>) \<and> (\<not> go_on \<or> ws_batch w' = [])"
  using assms
proof (induction batch arbitrary: i w c)
  case Nil
  have w': "w' = w\<lparr>ws_batch := []\<rparr>" using Nil.prems(1) by simp
  have "c\<lparr>fc_ids := ws_ids w, fc_writer := Some (True, w')\<rparr> = c"
    using Nil.prems(2,3) by (intro fl_conf.equality) (simp_all add: w')
  then show ?case using fl_reach.start [of c] by (intro exI [of _ True]) (simp add: w')
next
  case (Cons p batch)
  then obtain go_on w1 where one: "write_packet (write i) p (w\<lparr>ws_batch := batch\<rparr>) = Inr (go_on, w1)"
    and rest: "(if go_on then write_loop write (Suc i) batch w1 else Inr w1) = Inr w'"
    by (auto simp: fbind_eq_Inr)
  let ?d = "c\<lparr>fc_ids := ws_ids w1, fc_writer := Some (go_on, w1)\<rparr>"
  have "w\<lparr>ws_batch := batch, ws_ids := fc_ids c\<rparr> = w\<lparr>ws_batch := batch\<rparr>"
    using Cons.prems(3) by (intro write_state.equality) simp_all
  then have first: "fl_step c ?d"
    using fl_step.write_one [of c "w\<lparr>ws_batch := p # batch\<rparr>" p batch "write i" go_on w1] Cons.prems(2) one by simp
  show ?case
  proof (cases go_on)
    case False
    then show ?thesis using rest fl_reach.step [OF fl_reach.start first] by (intro exI [of _ False]) simp
  next
    case True
    have same: "w1\<lparr>ws_batch := batch\<rparr> = w1"
      using write_packet_cases [OF one] True by (intro write_state.equality) simp_all
    obtain stopped where "fl_reach ?d (?d\<lparr>fc_ids := ws_ids w', fc_writer := Some (stopped, w')\<rparr>)"
      and "\<not> stopped \<or> ws_batch w' = []"
      using Cons.IH [of "Suc i" w1 ?d] rest True same by auto
    moreover have "?d\<lparr>fc_ids := ws_ids w', fc_writer := Some (stopped, w')\<rparr> = c\<lparr>fc_ids := ws_ids w', fc_writer := Some (stopped, w')\<rparr>"
      by (intro fl_conf.equality) simp_all
    ultimately show ?thesis
      using fl_reach_trans [OF _ fl_reach.step [OF fl_reach.start first]] by auto
  qed
qed

lemma Retry_channel:
  "Reschedule_error R chan ts = Inr (r, chan', ts') \<Longrightarrow> \<exists>p. chan' = chan\<lparr>fl_write_error_policy := p\<rparr>"
  "Reschedule_empty R chan ts = Inr (r, chan', ts') \<Longrightarrow> \<exists>p. chan' = chan\<lparr>fl_write_empty_policy := p\<rparr>"
  by (auto simp: Reschedule_error_def Reschedule_empty_def fbind_eq_Inr)

lemma finish_write_effect:
  assumes "finish_write R w chan ts = Inr (r, sent, chan', ts')"
  shows "sent = ws_sent w" and "fl_outgoing_packets chan' = fl_outgoing_packets chan @ ws_batch w"
    and "fl_outgoing_message_ids chan' = ws_ids w"
    and "fl_send_budget chan' = (if ws_budget w > 0 then TopUp (ws_budget w) (fl_send_budget chan) else fl_send_budget chan)"
  using assms by (auto simp: finish_write_def fbind_eq_Inr Let_def split: if_splits dest!: Retry_channel)

text \<open>The part of \<open>Handle\<close> after the batch has been taken.\<close>

definition write_start :: "FairLossChannel \<Rightarrow> write_state" where
  "write_start chan = \<lparr>ws_budget = sb_counter (fl_send_budget chan), ws_batch = [], ws_status = kConnRefused,
     ws_ids = fl_outgoing_message_ids chan, ws_sent = []\<rparr>"

lemma Handle_batch:
  assumes "WriteEventHandler_Handle R write kWriteReady chan ts = Inr (r, sent, chan', ts')"
    and "sb_counter (fl_send_budget chan) \<noteq> 0" and "fl_outgoing_packets chan \<noteq> []"
  shows "\<exists>w. write_loop write 0 (fl_outgoing_packets chan) (write_start chan) = Inr w \<and> sent = ws_sent w \<and>
      fl_outgoing_packets chan' = ws_batch w \<and> fl_outgoing_message_ids chan' = ws_ids w \<and>
      fl_send_budget chan' = (let b = (fl_send_budget chan)\<lparr>sb_counter := 0\<rparr>
        in if ws_budget w > 0 then TopUp (ws_budget w) b else b)"
proof -
  let ?chan = "chan\<lparr>fl_send_budget := (fl_send_budget chan)\<lparr>sb_counter := 0\<rparr>, fl_outgoing_packets := [],
    fl_write_empty_policy := Reset (fl_write_empty_policy chan)\<rparr>"
  obtain w where w: "write_loop write 0 (fl_outgoing_packets chan) (write_start chan) = Inr w"
    and fin: "finish_write R w ?chan ts = Inr (r, sent, chan', ts')"
    using assms by (auto simp: WriteEventHandler_Handle_def Credit_all_eq fbind_eq_Inr write_start_def)
  show ?thesis using w finish_write_effect [OF fin] by (simp add: Let_def)
qed

lemma Handle_empty:
  assumes "WriteEventHandler_Handle R write kWriteReady chan ts = Inr (r, sent, chan', ts')" and "budget_ok (fl_send_budget chan)"
    and "sb_counter (fl_send_budget chan) = 0 \<or> fl_outgoing_packets chan = []"
  shows "sent = [] \<and> fl_outgoing_packets chan' = fl_outgoing_packets chan \<and>
    fl_outgoing_message_ids chan' = fl_outgoing_message_ids chan \<and> fl_send_budget chan' = fl_send_budget chan"
proof -
  have "TopUp (sb_counter b) (b\<lparr>sb_counter := 0\<rparr>) = b" if "budget_ok b" for b
    using TopUp_Credit [OF that, of "- 1"] by (simp add: Credit_all_eq [unfolded Credit_all_def])
  then show ?thesis
    using assms
    by (auto simp: WriteEventHandler_Handle_def Credit_all_eq fbind_eq_Inr Let_def split: if_splits dest!: Retry_channel)
qed

section \<open>Guarantees\<close>

definition fl_demo_packet :: "MessageID \<Rightarrow> Packet" where
  "fl_demo_packet i = \<lparr>pkt_type = kPayloadMessage, pkt_id = i, pkt_source = 1, pkt_message = [65]\<rparr>"

definition fl_demo :: FairLossChannel where
  "fl_demo = FairLossChannel_init 2
     \<lparr>error_policy = RetryPolicy_init 100 (3, 2) 100000 False,
      empty_write_policy = RetryPolicy_init 100 (3, 2) 100000 False\<rparr> 1"

lemma fl_inv_demo: "fl_inv (conf_of fl_demo)"
  by (simp add: fl_inv_def conf_of_def fl_demo_def FairLossChannel_init_def on_the_way_def budget_ok_def SharedBudget_init_def)

text \<open>
  C15. However sends, credits and the iterations of the write handler interleave, a packet id
  is on its way to the socket at most once, the set of outgoing ids is exactly the set of ids
  on the way, and the budget stays within its maximum.
\<close>

theorem fairloss_ids_exact:
  assumes "fl_reach c d" and "fl_inv c"
  shows "distinct (map pkt_id (on_the_way d)) \<and> fc_ids d = pkt_id ` set (on_the_way d) \<and> budget_ok (fc_budget d)"
  using fl_reach_inv [OF assms] by (simp add: fl_inv_def)

theorem fairloss_ids_exact_witness:
  "let d = (conf_of fl_demo)\<lparr>fc_ids := {7}, fc_pushing := [fl_demo_packet 7]\<rparr>
   in distinct (map pkt_id (on_the_way d)) \<and> fc_ids d = pkt_id ` set (on_the_way d) \<and> budget_ok (fc_budget d)"
proof -
  have "fl_step (conf_of fl_demo) ((conf_of fl_demo)\<lparr>fc_ids := {7}, fc_pushing := [fl_demo_packet 7]\<rparr>)"
    using fl_step.send_insert [of "fl_demo_packet 7" "conf_of fl_demo" True "{7}"]
    by (simp add: Set_Insert_def conf_of_def fl_demo_def FairLossChannel_init_def fl_demo_packet_def)
  then show ?thesis
    using fairloss_ids_exact [OF fl_reach.step [OF fl_reach.start] fl_inv_demo] by (simp only: Let_def)
qed

text \<open>A run of the write handler without interference writes a prefix of the queue, as the
  bytes of the packets in order, keeps the rest in order, forgets exactly the ids of what it
  wrote and spends one credit for every payload packet written and none for acknowledgements.
\<close>

lemma write_handler_effect:
  assumes "WriteEventHandler_Handle RandInt write kWriteReady chan ts = Inr (r, sent, chan', ts')"
    and "budget_ok (fl_send_budget chan)"
  shows "\<exists>n \<le> length (fl_outgoing_packets chan).
    sent = map Packet_image (take n (fl_outgoing_packets chan)) \<and>
    fl_outgoing_packets chan' = drop n (fl_outgoing_packets chan) \<and>
    fl_outgoing_message_ids chan' = fl_outgoing_message_ids chan - pkt_id ` set (take n (fl_outgoing_packets chan)) \<and>
    unat (sb_counter (fl_send_budget chan')) =
      unat (sb_counter (fl_send_budget chan)) - payloads (take n (fl_outgoing_packets chan)) \<and>
    payloads (take n (fl_outgoing_packets chan)) \<le> unat (sb_counter (fl_send_budget chan))"
proof (cases "sb_counter (fl_send_budget chan) = 0 \<or> fl_outgoing_packets chan = []")
  case True
  then show ?thesis using Handle_empty [OF assms True] by (intro exI [of _ 0]) simp
next
  case False
  let ?out = "fl_outgoing_packets chan" and ?b = "fl_send_budget chan"
  obtain w where w: "write_loop write 0 ?out (write_start chan) = Inr w" "sent = ws_sent w"
      "fl_outgoing_packets chan' = ws_batch w" "fl_outgoing_message_ids chan' = ws_ids w"
      "fl_send_budget chan' = (if ws_budget w > 0 then TopUp (ws_budget w) (?b\<lparr>sb_counter := 0\<rparr>) else ?b\<lparr>sb_counter := 0\<rparr>)"
    using Handle_batch [OF assms(1)] False by (auto simp: Let_def)
  obtain n where n: "n \<le> length ?out" "ws_batch w = drop n ?out" "ws_sent w = map Packet_image (take n ?out)"
      "ws_ids w = fl_outgoing_message_ids chan - pkt_id ` set (take n ?out)"
      "payloads (take n ?out) \<le> unat (sb_counter ?b)" "unat (ws_budget w) = unat (sb_counter ?b) - payloads (take n ?out)"
    using write_loop_effect [OF w(1)] by (auto simp: write_start_def)
  have "unat (sb_counter ?b) \<le> unat (sb_max_budget ?b)" using assms(2) by (simp add: budget_ok_def word_le_nat_alt)
  then have "unat (sb_counter (fl_send_budget chan')) = unat (ws_budget w)"
    using n(6) by (auto simp: w(5) TopUp_def unat_min word_gt_0)
  then show ?thesis using w(2-4) n by (intro exI [of _ n]) simp
qed

lemma write_handler_effect_witness:
  "\<exists>n \<le> 1. [Packet_image (fl_demo_packet 7)] = map Packet_image (take n [fl_demo_packet 7])"
proof -
  let ?chan = "FairLoss_Send (fl_demo_packet 7) fl_demo"
  have "\<exists>r chan' ts'. WriteEventHandler_Handle (\<lambda>a b. b) (\<lambda>_. Ret 9) kWriteReady ?chan (TimerService_init 100) =
      Inr (r, [Packet_image (fl_demo_packet 7)], chan', ts')" "budget_ok (fl_send_budget ?chan)"
    "fl_outgoing_packets ?chan = [fl_demo_packet 7]"
    by (simp_all add: WriteEventHandler_Handle_def FairLoss_Send_def fl_demo_def FairLossChannel_init_def
        SharedBudget_init_def Credit_all_eq kOutgoingMessageCap_def EstimateSize_def Set_Insert_def budget_ok_def
        write_packet_def packet_bytes UDPSocket_Write_def finish_write_def fl_demo_packet_def Let_def)
  then show ?thesis using write_handler_effect [where chan = ?chan] by fastforce
qed

text \<open>The atomic operations are runs of the interleaving model.\<close>

lemma Send_run: "fl_reach (conf_of chan) (conf_of (FairLoss_Send packet chan))"
proof (cases "EstimateSize (fl_outgoing_message_ids chan) \<ge> kOutgoingMessageCap \<or> pkt_id packet \<in> fl_outgoing_message_ids chan")
  case True
  then have "conf_of (FairLoss_Send packet chan) = conf_of chan"
    by (auto simp: FairLoss_Send_def Set_Insert_def conf_of_def insert_absorb)
  then show ?thesis by (simp add: fl_reach.start)
next
  case False
  let ?c = "conf_of chan" and ?ids = "insert (pkt_id packet) (fl_outgoing_message_ids chan)"
  have "fl_step ?c (?c\<lparr>fc_ids := ?ids, fc_pushing := [packet]\<rparr>)"
    using fl_step.send_insert [of packet ?c True ?ids] False by (simp add: conf_of_def Set_Insert_def)
  moreover have "fl_step (?c\<lparr>fc_ids := ?ids, fc_pushing := [packet]\<rparr>) (conf_of (FairLoss_Send packet chan))"
    using fl_step.send_push [of "?c\<lparr>fc_ids := ?ids, fc_pushing := [packet]\<rparr>" "[]" packet "[]"] False
    by (simp add: conf_of_def FairLoss_Send_def Set_Insert_def)
  ultimately show ?thesis by (meson fl_reach.intros)
qed

text \<open>
  \<open>Handle\<close> on a write event is one of the runs of the interleaving model, so whatever
  holds of all interleavings holds of the operations of the channel.
\<close>

lemma write_handler_refines_steps:
  assumes "WriteEventHandler_Handle RandInt write kWriteReady chan ts = Inr (r, sent, chan', ts')"
    and "budget_ok (fl_send_budget chan)"
  shows "fl_reach (conf_of chan) (conf_of chan')"
proof (cases "sb_counter (fl_send_budget chan) = 0 \<or> fl_outgoing_packets chan = []")
  case True
  then show ?thesis using Handle_empty [OF assms True] by (simp add: conf_of_def fl_reach.start)
next
  case False
  let ?out = "fl_outgoing_packets chan" and ?b = "(fl_send_budget chan)\<lparr>sb_counter := 0\<rparr>"
  obtain w where w: "write_loop write 0 ?out (write_start chan) = Inr w"
      "fl_outgoing_packets chan' = ws_batch w" "fl_outgoing_message_ids chan' = ws_ids w"
      "fl_send_budget chan' = (if ws_budget w > 0 then TopUp (ws_budget w) ?b else ?b)"
    using Handle_batch [OF assms(1)] False by (auto simp: Let_def)
  let ?c = "(conf_of chan)\<lparr>fc_budget := ?b, fc_out := [], fc_writer := Some (True, (write_start chan)\<lparr>ws_batch := ?out\<rparr>)\<rparr>"
  have "fl_step (conf_of chan) ?c"
    using fl_step.take_batch [of "conf_of chan" "sb_counter (fl_send_budget chan)" ?b]
    by (simp add: conf_of_def Credit_all_eq write_start_def)
  moreover obtain go_on where "fl_reach ?c (?c\<lparr>fc_ids := ws_ids w, fc_writer := Some (go_on, w)\<rparr>)"
    and "\<not> go_on \<or> ws_batch w = []"
    using write_loop_run [OF w(1), of ?c] by (auto simp: conf_of_def write_start_def)
  moreover have "fl_step (?c\<lparr>fc_ids := ws_ids w, fc_writer := Some (go_on, w)\<rparr>) (conf_of chan')"
  proof -
    let ?d = "?c\<lparr>fc_ids := ws_ids w, fc_writer := Some (go_on, w)\<rparr>"
    have "conf_of chan' = ?d\<lparr>fc_writer := None, fc_out := fc_out ?d @ ws_batch w,
        fc_budget := (if ws_budget w > 0 then TopUp (ws_budget w) (fc_budget ?d) else fc_budget ?d)\<rparr>"
      by (intro fl_conf.equality) (simp_all add: conf_of_def w(2-4))
    then show ?thesis
      using fl_step.give_back [of ?d go_on w] \<open>\<not> go_on \<or> ws_batch w = []\<close> by simp
  qed
  ultimately show ?thesis by (meson fl_reach.intros fl_reach_trans)
qed

lemma write_handler_refines_steps_witness:
  "fl_reach (conf_of (FairLoss_Send (fl_demo_packet 7) fl_demo))
     ((conf_of fl_demo)\<lparr>fc_budget := \<lparr>sb_counter = 0, sb_max_budget = 1\<rparr>\<rparr>)"
proof -
  let ?chan = "FairLoss_Send (fl_demo_packet 7) fl_demo"
  have "\<exists>r sent chan' ts'. WriteEventHandler_Handle (\<lambda>a b. b) (\<lambda>_. Ret 9) kWriteReady ?chan (TimerService_init 100) =
      Inr (r, sent, chan', ts') \<and> conf_of chan' = (conf_of fl_demo)\<lparr>fc_budget := \<lparr>sb_counter = 0, sb_max_budget = 1\<rparr>\<rparr>"
    and "budget_ok (fl_send_budget ?chan)"
    by (simp_all add: WriteEventHandler_Handle_def FairLoss_Send_def fl_demo_def FairLossChannel_init_def
        SharedBudget_init_def Credit_all_eq kOutgoingMessageCap_def EstimateSize_def Set_Insert_def Set_Delete_def budget_ok_def
        write_packet_def packet_bytes UDPSocket_Write_def finish_write_def fl_demo_packet_def Let_def conf_of_def)
  then show ?thesis using write_handler_refines_steps [where chan = ?chan] by metis
qed

text \<open>Write events that find nothing to send, one after the other, with what the last one did to the event.\<close>

fun idle_writes ::
    "rand_int \<Rightarrow> nat \<Rightarrow> FairLossChannel \<Rightarrow> TimerObject TimerService \<Rightarrow>
     fault + (Rearming list \<times> FairLossChannel \<times> TimerObject TimerService)" where
  "idle_writes RandInt 0 chan ts = Inr ([], chan, ts)"
| "idle_writes RandInt (Suc n) chan ts =
     fbind (WriteEventHandler_Handle RandInt (\<lambda>_. Err EAGAIN) kWriteReady chan ts) (\<lambda>(r, _, chan, ts).
     fbind (idle_writes RandInt n chan ts) (\<lambda>(rs, chan, ts). Inr (r # rs, chan, ts)))"

lemma idle_write:
  assumes "fl_outgoing_packets chan = []" and "budget_ok (fl_send_budget chan)"
  shows "WriteEventHandler_Handle R write kWriteReady chan ts =
    fbind (Reschedule_empty R chan ts) (\<lambda>(r, chan, ts). Inr (r, [], chan, ts))"
proof -
  have "TopUp (sb_counter b) (b\<lparr>sb_counter := 0\<rparr>) = b" if "budget_ok b" for b
    using TopUp_Credit [OF that, of "- 1"] by (simp add: Credit_all_eq [unfolded Credit_all_def])
  from this [OF assms(2)] have some: "chan\<lparr>fl_outgoing_packets := [], fl_send_budget :=
      TopUp (sb_counter (fl_send_budget chan)) ((fl_send_budget chan)\<lparr>sb_counter := 0\<rparr>)\<rparr> = chan"
    using assms(1) by (intro FairLossChannel.equality) simp_all
  show ?thesis
  proof (cases "sb_counter (fl_send_budget chan) = 0")
    case True
    then have "(fl_send_budget chan)\<lparr>sb_counter := 0\<rparr> = fl_send_budget chan"
      by (intro SharedBudget.equality) simp_all
    then have zero: "chan\<lparr>fl_send_budget := (fl_send_budget chan)\<lparr>sb_counter := 0\<rparr>\<rparr> = chan" by simp
    show ?thesis using True by (simp add: WriteEventHandler_Handle_def Credit_all_eq Let_def zero)
  next
    case False
    then show ?thesis using some assms(1) by (simp add: WriteEventHandler_Handle_def Credit_all_eq Let_def)
  qed
qed

lemma Reschedule_empty_eq:
  assumes "IsValid (fl_write_empty_policy chan)" and "ts_tick_duration ts \<noteq> 0"
    and "unat (GetTimeout (fl_write_empty_policy chan) div ts_tick_duration ts) < kMaxTicksDuration"
  shows "\<exists>ts'. Reschedule_empty R chan ts = Inr (RearmedAfter (GetTimeout (fl_write_empty_policy chan)),
      chan\<lparr>fl_write_empty_policy := Next R (fl_write_empty_policy chan)\<rparr>, ts') \<and> ts_tick_duration ts' = ts_tick_duration ts"
  using assms
  by (simp add: Reschedule_empty_def Retry_def ScheduleAfter_def AddTimer_def duration_ticks_def DoAddTimer_def Let_def)

lemma idle_writes_run_out:
  assumes "fl_outgoing_packets chan = []" and "budget_ok (fl_send_budget chan)" and "ts_tick_duration ts \<noteq> 0"
    and "\<forall>t\<in>set (timeouts R n (fl_write_empty_policy chan)). unat (t div ts_tick_duration ts) < kMaxTicksDuration"
    and "length (timeouts R n (fl_write_empty_policy chan)) < n"
  shows "\<exists>chan' ts'. idle_writes R (Suc (length (timeouts R n (fl_write_empty_policy chan)))) chan ts =
    Inr (map RearmedAfter (timeouts R n (fl_write_empty_policy chan)) @ [NotRearmed], chan', ts')"
  using assms
proof (induction n arbitrary: chan ts)
  case 0
  then show ?case by simp
next
  case (Suc n)
  let ?p = "fl_write_empty_policy chan"
  show ?case
  proof (cases "IsValid ?p")
    case False
    then have "Reschedule_empty R chan ts = Inr (NotRearmed, chan, ts)" by (simp add: Reschedule_empty_def Retry_def)
    then show ?thesis using False Suc.prems by (simp add: idle_write)
  next
    case True
    let ?chan = "chan\<lparr>fl_write_empty_policy := Next R ?p\<rparr>"
    obtain ts' where one: "Reschedule_empty R chan ts = Inr (RearmedAfter (GetTimeout ?p), ?chan, ts')"
      and tick: "ts_tick_duration ts' = ts_tick_duration ts"
      using Reschedule_empty_eq [OF True Suc.prems(3), of R] Suc.prems(4) True by auto
    then show ?thesis
      using Suc.IH [of ?chan ts'] Suc.prems True by (auto simp: idle_write)
  qed
qed

text \<open>
  A channel that has nothing to send for long enough stops for good: with the policy of
  the applications (100 ms, factor 1.5, at most 100 s) and ticks of 100 ms, the handler
  re-arms its event after the first eighteen write events in a row that find the queue empty,
  and the nineteenth is not re-armed. Nothing but the handler
  itself re-arms it, so packets sent later stay in the queue.
\<close>

theorem idle_channel_stops:
  assumes "fl_outgoing_packets chan = []" and "budget_ok (fl_send_budget chan)" and "ts_tick_duration ts = 100"
    and "fl_write_empty_policy chan = RetryPolicy_init 100 (3, 2) 100000 False"
  shows "\<exists>rs chan' ts'. idle_writes RandInt 19 chan ts = Inr (rs @ [NotRearmed], chan', ts') \<and> length rs = 18"
proof -
  let ?p = "RetryPolicy_init 100 (3, 2) 100000 False"
  have t: "timeouts RandInt 20 ?p = [100, 150, 225, 337, 505, 757, 1135, 1702, 2553, 3829, 5743, 8614, 12921, 19381, 29071, 43606, 65409, 98113]"
  proof -
    let ?q = "\<lambda>t. ?p\<lparr>rp_timeout_ms := t\<rparr>"
    have step: "timeouts RandInt (Suc n) (?q t) = (if t \<le> 100000 then t # timeouts RandInt n (?q (of_nat (unat t * 3 div 2))) else [])" for n t
      by (simp add: RetryPolicy_init_def IsValid_def GetTimeout_def Next_def)
    have "timeouts RandInt (Suc (Suc (Suc (Suc (Suc (Suc (Suc (Suc (Suc (Suc (Suc (Suc (Suc (Suc (Suc (Suc (Suc (Suc (Suc (Suc (0))))))))))))))))))))) (?q 100) =
        [100, 150, 225, 337, 505, 757, 1135, 1702, 2553, 3829, 5743, 8614, 12921, 19381, 29071, 43606, 65409, 98113]"
      by (simp add: step del: timeouts.simps(2))
    moreover have "?q 100 = ?p" by (simp add: RetryPolicy_init_def)
    moreover have "Suc (Suc (Suc (Suc (Suc (Suc (Suc (Suc (Suc (Suc (Suc (Suc (Suc (Suc (Suc (Suc (Suc (Suc (Suc (Suc (0)))))))))))))))))))) = (20 :: nat)" by simp
    ultimately show ?thesis by (simp only:)
  qed
  have fits: "\<forall>u\<in>set (timeouts RandInt 20 ?p). unat (u div ts_tick_duration ts) < kMaxTicksDuration"
    unfolding t assms(3) by (simp add: kMaxTicksDuration_def)
  have len: "length (timeouts RandInt 20 ?p) = 18" unfolding t by simp
  obtain chan' ts' where "idle_writes RandInt (Suc 18) chan ts =
      Inr (map RearmedAfter (timeouts RandInt 20 ?p) @ [NotRearmed], chan', ts')"
    using idle_writes_run_out [OF assms(1,2), of ts RandInt 20] fits len assms(3,4) by auto
  moreover have "Suc 18 = (19 :: nat)" by simp
  ultimately show ?thesis using len by (metis length_map)
qed

theorem idle_channel_stops_witness:
  "\<exists>rs chan' ts'. idle_writes (\<lambda>a b. b) 19 fl_demo (TimerService_init 100) = Inr (rs @ [NotRearmed], chan', ts') \<and> length rs = 18"
  by (rule idle_channel_stops)
    (simp_all add: fl_demo_def FairLossChannel_init_def budget_ok_def SharedBudget_init_def TimerService_init_def)

text \<open>The queue of outgoing packets is bounded: \<open>Send\<close> never lets it grow beyond the cap.\<close>

theorem send_respects_cap:
  assumes "fl_inv (conf_of chan)" and "length (fl_outgoing_packets chan) \<le> kOutgoingMessageCap"
  shows "length (fl_outgoing_packets (FairLoss_Send packet chan)) \<le> kOutgoingMessageCap"
proof -
  have "card (fl_outgoing_message_ids chan) = length (fl_outgoing_packets chan)"
    using assms(1) distinct_card [of "map pkt_id (fl_outgoing_packets chan)"]
    by (simp add: fl_inv_def on_the_way_def conf_of_def)
  then show ?thesis using assms(2) by (auto simp: FairLoss_Send_def EstimateSize_def Set_Insert_def Let_def)
qed

theorem send_respects_cap_witness:
  "length (fl_outgoing_packets (FairLoss_Send (fl_demo_packet 7) fl_demo)) \<le> kOutgoingMessageCap"
  by (rule send_respects_cap [OF fl_inv_demo]) (simp add: fl_demo_def FairLossChannel_init_def)

end
