(* ===== verification/Reliable_Channel.thy ===== *)
theory Reliable_Channel
  imports Fairloss_Channel
begin

text \<open>
  The reliable channel (\<open>include/io/transport/reliable_channel.hpp\<close>): retransmission with
  acknowledgements on top of the fair-loss channel. What the channels of a process share, the
  timer service, the generator of message ids and the supply of promises, is the record
  \<open>Shared\<close>. A promise is named by the number of its contract; what a handler does outside
  the channel is the list of its effects, in order.
\<close>

section \<open>State\<close>

record ReliableRetryPolicy =
  msg_policy :: RetryPolicy
  fair_loss_policy :: FairLossRetryPolicy

record MessageEntry =
  me_timer_id :: TimerID
  me_promise :: nat
  me_credits :: u64

record ReliableChannel =
  rc_local_id :: PeerID
  rc_fair_loss :: FairLossChannel
  rc_retry_policy :: RetryPolicy
  rc_message_entries :: "MessageID \<rightharpoonup> MessageEntry"
  rc_delivered :: "MessageID set"

record Shared =
  sh_timers :: "TimerObject TimerService"
  sh_message_id :: MessageID
  sh_contracts :: nat

definition ReliableChannel_init :: "PeerID \<Rightarrow> PeerID \<Rightarrow> ReliableRetryPolicy \<Rightarrow> u64 \<Rightarrow> ReliableChannel" where
  "ReliableChannel_init self local_id retry_policy max_send_budget =
     \<lparr>rc_local_id = local_id,
      rc_fair_loss = FairLossChannel_init self (fair_loss_policy retry_policy) max_send_budget,
      rc_retry_policy = msg_policy retry_policy, rc_message_entries = Map.empty, rc_delivered = {}\<rparr>"

datatype RCEffect =
    RCFulfil nat
  | RCFail nat
  | RCWrite Bytes
  | RCCallback Packet

section \<open>Sending\<close>

definition CreatePacket :: "Bytes \<Rightarrow> PacketType \<Rightarrow> MessageID \<Rightarrow> ReliableChannel \<Rightarrow> Packet" where
  "CreatePacket payload type i ch =
     \<lparr>pkt_type = type, pkt_id = i, pkt_source = rc_local_id ch, pkt_message = payload\<rparr>"

definition DoSend :: "Packet \<Rightarrow> ReliableChannel \<Rightarrow> ReliableChannel" where
  "DoSend packet ch = ch\<lparr>rc_fair_loss := FairLoss_Send packet (rc_fair_loss ch)\<rparr>"

definition RC_AddSendCredits :: "u64 \<Rightarrow> ReliableChannel \<Rightarrow> ReliableChannel" where
  "RC_AddSendCredits credits ch = ch\<lparr>rc_fair_loss := AddSendCredits credits (rc_fair_loss ch)\<rparr>"

text \<open>The callback of the retry timer.\<close>

definition BackoffRetryCallback :: "Packet \<Rightarrow> ReliableChannel \<Rightarrow> ReliableChannel" where
  "BackoffRetryCallback packet ch = DoSend packet (RC_AddSendCredits 1 ch)"

definition RC_Send :: "Bytes \<Rightarrow> ReliableChannel \<Rightarrow> Shared \<Rightarrow> fault + (nat \<times> ReliableChannel \<times> Shared)" where
  "RC_Send message ch sh =
     (let contract = sh_contracts sh;
          sh = sh\<lparr>sh_contracts := Suc contract\<rparr>;
          (timer_id, timers) = GetID (sh_timers sh);
          (message_id, next_id) = UniqueID_Get (sh_message_id sh);
          sh = sh\<lparr>sh_message_id := next_id\<rparr>;
          entry = \<lparr>me_timer_id = timer_id, me_promise = contract, me_credits = 1\<rparr>;
          ch = ch\<lparr>rc_message_entries := Map_Set message_id entry (rc_message_entries ch)\<rparr>;
          packet = CreatePacket message kPayloadMessage message_id ch;
          retry_timer = \<lparr>brt_channel = fl_self (rc_fair_loss ch), brt_packet = packet, brt_retry_policy = rc_retry_policy ch\<rparr>
      in fbind (AddTimer_id (BackoffTimer retry_timer) timer_id (GetTimeout (rc_retry_policy ch)) timers) (\<lambda>timers.
           Inr (contract, DoSend packet ch, sh\<lparr>sh_timers := timers\<rparr>)))"

section \<open>Receiving\<close>

fun HandleAckMessage :: "MessageID list \<Rightarrow> ReliableChannel \<Rightarrow> Shared \<Rightarrow> ReliableChannel \<times> Shared \<times> RCEffect list" where
  "HandleAckMessage [] ch sh = (ch, sh, [])"
| "HandleAckMessage (message_id # rest) ch sh =
     (let (entry, entries) = Map_Take message_id (rc_message_entries ch);
          ch = ch\<lparr>rc_message_entries := entries\<rparr>
      in case entry of
           None \<Rightarrow> HandleAckMessage rest ch sh
         | Some e \<Rightarrow>
             let sh = sh\<lparr>sh_timers := CancelTimer (me_timer_id e) (sh_timers sh)\<rparr>;
                 ch = RC_AddSendCredits (me_credits e) ch;
                 (ch, sh, es) = HandleAckMessage rest ch sh
             in (ch, sh, RCFulfil (me_promise e) # es))"

text \<open>
  \<open>write\<close> is the kernel's answer to the attempt to send the acknowledgement straight to the
  socket.
\<close>

definition HandlePayloadMessage ::
    "nat sysret \<Rightarrow> Packet \<Rightarrow> ReliableChannel \<Rightarrow> Shared \<Rightarrow> fault + (ReliableChannel \<times> Shared \<times> RCEffect list)" where
  "HandlePayloadMessage write packet ch sh =
     (let not_delivered = (pkt_id packet \<notin> rc_delivered ch);
          ch = ch\<lparr>rc_delivered := insert (pkt_id packet) (rc_delivered ch)\<rparr>
      in case marshal_fresh AckMessage_Size AckMessage_MarshalExtract \<lparr>acks = [pkt_id packet]\<rparr> of
           None \<Rightarrow> Inl AssertFailed
         | Some ack_payload \<Rightarrow>
             let (ack_id, next_id) = UniqueID_Get (sh_message_id sh);
                 sh = sh\<lparr>sh_message_id := next_id\<rparr>;
                 ack_packet = CreatePacket ack_payload kAckMessage ack_id ch
             in case marshal_fresh Packet_Size Packet_Marshal ack_packet of
                  None \<Rightarrow> Inl AssertFailed
                | Some ack_packet_payload \<Rightarrow>
                    fbind (UDPSocket_Write write) (\<lambda>result.
                      let refused = (result = kConnRefused \<or> result = kWouldBlock);
                          ch = (if refused then DoSend ack_packet ch else ch)
                      in Inr (ch, sh, (if refused then [] else [RCWrite ack_packet_payload]) @
                                      (if not_delivered then [RCCallback packet] else []))))"

definition HandlePacket ::
    "nat sysret \<Rightarrow> Packet \<Rightarrow> ReliableChannel \<Rightarrow> Shared \<Rightarrow> fault + (ReliableChannel \<times> Shared \<times> RCEffect list)" where
  "HandlePacket write packet ch sh =
     (if pkt_type packet = kAckMessage then
        case AckMessage_Unmarshal (pkt_message packet) of
          None \<Rightarrow> Inl AssertFailed
        | Some message \<Rightarrow> Inr (HandleAckMessage (acks message) ch sh)
      else if pkt_type packet = kPayloadMessage then HandlePayloadMessage write packet ch sh
      else Inl SyscallFailed)"

section \<open>Stopping\<close>

fun fail_entries :: "MessageEntry list \<Rightarrow> Shared \<Rightarrow> Shared \<times> RCEffect list" where
  "fail_entries [] sh = (sh, [])"
| "fail_entries (e # rest) sh =
     (let sh = sh\<lparr>sh_timers := CancelTimer (me_timer_id e) (sh_timers sh)\<rparr>;
          (sh, es) = fail_entries rest sh
      in (sh, RCFail (me_promise e) # es))"

text \<open>
  \<open>order\<close> is the order of the hash table. A moved-from entry keeps its numbers; its promise
  no longer has a state, which no handler of a stopped channel looks at.
\<close>

definition RC_Stop :: "MessageID list \<Rightarrow> ReliableChannel \<Rightarrow> Shared \<Rightarrow> ReliableChannel \<times> Shared \<times> RCEffect list" where
  "RC_Stop order ch sh =
     (let ch = ch\<lparr>rc_fair_loss := FairLoss_Stop (rc_fair_loss ch)\<rparr>;
          (promises, entries) = Map_Drain order (\<lambda>e. e) (rc_message_entries ch);
          ch = ch\<lparr>rc_message_entries := entries\<rparr>;
          (sh, es) = fail_entries promises sh
      in (ch, sh, es))"

section \<open>Local laws\<close>

lemma ack_bytes: "marshal_fresh AckMessage_Size AckMessage_MarshalExtract \<lparr>acks = [i]\<rparr> \<noteq> None"
  and ack_roundtrip: "marshal_fresh AckMessage_Size AckMessage_MarshalExtract \<lparr>acks = [i]\<rparr> = Some bs \<Longrightarrow>
    AckMessage_Unmarshal bs = Some \<lparr>acks = [i]\<rparr>"
proof -
  have eq: "AckMessage_MarshalExtract = AckMessage_Marshal" by (intro ext) (simp add: AckMessage_MarshalExtract_def)
  obtain bs' where "marshal_fresh AckMessage_Size AckMessage_Marshal \<lparr>acks = [i]\<rparr> = Some bs'"
    and "AckMessage_Unmarshal bs' = Some \<lparr>acks = [i]\<rparr>"
    using ack_message.fresh_roundtrip [of "\<lparr>acks = [i]\<rparr>"] by auto
  then show "marshal_fresh AckMessage_Size AckMessage_MarshalExtract \<lparr>acks = [i]\<rparr> \<noteq> None"
    and "marshal_fresh AckMessage_Size AckMessage_MarshalExtract \<lparr>acks = [i]\<rparr> = Some bs \<Longrightarrow>
      AckMessage_Unmarshal bs = Some \<lparr>acks = [i]\<rparr>"
    by (simp_all add: eq)
qed

lemma RC_frames [simp]:
  "rc_message_entries (DoSend p ch) = rc_message_entries ch" "rc_delivered (DoSend p ch) = rc_delivered ch"
  "rc_local_id (DoSend p ch) = rc_local_id ch" "rc_retry_policy (DoSend p ch) = rc_retry_policy ch"
  "rc_message_entries (RC_AddSendCredits n ch) = rc_message_entries ch" "rc_delivered (RC_AddSendCredits n ch) = rc_delivered ch"
  "rc_local_id (RC_AddSendCredits n ch) = rc_local_id ch" "rc_retry_policy (RC_AddSendCredits n ch) = rc_retry_policy ch"
  by (simp_all add: DoSend_def RC_AddSendCredits_def)

lemma FairLoss_Send_packets: "set (fl_outgoing_packets (FairLoss_Send p fl)) \<subseteq> insert p (set (fl_outgoing_packets fl))"
  by (auto simp: FairLoss_Send_def Set_Insert_def Let_def)

end
