(* ===== verification/Reliable_Transport.thy ===== *)
theory Reliable_Transport
  imports Reliable_Channel
begin

text \<open>
  The transport of a process (\<open>include/io/transport/reliable_transport.hpp\<close>) with its packet
  batcher (\<open>include/runtime/packet_batcher.hpp\<close>, \<open>src/runtime/packet_batcher.cpp\<close>) and
  the timers of its channels. The batcher is the list of packets handed to it and not yet
  processed, in order (theory \<open>Strand\<close>).
\<close>

section \<open>State\<close>

record ReliableTransport =
  rt_hosts :: HostsTable
  rt_retry_policy :: ReliableRetryPolicy
  rt_max_send_budget :: u64
  rt_channels :: "PeerID \<rightharpoonup> ReliableChannel"
  rt_batch :: "Packet list"
  rt_shared :: Shared

definition ReliableTransport_init :: "HostsTable \<Rightarrow> ReliableRetryPolicy \<Rightarrow> u64 \<Rightarrow> DurationMs \<Rightarrow> ReliableTransport" where
  "ReliableTransport_init hosts retry_policy max_send_budget tick =
     \<lparr>rt_hosts = hosts, rt_retry_policy = retry_policy, rt_max_send_budget = max_send_budget,
      rt_channels = Map.empty, rt_batch = [],
      rt_shared = \<lparr>sh_timers = TimerService_init tick, sh_message_id = 0, sh_contracts = 0\<rparr>\<rparr>"

section \<open>Starting and stopping\<close>

text \<open>The loop of \<open>Start\<close>: \<open>emplace\<close> fails on a key that is already there.\<close>

fun start_channels :: "PeerID list \<Rightarrow> ReliableTransport \<Rightarrow> fault + ReliableTransport" where
  "start_channels [] rt = Inr rt"
| "start_channels (peer # rest) rt =
     fbind (Resolve (rt_hosts rt) peer) (\<lambda>_.
       if rt_channels rt peer \<noteq> None then Inl AssertFailed
       else start_channels rest (rt\<lparr>rt_channels := (rt_channels rt)(peer \<mapsto>
              ReliableChannel_init peer (LocalID (rt_hosts rt)) (rt_retry_policy rt) (rt_max_send_budget rt))\<rparr>))"

definition Transport_Start :: "ReliableTransport \<Rightarrow> fault + ReliableTransport" where
  "Transport_Start rt =
     fbind (ResolveLocalHost (rt_hosts rt)) (\<lambda>_. start_channels (GetPeers (rt_hosts rt)) rt)"

text \<open>\<open>order\<close> is the order of the channels in their hash table, \<open>orders\<close> that of the entries of each channel.\<close>

fun stop_channels ::
    "(PeerID \<Rightarrow> MessageID list) \<Rightarrow> PeerID list \<Rightarrow> ReliableTransport \<Rightarrow> ReliableTransport \<times> RCEffect list" where
  "stop_channels orders [] rt = (rt, [])"
| "stop_channels orders (peer # rest) rt =
     (case rt_channels rt peer of
        None \<Rightarrow> stop_channels orders rest rt
      | Some ch \<Rightarrow>
          let (ch, sh, es) = RC_Stop (orders peer) ch (rt_shared rt);
              rt = rt\<lparr>rt_channels := (rt_channels rt)(peer \<mapsto> ch), rt_shared := sh\<rparr>;
              (rt, es') = stop_channels orders rest rt
          in (rt, es @ es'))"

definition Transport_Stop ::
    "PeerID list \<Rightarrow> (PeerID \<Rightarrow> MessageID list) \<Rightarrow> ReliableTransport \<Rightarrow> ReliableTransport \<times> RCEffect list" where
  "Transport_Stop order orders rt = stop_channels orders order rt"

section \<open>Sending\<close>

definition AddPacket :: "Packet \<Rightarrow> ReliableTransport \<Rightarrow> ReliableTransport" where
  "AddPacket packet rt = rt\<lparr>rt_batch := rt_batch rt @ [packet]\<rparr>"

definition SendLocal :: "Bytes \<Rightarrow> ReliableTransport \<Rightarrow> ReliableTransport" where
  "SendLocal message rt =
     AddPacket \<lparr>pkt_type = kPayloadMessage, pkt_id = 0, pkt_source = LocalID (rt_hosts rt), pkt_message = message\<rparr> rt"

text \<open>The future of a local send is ready at once (\<open>None\<close>); otherwise it is the future of a contract.\<close>

definition Transport_Send :: "PeerID \<Rightarrow> Bytes \<Rightarrow> ReliableTransport \<Rightarrow> fault + (nat option \<times> ReliableTransport)" where
  "Transport_Send peer message rt =
     (if peer = LocalID (rt_hosts rt) then Inr (None, SendLocal message rt)
      else case rt_channels rt peer of
             None \<Rightarrow> Inl OutOfRange
           | Some ch \<Rightarrow> fbind (RC_Send message ch (rt_shared rt)) (\<lambda>(contract, ch, sh).
               Inr (Some contract, rt\<lparr>rt_channels := (rt_channels rt)(peer \<mapsto> ch), rt_shared := sh\<rparr>)))"

section \<open>Events\<close>

text \<open>A datagram read from the socket of a channel: \<open>HandlePacket\<close> and its callback, which passes the packet on to the batcher whatever its source.\<close>

fun batch_callbacks :: "RCEffect list \<Rightarrow> ReliableTransport \<Rightarrow> ReliableTransport" where
  "batch_callbacks [] rt = rt"
| "batch_callbacks (RCCallback packet # es) rt = batch_callbacks es (AddPacket packet rt)"
| "batch_callbacks (_ # es) rt = batch_callbacks es rt"

definition Transport_Read ::
    "nat sysret \<Rightarrow> PeerID \<Rightarrow> Bytes \<Rightarrow> ReliableTransport \<Rightarrow> fault + (ReliableTransport \<times> RCEffect list)" where
  "Transport_Read write peer bytes rt =
     (case rt_channels rt peer of
        None \<Rightarrow> Inl OutOfRange
      | Some ch \<Rightarrow>
          case Packet_Unmarshal bytes of
            None \<Rightarrow> Inl AssertFailed
          | Some packet \<Rightarrow> fbind (HandlePacket write packet ch (rt_shared rt)) (\<lambda>(ch, sh, es).
              Inr (batch_callbacks es (rt\<lparr>rt_channels := (rt_channels rt)(peer \<mapsto> ch), rt_shared := sh\<rparr>), es)))"

definition Transport_Write ::
    "rand_int \<Rightarrow> (nat \<Rightarrow> nat sysret) \<Rightarrow> EventType \<Rightarrow> PeerID \<Rightarrow> ReliableTransport \<Rightarrow> fault + (Bytes list \<times> ReliableTransport)" where
  "Transport_Write RandInt write type peer rt =
     (case rt_channels rt peer of
        None \<Rightarrow> Inl OutOfRange
      | Some ch \<Rightarrow>
          fbind (WriteEventHandler_Handle RandInt write type (rc_fair_loss ch) (sh_timers (rt_shared rt))) (\<lambda>(r, sent, fl, ts).
            Inr (sent, rt\<lparr>rt_channels := (rt_channels rt)(peer \<mapsto> ch\<lparr>rc_fair_loss := fl\<rparr>),
                          rt_shared := (rt_shared rt)\<lparr>sh_timers := ts\<rparr>\<rparr>)))"

text \<open>
  A timer that fires: the retry callback of its channel, or the re-arming of an event, which
  changes nothing here.
\<close>

definition retry_packet :: "PeerID \<Rightarrow> Packet \<Rightarrow> (PeerID \<rightharpoonup> ReliableChannel) \<Rightarrow> (PeerID \<rightharpoonup> ReliableChannel)" where
  "retry_packet peer packet chs = chs(peer := map_option (BackoffRetryCallback packet) (chs peer))"

fun fire_timers :: "rand_int \<Rightarrow> TimerObject Timer list \<Rightarrow> ReliableTransport \<Rightarrow> fault + ReliableTransport" where
  "fire_timers RandInt [] rt = Inr rt"
| "fire_timers RandInt (t # timers) rt =
     (case tm_object t of
        RetryFunction _ _ \<Rightarrow> fire_timers RandInt timers rt
      | BackoffTimer timer \<Rightarrow>
          fbind (BackoffRetryTimer_Fire retry_packet RandInt (tm_id t) timer (rt_channels rt) (sh_timers (rt_shared rt)))
            (\<lambda>(chs, ts). fire_timers RandInt timers
               (rt\<lparr>rt_channels := chs, rt_shared := (rt_shared rt)\<lparr>sh_timers := ts\<rparr>\<rparr>)))"

definition Transport_Tick :: "rand_int \<Rightarrow> Ticks \<Rightarrow> ReliableTransport \<Rightarrow> fault + ReliableTransport" where
  "Transport_Tick RandInt elapsed rt =
     (let (cancelled, fired, ts) = Tick elapsed (sh_timers (rt_shared rt))
      in fire_timers RandInt fired (rt\<lparr>rt_shared := (rt_shared rt)\<lparr>sh_timers := ts\<rparr>\<rparr>))"

text \<open>\<open>PacketBatcherImpl::ProcessBatch\<close>: the calls of the transport's callback, in order, and their number.\<close>

fun ProcessBatch :: "Packet list \<Rightarrow> (PeerID \<times> Bytes) list \<times> nat" where
  "ProcessBatch [] = ([], 0)"
| "ProcessBatch (packet # batch) =
     (let (calls, n) = ProcessBatch batch in ((pkt_source packet, pkt_message packet) # calls, Suc n))"

definition Transport_Batch :: "ReliableTransport \<Rightarrow> (PeerID \<times> Bytes) list \<times> ReliableTransport" where
  "Transport_Batch rt = (fst (ProcessBatch (rt_batch rt)), rt\<lparr>rt_batch := []\<rparr>)"

lemma ProcessBatch_eq: "ProcessBatch batch = (map (\<lambda>p. (pkt_source p, pkt_message p)) batch, length batch)"
  by (induction batch) auto

section \<open>Channels of a started transport\<close>

lemma start_channels_eq:
  assumes "start_channels rest rt = Inr rt'"
  shows "rt' = rt\<lparr>rt_channels := (\<lambda>q. if q \<in> set rest
      then Some (ReliableChannel_init q (LocalID (rt_hosts rt)) (rt_retry_policy rt) (rt_max_send_budget rt)) else rt_channels rt q)\<rparr>"
  using assms
proof (induction rest arbitrary: rt)
  case Nil
  then show ?case by simp
next
  case (Cons p rest)
  let ?ch = "ReliableChannel_init p (LocalID (rt_hosts rt)) (rt_retry_policy rt) (rt_max_send_budget rt)"
  have "start_channels rest (rt\<lparr>rt_channels := (rt_channels rt)(p \<mapsto> ?ch)\<rparr>) = Inr rt'"
    using Cons.prems by (auto simp: fbind_eq_Inr split: if_splits)
  from Cons.IH [OF this] show ?case by (auto intro!: arg_cong [where f = "\<lambda>f. rt\<lparr>rt_channels := f\<rparr>"])
qed

section \<open>Timers and packets under the operations\<close>

text \<open>The retry timers on the wheel.\<close>

definition timer_set :: "'a TimerService \<Rightarrow> 'a set" where
  "timer_set ts = tm_object ` (\<Union>slot\<in>set (ts_timers ts). set slot)"

lemma timer_set_DoAddTimer:
  assumes "wheel_ok ts"
  shows "wheel_ok (DoAddTimer x i d ts)" and "timer_set (DoAddTimer x i d ts) \<subseteq> insert x (timer_set ts)"
proof -
  let ?slot = "unat (ts_ticks ts + d) mod kMaxTicksDuration" and ?t = "\<lparr>tm_deadline = ts_ticks ts + d, tm_id = i, tm_object = x\<rparr>"
  have lt: "?slot < length (ts_timers ts)" using assms by (simp add: wheel_ok_def kMaxTicksDuration_def)
  show "wheel_ok (DoAddTimer x i d ts)" using assms by (simp add: wheel_ok_def DoAddTimer_def Let_def)
  have "set ((ts_timers ts)[?slot := ts_timers ts ! ?slot @ [?t]]) \<subseteq> insert (ts_timers ts ! ?slot @ [?t]) (set (ts_timers ts))"
    by (rule set_update_subset_insert)
  moreover have "ts_timers ts ! ?slot \<in> set (ts_timers ts)" using lt by (rule nth_mem)
  ultimately show "timer_set (DoAddTimer x i d ts) \<subseteq> insert x (timer_set ts)"
    by (fastforce simp: timer_set_def DoAddTimer_def Let_def)
qed

lemma timer_set_ExpireSlot:
  assumes "wheel_ok ts" and "ExpireSlot ts = (expired, ts')"
  shows "wheel_ok ts'" and "timer_set ts' \<subseteq> timer_set ts" and "tm_object ` set expired \<subseteq> timer_set ts"
proof -
  let ?slot = "ts_timers ts ! ts_slot ts"
  have mem: "?slot \<in> set (ts_timers ts)" using assms(1) by (auto simp: wheel_ok_def)
  have eq: "expired = rev (filter (\<lambda>t. tm_deadline t \<le> ts_ticks ts) ?slot)"
    "ts' = ts\<lparr>ts_timers := (ts_timers ts)[ts_slot ts := rev (filter (\<lambda>t. \<not> tm_deadline t \<le> ts_ticks ts) ?slot)]\<rparr>"
    using assms(2) by (auto simp: ExpireSlot_def split_slot_eq)
  show "wheel_ok ts'" using assms(1) by (simp add: eq wheel_ok_def)
  show "tm_object ` set expired \<subseteq> timer_set ts" using mem by (auto simp: eq timer_set_def)
  have "set (ts_timers ts') \<subseteq> insert (rev (filter (\<lambda>t. \<not> tm_deadline t \<le> ts_ticks ts) ?slot)) (set (ts_timers ts))"
    unfolding eq by (simp add: set_update_subset_insert)
  then show "timer_set ts' \<subseteq> timer_set ts" using mem by (fastforce simp: timer_set_def)
qed

lemma timer_set_expire_slots:
  assumes "wheel_ok ts" and "expire_slots n ts = (expired, ts')"
  shows "wheel_ok ts' \<and> timer_set ts' \<subseteq> timer_set ts \<and> tm_object ` set expired \<subseteq> timer_set ts"
  using assms
proof (induction n arbitrary: ts expired)
  case 0
  then show ?case by simp
next
  case (Suc n)
  let ?a = "AdvanceSlot ts"
  have a: "wheel_ok ?a" "timer_set ?a = timer_set ts"
    using Suc.prems(1) by (auto simp: AdvanceSlot_def Let_def wheel_ok_def timer_set_def kMaxTicksDuration_def)
  obtain e1 ts1 e2 where e: "ExpireSlot ?a = (e1, ts1)" "expire_slots n ts1 = (e2, ts')" "expired = e1 @ e2"
    using Suc.prems(2) by (auto simp: Let_def split: prod.splits)
  note one = timer_set_ExpireSlot [OF a(1) e(1)]
  show ?case using Suc.IH [OF one(1) e(2)] one a(2) by (auto simp: e(3))
qed

lemma set_sort_out: "sort_out c ts = (c', cancelled, fired) \<Longrightarrow> set fired \<subseteq> set ts"
proof (induction c ts arbitrary: c' cancelled fired rule: sort_out.induct)
  case (2 c t ts)
  then show ?case by (fastforce simp: Let_def split: if_splits prod.splits)
qed simp

lemma timer_set_Tick:
  assumes "wheel_ok ts" and "Tick e ts = (cancelled, fired, ts')"
  shows "wheel_ok ts'" and "timer_set ts' \<subseteq> timer_set ts" and "tm_object ` set fired \<subseteq> timer_set ts"
proof -
  let ?a = "ts\<lparr>ts_ticks := ts_ticks ts + e\<rparr>"
  have a: "wheel_ok ?a" "timer_set ?a = timer_set ts" using assms(1) by (simp_all add: wheel_ok_def timer_set_def)
  obtain expired ts1 c where x: "expire_slots (unat e) ?a = (expired, ts1)"
    "sort_out (ts_cancelled_timers ts1) expired = (c, cancelled, fired)" "ts' = ts1\<lparr>ts_cancelled_timers := c\<rparr>"
    using assms(2) by (auto simp: Tick_def Let_def split: prod.splits)
  have r: "wheel_ok ts1 \<and> timer_set ts1 \<subseteq> timer_set ts \<and> tm_object ` set expired \<subseteq> timer_set ts"
    using timer_set_expire_slots [OF a(1) x(1)] a(2) by simp
  show "wheel_ok ts'" "timer_set ts' \<subseteq> timer_set ts" using r by (simp_all add: x(3) wheel_ok_def timer_set_def)
  show "tm_object ` set fired \<subseteq> timer_set ts" using r set_sort_out [OF x(2)] by blast
qed

text \<open>The retry timers of a wheel, which only \<open>Send\<close> and the retries themselves add to.\<close>

definition backoffs :: "TimerObject TimerService \<Rightarrow> BackoffRetryTimer set" where
  "backoffs ts = {b. BackoffTimer b \<in> timer_set ts}"

lemma Retry_backoffs:
  assumes "Retry channel handler R p ts = Inr (r, p', ts')" and "wheel_ok ts"
  shows "wheel_ok ts' \<and> backoffs ts' \<subseteq> backoffs ts"
proof (cases "IsValid p")
  case False
  then show ?thesis using assms by (simp add: Retry_def)
next
  case True
  then obtain i where i: "AddTimer (RetryFunction channel handler) (GetTimeout p) ts = Inr (i, ts')"
    using assms(1) by (auto simp: Retry_def ScheduleAfter_def fbind_eq_Inr Let_def)
  then obtain n where ts': "ts' = (DoAddTimer (RetryFunction channel handler) (ts_current_id ts) n ts)\<lparr>ts_current_id := ts_current_id ts + 1\<rparr>"
    by (auto simp: AddTimer_def fbind_eq_Inr Let_def DoAddTimer_def)
  have "timer_set ts' = timer_set (DoAddTimer (RetryFunction channel handler) (ts_current_id ts) n ts)"
    "wheel_ok ts' = wheel_ok (DoAddTimer (RetryFunction channel handler) (ts_current_id ts) n ts)"
    by (simp_all add: ts' timer_set_def wheel_ok_def)
  then show ?thesis
    using timer_set_DoAddTimer [OF assms(2), of "RetryFunction channel handler" "ts_current_id ts" n]
    by (auto simp: backoffs_def)
qed

lemma AddTimer_id_backoffs:
  assumes "AddTimer_id (BackoffTimer b) i d ts = Inr ts'" and "wheel_ok ts"
  shows "wheel_ok ts'" and "backoffs ts' \<subseteq> insert b (backoffs ts)"
proof -
  obtain n where "ts' = DoAddTimer (BackoffTimer b) i n ts"
    using assms(1) by (auto simp: AddTimer_id_def fbind_eq_Inr)
  then show "wheel_ok ts'" "backoffs ts' \<subseteq> insert b (backoffs ts)"
    using timer_set_DoAddTimer [OF assms(2), of "BackoffTimer b" i n] by (auto simp: backoffs_def)
qed

lemma timers_frame [simp]:
  "wheel_ok (CancelTimer i ts) = wheel_ok ts" "backoffs (CancelTimer i ts') = backoffs ts'"
  by (simp_all add: CancelTimer_def wheel_ok_def backoffs_def timer_set_def)

text \<open>A write event sends packets of the queue and keeps the others.\<close>

definition writes_from_queue ::
    "FairLossChannel \<Rightarrow> TimerObject TimerService \<Rightarrow> Bytes list \<Rightarrow> FairLossChannel \<Rightarrow> TimerObject TimerService \<Rightarrow> bool" where
  "writes_from_queue fl ts sent fl' ts' \<longleftrightarrow>
     set (fl_outgoing_packets fl') \<subseteq> set (fl_outgoing_packets fl) \<and> set sent \<subseteq> Packet_image ` set (fl_outgoing_packets fl) \<and>
     fl_self fl' = fl_self fl \<and> wheel_ok ts' \<and> backoffs ts' \<subseteq> backoffs ts"

lemma Reschedule_writes:
  assumes "wheel_ok ts"
  shows "Reschedule_error R fl ts = Inr (r, fl', ts') \<Longrightarrow> writes_from_queue fl ts [] fl' ts'"
    and "Reschedule_empty R fl ts = Inr (r, fl', ts') \<Longrightarrow> writes_from_queue fl ts [] fl' ts'"
  using Retry_backoffs [OF _ assms]
  by (fastforce simp: Reschedule_error_def Reschedule_empty_def fbind_eq_Inr writes_from_queue_def)+

lemma finish_write_writes:
  assumes "finish_write R w fl ts = Inr (r, sent, fl', ts')" and "wheel_ok ts"
  shows "fl_self fl' = fl_self fl \<and> wheel_ok ts' \<and> backoffs ts' \<subseteq> backoffs ts"
proof (cases "ws_status w = kConnRefused")
  case True
  then obtain fl1 where "Reschedule_error R fl1 ts = Inr (r, fl', ts')" and "fl_self fl1 = fl_self fl"
    using assms(1) by (auto simp: finish_write_def Let_def fbind_eq_Inr split: if_splits)
  then show ?thesis using Reschedule_writes(1) [OF assms(2)] by (auto simp: writes_from_queue_def)
next
  case False
  then show ?thesis using assms by (auto simp: finish_write_def Let_def)
qed

lemma Handle_writes:
  assumes h: "WriteEventHandler_Handle R write type fl ts = Inr (r, sent, fl', ts')" and ok: "wheel_ok ts"
  shows "writes_from_queue fl ts sent fl' ts'"
proof (cases "type = kWriteReady")
  case False
  then show ?thesis
    using h Reschedule_writes(1) [OF ok] by (auto simp: WriteEventHandler_Handle_def fbind_eq_Inr split: if_splits)
next
  case True
  let ?b = "(fl_send_budget fl)\<lparr>sb_counter := 0\<rparr>"
  consider (none) "sb_counter (fl_send_budget fl) = 0" | (empty) "sb_counter (fl_send_budget fl) \<noteq> 0" "fl_outgoing_packets fl = []"
    | (some) "sb_counter (fl_send_budget fl) \<noteq> 0" "fl_outgoing_packets fl \<noteq> []" by blast
  then show ?thesis
  proof cases
    case none
    then obtain fl1 where "Reschedule_empty R (fl\<lparr>fl_send_budget := ?b\<rparr>) ts = Inr (r, fl', ts')" "sent = []"
      using h True by (auto simp: WriteEventHandler_Handle_def Credit_all_eq fbind_eq_Inr)
    then show ?thesis using Reschedule_writes(2) [OF ok, of R] by (fastforce simp: writes_from_queue_def)
  next
    case empty
    then obtain b where "Reschedule_empty R (fl\<lparr>fl_outgoing_packets := [], fl_send_budget := b\<rparr>) ts = Inr (r, fl', ts')" "sent = []"
      using h True by (auto simp: WriteEventHandler_Handle_def Credit_all_eq fbind_eq_Inr Let_def)
    then show ?thesis using Reschedule_writes(2) [OF ok, of R] empty(2) by (fastforce simp: writes_from_queue_def)
  next
    case some
    obtain w where w: "write_loop write 0 (fl_outgoing_packets fl) (write_start fl) = Inr w" "sent = ws_sent w"
        "fl_outgoing_packets fl' = ws_batch w"
      using Handle_batch [OF h [unfolded True] some] by blast
    obtain n where "ws_batch w = drop n (fl_outgoing_packets fl)" "ws_sent w = map Packet_image (take n (fl_outgoing_packets fl))"
      using write_loop_effect [OF w(1)] by (auto simp: write_start_def)
    then have "set (fl_outgoing_packets fl') \<subseteq> set (fl_outgoing_packets fl)"
      "set sent \<subseteq> Packet_image ` set (fl_outgoing_packets fl)"
      by (auto simp: w(2,3) dest: in_set_takeD in_set_dropD)
    moreover obtain w' fl1 where "finish_write R w' fl1 ts = Inr (r, sent, fl', ts')" "fl_self fl1 = fl_self fl"
      using h True some by (auto simp: WriteEventHandler_Handle_def Credit_all_eq fbind_eq_Inr Let_def)
    ultimately show ?thesis using finish_write_writes [OF _ ok] by (auto simp: writes_from_queue_def)
  qed
qed

end
