(* ===== verification/Reliable_System.thy ===== *)
theory Reliable_System
  imports Reliable_Transport
begin

text \<open>
  The transports of several processes on a network that loses, duplicates and reorders
  datagrams: \<open>rs_net\<close> is the set of all datagrams ever written, any of which can be read any
  number of times, or never. The steps are the calls of the application and the events of
  every process: sending, write events, datagrams read, ticks of the timer and the batcher.
  The ghost fields record the messages sent with the ids and contracts they got, the packets
  handed to the batcher and the promises fulfilled.
\<close>

section \<open>The system\<close>

record rel_system =
  rs_nodes :: "PeerID \<Rightarrow> ReliableTransport"
  rs_net :: "(PeerID \<times> PeerID \<times> Bytes) set"
  rs_out :: "PeerID \<Rightarrow> (PeerID \<times> Bytes) list"
  rs_sent :: "PeerID \<Rightarrow> PeerID \<Rightarrow> MessageID \<rightharpoonup> Bytes \<times> nat"
  rs_delivered :: "(PeerID \<times> PeerID \<times> MessageID \<times> Bytes) list"
  rs_fulfilled :: "(PeerID \<times> nat) list"
  rs_drawn :: "PeerID \<Rightarrow> nat"

definition rs_init :: "(PeerID \<Rightarrow> ReliableTransport) \<Rightarrow> rel_system" where
  "rs_init nodes = \<lparr>rs_nodes = nodes, rs_net = {}, rs_out = (\<lambda>_. []), rs_sent = (\<lambda>_ _. Map.empty),
     rs_delivered = [], rs_fulfilled = [], rs_drawn = (\<lambda>_. 0)\<rparr>"

fun written :: "RCEffect list \<Rightarrow> Bytes set" where
  "written [] = {}"
| "written (RCWrite b # es) = insert b (written es)"
| "written (_ # es) = written es"

fun handed_on :: "RCEffect list \<Rightarrow> (MessageID \<times> Bytes) list" where
  "handed_on [] = []"
| "handed_on (RCCallback p # es) = (pkt_id p, pkt_message p) # handed_on es"
| "handed_on (_ # es) = handed_on es"

fun fulfilled :: "RCEffect list \<Rightarrow> nat list" where
  "fulfilled [] = []"
| "fulfilled (RCFulfil c # es) = c # fulfilled es"
| "fulfilled (_ # es) = fulfilled es"

text \<open>A process has drawn fewer than \<open>2 ^ 32\<close> message ids: its generator has not wrapped.\<close>

abbreviation next_id :: "rel_system \<Rightarrow> PeerID \<Rightarrow> MessageID" where
  "next_id \<sigma> p \<equiv> sh_message_id (rt_shared (rs_nodes \<sigma> p))"

definition after_send :: "PeerID \<Rightarrow> PeerID \<Rightarrow> Bytes \<Rightarrow> nat \<Rightarrow> ReliableTransport \<Rightarrow> rel_system \<Rightarrow> rel_system" where
  "after_send p q m c rt \<sigma> = \<sigma>\<lparr>rs_nodes := (rs_nodes \<sigma>)(p := rt),
     rs_sent := (rs_sent \<sigma>)(p := (rs_sent \<sigma> p)(q := (rs_sent \<sigma> p q)(next_id \<sigma> p \<mapsto> (m, c)))),
     rs_drawn := (rs_drawn \<sigma>)(p := Suc (rs_drawn \<sigma> p))\<rparr>"

definition after_read ::
    "PeerID \<Rightarrow> PeerID \<Rightarrow> ReliableTransport \<Rightarrow> RCEffect list \<Rightarrow> rel_system \<Rightarrow> rel_system" where
  "after_read d s rt es \<sigma> = \<sigma>\<lparr>rs_nodes := (rs_nodes \<sigma>)(d := rt), rs_net := rs_net \<sigma> \<union> (\<lambda>b. (d, s, b)) ` written es,
     rs_delivered := rs_delivered \<sigma> @ map (\<lambda>(i, m). (d, s, i, m)) (handed_on es),
     rs_fulfilled := rs_fulfilled \<sigma> @ map (Pair d) (fulfilled es),
     rs_drawn := (rs_drawn \<sigma>)(d := (if sh_message_id (rt_shared rt) = next_id \<sigma> d then rs_drawn \<sigma> d else Suc (rs_drawn \<sigma> d)))\<rparr>"

inductive rs_step :: "rel_system \<Rightarrow> rel_system \<Rightarrow> bool" where
  send: "Transport_Send q m (rs_nodes \<sigma> p) = Inr (Some c, rt) \<Longrightarrow> rs_drawn \<sigma> p < 2 ^ 32 \<Longrightarrow>
    rs_step \<sigma> (after_send p q m c rt \<sigma>)"
| send_local: "Transport_Send q m (rs_nodes \<sigma> p) = Inr (None, rt) \<Longrightarrow>
    rs_step \<sigma> (\<sigma>\<lparr>rs_nodes := (rs_nodes \<sigma>)(p := rt)\<rparr>)"
| write_event: "Transport_Write R ws type q (rs_nodes \<sigma> p) = Inr (sent, rt) \<Longrightarrow>
    rs_step \<sigma> (\<sigma>\<lparr>rs_nodes := (rs_nodes \<sigma>)(p := rt), rs_net := rs_net \<sigma> \<union> (\<lambda>b. (p, q, b)) ` set sent\<rparr>)"
| read_event: "(s, d, bytes) \<in> rs_net \<sigma> \<Longrightarrow> Transport_Read w s bytes (rs_nodes \<sigma> d) = Inr (rt, es) \<Longrightarrow> rs_drawn \<sigma> d < 2 ^ 32 \<Longrightarrow>
    rs_step \<sigma> (after_read d s rt es \<sigma>)"
| tick: "Transport_Tick R e (rs_nodes \<sigma> p) = Inr rt \<Longrightarrow> rs_step \<sigma> (\<sigma>\<lparr>rs_nodes := (rs_nodes \<sigma>)(p := rt)\<rparr>)"
| batch: "Transport_Batch (rs_nodes \<sigma> p) = (calls, rt) \<Longrightarrow>
    rs_step \<sigma> (\<sigma>\<lparr>rs_nodes := (rs_nodes \<sigma>)(p := rt), rs_out := (rs_out \<sigma>)(p := rs_out \<sigma> p @ calls)\<rparr>)"

text \<open>The processes start with the transports that \<open>Start\<close> makes of fresh ones; a fresh one that was not started has no channels.\<close>

definition started :: "(PeerID \<Rightarrow> ReliableTransport) \<Rightarrow> bool" where
  "started nodes \<longleftrightarrow> (\<forall>p. \<exists>hosts policy budget tick.
     localID hosts = p \<and>
     (Transport_Start (ReliableTransport_init hosts policy budget tick) = Inr (nodes p) \<or>
      nodes p = ReliableTransport_init hosts policy budget tick))"

inductive rs_reach :: "(PeerID \<Rightarrow> ReliableTransport) \<Rightarrow> rel_system \<Rightarrow> bool" for nodes where
  start: "started nodes \<Longrightarrow> rs_reach nodes (rs_init nodes)"
| step: "rs_reach nodes \<sigma> \<Longrightarrow> rs_step \<sigma> \<tau> \<Longrightarrow> rs_reach nodes \<tau>"

section \<open>The invariant\<close>

text \<open>A packet from \<open>s\<close> to \<open>d\<close> carries a message that was sent, or acknowledges one that was delivered.\<close>

definition pkt_ok :: "rel_system \<Rightarrow> PeerID \<Rightarrow> PeerID \<Rightarrow> Packet \<Rightarrow> bool" where
  "pkt_ok \<sigma> s d p \<longleftrightarrow> pkt_source p = s \<and>
     (pkt_type p = kPayloadMessage \<and> (\<exists>c. rs_sent \<sigma> s d (pkt_id p) = Some (pkt_message p, c)) \<or>
      pkt_type p = kAckMessage \<and>
        (\<exists>i m. AckMessage_Unmarshal (pkt_message p) = Some \<lparr>acks = [i]\<rparr> \<and> (s, d, i, m) \<in> set (rs_delivered \<sigma>)))"

definition entry_ok :: "rel_system \<Rightarrow> PeerID \<Rightarrow> PeerID \<Rightarrow> MessageID \<Rightarrow> MessageEntry \<Rightarrow> bool" where
  "entry_ok \<sigma> p q i e \<longleftrightarrow> (\<exists>m. rs_sent \<sigma> p q i = Some (m, me_promise e)) \<and> (p, me_promise e) \<notin> set (rs_fulfilled \<sigma>)"

definition channel_ok :: "rel_system \<Rightarrow> PeerID \<Rightarrow> PeerID \<Rightarrow> ReliableChannel \<Rightarrow> bool" where
  "channel_ok \<sigma> p q ch \<longleftrightarrow> rc_local_id ch = p \<and> fl_self (rc_fair_loss ch) = q \<and>
     (\<forall>x\<in>set (fl_outgoing_packets (rc_fair_loss ch)). pkt_ok \<sigma> p q x) \<and>
     rc_delivered ch = {i. \<exists>m. (p, q, i, m) \<in> set (rs_delivered \<sigma>)} \<and>
     (\<forall>i e. rc_message_entries ch i = Some e \<longrightarrow> entry_ok \<sigma> p q i e)"

definition transport_ok :: "rel_system \<Rightarrow> PeerID \<Rightarrow> ReliableTransport \<Rightarrow> bool" where
  "transport_ok \<sigma> p rt \<longleftrightarrow> LocalID (rt_hosts rt) = p \<and>
     (\<forall>q ch. rt_channels rt q = Some ch \<longrightarrow> channel_ok \<sigma> p q ch) \<and>
     wheel_ok (sh_timers (rt_shared rt)) \<and>
     (\<forall>b\<in>backoffs (sh_timers (rt_shared rt)). pkt_ok \<sigma> p (brt_channel b) (brt_packet b)) \<and>
     sh_message_id (rt_shared rt) = of_nat (rs_drawn \<sigma> p) \<and> rs_drawn \<sigma> p \<le> 2 ^ 32 \<and>
     (\<forall>q i m c. rs_sent \<sigma> p q i = Some (m, c) \<longrightarrow> unat i < rs_drawn \<sigma> p \<and> c < sh_contracts (rt_shared rt))"

definition log_ok :: "rel_system \<Rightarrow> bool" where
  "log_ok \<sigma> \<longleftrightarrow>
     distinct (map (\<lambda>(d, s, i, m). (d, s, i)) (rs_delivered \<sigma>)) \<and>
     (\<forall>d s i m. (d, s, i, m) \<in> set (rs_delivered \<sigma>) \<longrightarrow> (\<exists>c. rs_sent \<sigma> s d i = Some (m, c))) \<and>
     distinct (rs_fulfilled \<sigma>) \<and>
     (\<forall>s c. (s, c) \<in> set (rs_fulfilled \<sigma>) \<longrightarrow> (\<exists>d i m. rs_sent \<sigma> s d i = Some (m, c) \<and> (d, s, i, m) \<in> set (rs_delivered \<sigma>))) \<and>
     (\<forall>s d i m c d' i' m'. rs_sent \<sigma> s d i = Some (m, c) \<longrightarrow> rs_sent \<sigma> s d' i' = Some (m', c) \<longrightarrow> d = d' \<and> i = i')"

definition rs_inv :: "rel_system \<Rightarrow> bool" where
  "rs_inv \<sigma> \<longleftrightarrow> (\<forall>p. transport_ok \<sigma> p (rs_nodes \<sigma> p)) \<and> log_ok \<sigma> \<and>
     (\<forall>(s, d, b)\<in>rs_net \<sigma>. \<exists>p. b = Packet_image p \<and> pkt_ok \<sigma> s d p)"

section \<open>Growing histories\<close>

definition grows :: "rel_system \<Rightarrow> rel_system \<Rightarrow> bool" where
  "grows \<sigma> \<tau> \<longleftrightarrow> (\<forall>s d i x. rs_sent \<sigma> s d i = Some x \<longrightarrow> rs_sent \<tau> s d i = Some x) \<and>
     set (rs_delivered \<sigma>) \<subseteq> set (rs_delivered \<tau>)"

lemma pkt_ok_grows: "pkt_ok \<sigma> s d p \<Longrightarrow> grows \<sigma> \<tau> \<Longrightarrow> pkt_ok \<tau> s d p"
  unfolding pkt_ok_def grows_def by blast

text \<open>What a process sees of the histories: its own sends, its promises and what it delivered.\<close>

definition same_view :: "PeerID \<Rightarrow> rel_system \<Rightarrow> rel_system \<Rightarrow> bool" where
  "same_view p \<sigma> \<tau> \<longleftrightarrow> rs_sent \<tau> p = rs_sent \<sigma> p \<and> rs_drawn \<tau> p = rs_drawn \<sigma> p \<and>
     (\<forall>c. (p, c) \<in> set (rs_fulfilled \<tau>) \<longleftrightarrow> (p, c) \<in> set (rs_fulfilled \<sigma>)) \<and>
     (\<forall>x. (p, x) \<in> set (rs_delivered \<tau>) \<longleftrightarrow> (p, x) \<in> set (rs_delivered \<sigma>))"

lemma channel_ok_view:
  assumes "channel_ok \<sigma> p q ch" and "grows \<sigma> \<tau>"
    and "\<And>c. (p, c) \<in> set (rs_fulfilled \<tau>) \<longleftrightarrow> (p, c) \<in> set (rs_fulfilled \<sigma>)"
    and "\<And>x. (p, x) \<in> set (rs_delivered \<tau>) \<longleftrightarrow> (p, x) \<in> set (rs_delivered \<sigma>)"
  shows "channel_ok \<tau> p q ch"
proof -
  have "entry_ok \<tau> p q i e" if "entry_ok \<sigma> p q i e" for i e
    using that assms(2,3) unfolding entry_ok_def grows_def by blast
  then show ?thesis using assms(1,4) pkt_ok_grows [OF _ assms(2)] unfolding channel_ok_def by auto
qed

lemma transport_ok_view:
  assumes "transport_ok \<sigma> p rt" and "grows \<sigma> \<tau>" and "same_view p \<sigma> \<tau>"
  shows "transport_ok \<tau> p rt"
  using assms(1,3) channel_ok_view [OF _ assms(2)] pkt_ok_grows [OF _ assms(2)]
  unfolding transport_ok_def same_view_def by auto

text \<open>The part of the state that the invariant of a process is about.\<close>

lemma transport_ok_cong:
  assumes "transport_ok \<sigma> p rt" and "rt_hosts rt' = rt_hosts rt" and "rt_channels rt' = rt_channels rt"
    and "rt_shared rt' = rt_shared rt"
  shows "transport_ok \<sigma> p rt'"
  using assms by (simp add: transport_ok_def)

lemma transport_ok_channel:
  assumes "transport_ok \<sigma> p rt" and "channel_ok \<sigma> p q ch" and "wheel_ok ts"
    and "\<forall>b\<in>backoffs ts. pkt_ok \<sigma> p (brt_channel b) (brt_packet b)"
  shows "transport_ok \<sigma> p (rt\<lparr>rt_channels := (rt_channels rt)(q \<mapsto> ch), rt_shared := (rt_shared rt)\<lparr>sh_timers := ts\<rparr>\<rparr>)"
  using assms by (simp add: transport_ok_def)

lemma channel_ok_DoSend:
  assumes "channel_ok \<sigma> p q ch" and "pkt_ok \<sigma> p q x"
  shows "channel_ok \<sigma> p q (DoSend x ch)"
proof -
  have "fl_self (FairLoss_Send x fl) = fl_self fl" for fl by (simp add: FairLoss_Send_def Set_Insert_def Let_def)
  then show ?thesis using assms FairLoss_Send_packets [of x "rc_fair_loss ch"] by (auto simp: channel_ok_def DoSend_def)
qed

lemma channel_ok_credits: "channel_ok \<sigma> p q ch \<Longrightarrow> channel_ok \<sigma> p q (RC_AddSendCredits n ch)"
  by (simp add: channel_ok_def RC_AddSendCredits_def AddSendCredits_def)

section \<open>Steps that add nothing to the histories\<close>

lemma write_keeps:
  assumes "Transport_Write R ws type q rt = Inr (sent, rt')" and ok: "transport_ok \<sigma> p rt"
  shows "transport_ok \<sigma> p rt' \<and> (\<forall>b\<in>set sent. \<exists>x. b = Packet_image x \<and> pkt_ok \<sigma> p q x)"
proof -
  obtain ch r fl ts where ch: "rt_channels rt q = Some ch"
    and h: "WriteEventHandler_Handle R ws type (rc_fair_loss ch) (sh_timers (rt_shared rt)) = Inr (r, sent, fl, ts)"
    and rt': "rt' = rt\<lparr>rt_channels := (rt_channels rt)(q \<mapsto> ch\<lparr>rc_fair_loss := fl\<rparr>), rt_shared := (rt_shared rt)\<lparr>sh_timers := ts\<rparr>\<rparr>"
    using assms(1) by (auto simp: Transport_Write_def fbind_eq_Inr split: option.splits)
  have w: "writes_from_queue (rc_fair_loss ch) (sh_timers (rt_shared rt)) sent fl ts"
    using Handle_writes [OF h] ok by (simp add: transport_ok_def)
  have old: "channel_ok \<sigma> p q ch" using ok ch by (simp add: transport_ok_def)
  then have "channel_ok \<sigma> p q (ch\<lparr>rc_fair_loss := fl\<rparr>)" using w by (auto simp: channel_ok_def writes_from_queue_def)
  then have "transport_ok \<sigma> p rt'"
    unfolding rt' using ok w by (intro transport_ok_channel) (auto simp: writes_from_queue_def transport_ok_def)
  moreover have "\<exists>x. b = Packet_image x \<and> pkt_ok \<sigma> p q x" if "b \<in> set sent" for b
    using w old that unfolding writes_from_queue_def channel_ok_def by blast
  ultimately show ?thesis by blast
qed

lemma fire_keeps:
  assumes "fire_timers R timers rt = Inr rt'" and "transport_ok \<sigma> p rt"
    and "\<forall>t\<in>set timers. \<forall>b. tm_object t = BackoffTimer b \<longrightarrow> pkt_ok \<sigma> p (brt_channel b) (brt_packet b)"
  shows "transport_ok \<sigma> p rt'"
  using assms
proof (induction timers arbitrary: rt)
  case Nil
  then show ?case by simp
next
  case (Cons t timers)
  show ?case
  proof (cases "tm_object t")
    case (RetryFunction c h)
    then show ?thesis using Cons by simp
  next
    case (BackoffTimer b)
    let ?b = "b\<lparr>brt_retry_policy := Next R (brt_retry_policy b)\<rparr>" and ?q = "brt_channel b"
    let ?chs = "retry_packet ?q (brt_packet b) (rt_channels rt)"
    have pkt: "pkt_ok \<sigma> p ?q (brt_packet b)" using Cons.prems(3) BackoffTimer by simp
    obtain ts where re: "BackoffRetryTimer_Rearm (tm_id t) ?b (sh_timers (rt_shared rt)) = Inr ts"
      and rest: "fire_timers R timers (rt\<lparr>rt_channels := ?chs, rt_shared := (rt_shared rt)\<lparr>sh_timers := ts\<rparr>\<rparr>) = Inr rt'"
      using Cons.prems(1) BackoffTimer by (auto simp: BackoffRetryTimer_Fire_def fbind_eq_Inr Let_def)
    have wheel: "wheel_ok (sh_timers (rt_shared rt))" using Cons.prems(2) by (simp add: transport_ok_def)
    have "wheel_ok ts \<and> backoffs ts \<subseteq> insert ?b (backoffs (sh_timers (rt_shared rt)))"
      using re AddTimer_id_backoffs [OF _ wheel, of ?b] wheel by (auto simp: BackoffRetryTimer_Rearm_def Let_def split: if_splits)
    moreover have "\<forall>q ch. ?chs q = Some ch \<longrightarrow> channel_ok \<sigma> p q ch"
      using Cons.prems(2) pkt
      by (auto simp: retry_packet_def BackoffRetryCallback_def transport_ok_def intro!: channel_ok_DoSend channel_ok_credits)
    ultimately have "transport_ok \<sigma> p (rt\<lparr>rt_channels := ?chs, rt_shared := (rt_shared rt)\<lparr>sh_timers := ts\<rparr>\<rparr>)"
      using Cons.prems(2) pkt by (fastforce simp: transport_ok_def)
    then show ?thesis using Cons.IH [OF rest] Cons.prems(3) by simp
  qed
qed

lemma tick_keeps:
  assumes "Transport_Tick R e rt = Inr rt'" and ok: "transport_ok \<sigma> p rt"
  shows "transport_ok \<sigma> p rt'"
proof -
  obtain cancelled fired ts where t: "Tick e (sh_timers (rt_shared rt)) = (cancelled, fired, ts)" by (cases "Tick e (sh_timers (rt_shared rt))")
  have wheel: "wheel_ok (sh_timers (rt_shared rt))" using ok by (simp add: transport_ok_def)
  note tick = timer_set_Tick [OF wheel t]
  have "transport_ok \<sigma> p (rt\<lparr>rt_shared := (rt_shared rt)\<lparr>sh_timers := ts\<rparr>\<rparr>)"
    using ok tick(1,2) by (auto simp: transport_ok_def backoffs_def)
  moreover have "\<forall>t\<in>set fired. \<forall>b. tm_object t = BackoffTimer b \<longrightarrow> pkt_ok \<sigma> p (brt_channel b) (brt_packet b)"
    using tick(3) ok by (force simp: transport_ok_def backoffs_def image_subset_iff)
  ultimately show ?thesis using assms(1) fire_keeps by (simp add: Transport_Tick_def t)
qed

section \<open>How an operation changes the invariant\<close>

text \<open>A process replaces one channel and its shared state while the histories grow.\<close>

lemma transport_ok_update:
  assumes "transport_ok \<sigma> p rt" and "rt_hosts rt' = rt_hosts rt" and "rt_channels rt' = (rt_channels rt)(q \<mapsto> ch)"
    and "channel_ok \<tau> p q ch" and "\<And>q' ch'. q' \<noteq> q \<Longrightarrow> channel_ok \<sigma> p q' ch' \<Longrightarrow> channel_ok \<tau> p q' ch'"
    and "wheel_ok (sh_timers (rt_shared rt'))"
    and "\<And>b. b \<in> backoffs (sh_timers (rt_shared rt')) \<Longrightarrow> pkt_ok \<tau> p (brt_channel b) (brt_packet b)"
    and "sh_message_id (rt_shared rt') = of_nat (rs_drawn \<tau> p)" and "rs_drawn \<tau> p \<le> 2 ^ 32"
    and "\<And>q i m c. rs_sent \<tau> p q i = Some (m, c) \<Longrightarrow> unat i < rs_drawn \<tau> p \<and> c < sh_contracts (rt_shared rt')"
  shows "transport_ok \<tau> p rt'"
  unfolding transport_ok_def
proof (intro conjI allI impI ballI)
  fix q' ch' assume "rt_channels rt' q' = Some ch'"
  then show "channel_ok \<tau> p q' ch'" using assms(1,3-5) by (auto simp: transport_ok_def split: if_splits)
next
  show "LocalID (rt_hosts rt') = p" using assms(1,2) by (simp add: transport_ok_def)
qed (use assms(6-10) in blast)+

lemma log_ok_sent:
  assumes log: "log_ok \<sigma>" and "rs_delivered \<tau> = rs_delivered \<sigma>" and "rs_fulfilled \<tau> = rs_fulfilled \<sigma>"
    and sent: "\<And>s d j y. rs_sent \<tau> s d j = Some y \<longleftrightarrow> s = p \<and> d = q \<and> j = i \<and> y = (m, c) \<or> rs_sent \<sigma> s d j = Some y"
    and fresh: "\<And>d j m'. rs_sent \<sigma> p d j \<noteq> Some (m', c)"
  shows "log_ok \<tau>"
  using assms unfolding log_ok_def sent by simp blast

lemma log_ok_delivered:
  assumes log: "log_ok \<sigma>" and "rs_sent \<tau> = rs_sent \<sigma>" and "rs_fulfilled \<tau> = rs_fulfilled \<sigma>"
    and "rs_delivered \<tau> = rs_delivered \<sigma> @ xs"
    and "xs = [] \<or> xs = [(d, s, i, m)] \<and> (\<forall>m'. (d, s, i, m') \<notin> set (rs_delivered \<sigma>)) \<and> rs_sent \<sigma> s d i = Some (m, c)"
  shows "log_ok \<tau>"
proof -
  have "distinct (map (\<lambda>(d, s, i, m). (d, s, i)) (rs_delivered \<tau>))"
    using assms by (auto simp: log_ok_def)
  moreover have "\<exists>c. rs_sent \<sigma> s' d' i' = Some (m', c)" if "(d', s', i', m') \<in> set (rs_delivered \<tau>)" for d' s' i' m'
    using that assms(4,5) log unfolding log_ok_def by (auto; blast)
  moreover have "\<exists>d i m. rs_sent \<sigma> s' d i = Some (m, c') \<and> (d, s', i, m) \<in> set (rs_delivered \<tau>)"
    if "(s', c') \<in> set (rs_fulfilled \<sigma>)" for s' c'
  proof -
    from that log obtain d' i' m' where "rs_sent \<sigma> s' d' i' = Some (m', c')" "(d', s', i', m') \<in> set (rs_delivered \<sigma>)"
      unfolding log_ok_def by metis
    then show ?thesis using assms(4) by auto
  qed
  ultimately show ?thesis using log unfolding log_ok_def assms(2,3) by blast
qed

lemma log_ok_fulfilled:
  assumes log: "log_ok \<sigma>" and "rs_sent \<tau> = rs_sent \<sigma>" and "rs_delivered \<tau> = rs_delivered \<sigma>"
    and ful: "rs_fulfilled \<tau> = rs_fulfilled \<sigma> @ map (Pair p) cs" and "distinct cs"
    and new: "\<And>c. c \<in> set cs \<Longrightarrow> (p, c) \<notin> set (rs_fulfilled \<sigma>) \<and> rs_sent \<sigma> p d i = Some (m, c) \<and> (d, p, i, m) \<in> set (rs_delivered \<sigma>)"
  shows "log_ok \<tau>"
proof -
  have "distinct (rs_fulfilled \<tau>)"
    using log new assms(5) by (auto simp: log_ok_def ful distinct_map inj_on_def)
  moreover have "\<exists>d i m. rs_sent \<sigma> s d i = Some (m, c) \<and> (d, s, i, m) \<in> set (rs_delivered \<sigma>)"
    if "(s, c) \<in> set (rs_fulfilled \<tau>)" for s c
  proof (cases "(s, c) \<in> set (rs_fulfilled \<sigma>)")
    case True
    then show ?thesis using log unfolding log_ok_def by metis
  next
    case False
    then have "s = p" "c \<in> set cs" using that by (auto simp: ful)
    then show ?thesis using new by blast
  qed
  ultimately show ?thesis using log unfolding log_ok_def assms(2,3) by blast
qed

section \<open>Sending\<close>

lemma RC_Send_effect:
  assumes "RC_Send m ch sh = Inr (c, ch', sh')" and "wheel_ok (sh_timers sh)"
  obtains e x b where "c = sh_contracts sh"
    and "x = \<lparr>pkt_type = kPayloadMessage, pkt_id = sh_message_id sh, pkt_source = rc_local_id ch, pkt_message = m\<rparr>"
    and "me_promise e = c" and "ch' = DoSend x (ch\<lparr>rc_message_entries := Map_Set (sh_message_id sh) e (rc_message_entries ch)\<rparr>)"
    and "sh_message_id sh' = sh_message_id sh + 1" and "sh_contracts sh' = Suc c"
    and "wheel_ok (sh_timers sh')" and "backoffs (sh_timers sh') \<subseteq> insert b (backoffs (sh_timers sh))"
    and "brt_channel b = fl_self (rc_fair_loss ch)" and "brt_packet b = x"
proof -
  let ?e = "\<lparr>me_timer_id = ts_current_id (sh_timers sh), me_promise = sh_contracts sh, me_credits = 1\<rparr>"
  let ?x = "\<lparr>pkt_type = kPayloadMessage, pkt_id = sh_message_id sh, pkt_source = rc_local_id ch, pkt_message = m\<rparr>"
  let ?b = "\<lparr>brt_channel = fl_self (rc_fair_loss ch), brt_packet = ?x, brt_retry_policy = rc_retry_policy ch\<rparr>"
  let ?ts = "(sh_timers sh)\<lparr>ts_current_id := ts_current_id (sh_timers sh) + 1\<rparr>"
  have "wheel_ok ?ts" "backoffs ?ts = backoffs (sh_timers sh)"
    using assms(2) by (simp_all add: wheel_ok_def backoffs_def timer_set_def)
  moreover obtain ts where "AddTimer_id (BackoffTimer ?b) (ts_current_id (sh_timers sh)) (GetTimeout (rc_retry_policy ch)) ?ts = Inr ts"
    and r: "c = sh_contracts sh" "ch' = DoSend ?x (ch\<lparr>rc_message_entries := Map_Set (sh_message_id sh) ?e (rc_message_entries ch)\<rparr>)"
      "sh' = \<lparr>sh_timers = ts, sh_message_id = sh_message_id sh + 1, sh_contracts = Suc (sh_contracts sh)\<rparr>"
    using assms(1) by (auto simp: RC_Send_def GetID_def UniqueID_Get_def CreatePacket_def Let_def fbind_eq_Inr)
  ultimately show thesis
    using AddTimer_id_backoffs [of ?b _ _ ?ts ts] that [of ?x ?e ?b] by simp
qed

lemma unat_next_id:
  assumes "transport_ok \<sigma> p (rs_nodes \<sigma> p)" and "rs_drawn \<sigma> p < 2 ^ 32"
  shows "unat (next_id \<sigma> p) = rs_drawn \<sigma> p" and "rs_sent \<sigma> p q (next_id \<sigma> p) = None"
proof -
  show id: "unat (next_id \<sigma> p) = rs_drawn \<sigma> p" using assms by (simp add: transport_ok_def unat_of_nat)
  show "rs_sent \<sigma> p q (next_id \<sigma> p) = None"
  proof (rule ccontr)
    assume "rs_sent \<sigma> p q (next_id \<sigma> p) \<noteq> None"
    then obtain m c where "rs_sent \<sigma> p q (next_id \<sigma> p) = Some (m, c)" by auto
    then have "unat (next_id \<sigma> p) < rs_drawn \<sigma> p" using assms(1) unfolding transport_ok_def by blast
    then show False by (simp add: id)
  qed
qed

lemma Transport_Send_effect:
  assumes "Transport_Send q m rt = Inr (Some c, rt')"
  obtains ch ch' sh where "rt_channels rt q = Some ch" and "RC_Send m ch (rt_shared rt) = Inr (c, ch', sh)"
    and "rt' = rt\<lparr>rt_channels := (rt_channels rt)(q \<mapsto> ch'), rt_shared := sh\<rparr>"
  using assms by (auto simp: Transport_Send_def fbind_eq_Inr split: if_splits option.splits)

lemma after_send_grows:
  assumes "rs_inv \<sigma>" and "rs_drawn \<sigma> p < 2 ^ 32"
  shows "grows \<sigma> (after_send p q m c rt \<sigma>)"
  using unat_next_id(2) [of \<sigma> p] assms by (auto simp: rs_inv_def grows_def after_send_def)

text \<open>The contract of a send is new: nothing that was sent before uses it, and it has not been fulfilled.\<close>

lemma contract_fresh:
  assumes "rs_inv \<sigma>" and "c = sh_contracts (rt_shared (rs_nodes \<sigma> p))"
  shows "rs_sent \<sigma> p d i = Some (m, c') \<Longrightarrow> c' < c" and "(p, c) \<notin> set (rs_fulfilled \<sigma>)"
proof -
  show old: "c' < c" if "rs_sent \<sigma> p d i = Some (m, c')" for d i m c'
    using assms that unfolding rs_inv_def transport_ok_def by blast
  show "(p, c) \<notin> set (rs_fulfilled \<sigma>)"
  proof
    assume "(p, c) \<in> set (rs_fulfilled \<sigma>)"
    then obtain d i m' where "rs_sent \<sigma> p d i = Some (m', c)" using assms(1) unfolding rs_inv_def log_ok_def by blast
    then show False using old by blast
  qed
qed

lemma send_transport_ok:
  assumes send: "Transport_Send q m (rs_nodes \<sigma> p) = Inr (Some c, rt)" and drawn: "rs_drawn \<sigma> p < 2 ^ 32" and inv: "rs_inv \<sigma>"
  shows "transport_ok (after_send p q m c rt \<sigma>) p rt" and "c = sh_contracts (rt_shared (rs_nodes \<sigma> p))"
proof -
  let ?\<tau> = "after_send p q m c rt \<sigma>" and ?rt = "rs_nodes \<sigma> p" and ?i = "next_id \<sigma> p"
  have ok: "transport_ok \<sigma> p ?rt" using inv by (simp add: rs_inv_def)
  have wheel: "wheel_ok (sh_timers (rt_shared ?rt))" using ok by (simp add: transport_ok_def)
  note up = after_send_grows [OF inv drawn, of q m c rt]
  obtain ch ch' sh where ch: "rt_channels ?rt q = Some ch" "RC_Send m ch (rt_shared ?rt) = Inr (c, ch', sh)"
    and rt: "rt = ?rt\<lparr>rt_channels := (rt_channels ?rt)(q \<mapsto> ch'), rt_shared := sh\<rparr>"
    using Transport_Send_effect [OF send] by metis
  obtain e x b where s: "c = sh_contracts (rt_shared ?rt)"
    "x = \<lparr>pkt_type = kPayloadMessage, pkt_id = ?i, pkt_source = rc_local_id ch, pkt_message = m\<rparr>"
    "me_promise e = c" "ch' = DoSend x (ch\<lparr>rc_message_entries := Map_Set ?i e (rc_message_entries ch)\<rparr>)"
    "sh_message_id sh = ?i + 1" "sh_contracts sh = Suc c" "wheel_ok (sh_timers sh)"
    "backoffs (sh_timers sh) \<subseteq> insert b (backoffs (sh_timers (rt_shared ?rt)))"
    "brt_channel b = fl_self (rc_fair_loss ch)" "brt_packet b = x"
    using RC_Send_effect [OF ch(2) wheel] by metis
  show "c = sh_contracts (rt_shared ?rt)" by (rule s(1))
  have old: "channel_ok \<sigma> p q ch" using ok ch(1) by (simp add: transport_ok_def)
  then have here: "rc_local_id ch = p" "fl_self (rc_fair_loss ch) = q" by (simp_all add: channel_ok_def)
  have x: "pkt_ok ?\<tau> p q x" by (simp add: pkt_ok_def s(2) here after_send_def)
  have ch_up: "channel_ok ?\<tau> p q' ch''" if "channel_ok \<sigma> p q' ch''" for q' ch''
    using channel_ok_view [OF that up] by (simp add: after_send_def)
  have "entry_ok ?\<tau> p q ?i e" using contract_fresh(2) [OF inv s(1)] by (simp add: entry_ok_def s(3) after_send_def)
  then have "channel_ok ?\<tau> p q (ch\<lparr>rc_message_entries := Map_Set ?i e (rc_message_entries ch)\<rparr>)"
    using ch_up [OF old] by (auto simp: channel_ok_def Map_Set_def split: option.splits if_splits)
  then have ch': "channel_ok ?\<tau> p q ch'" unfolding s(4) using x by (rule channel_ok_DoSend)
  have drawn': "rs_drawn ?\<tau> p = Suc (rs_drawn \<sigma> p)" by (simp add: after_send_def)
  show "transport_ok ?\<tau> p rt"
  proof (rule transport_ok_update [OF ok _ _ ch' ch_up])
    fix b' assume "b' \<in> backoffs (sh_timers (rt_shared rt))"
    then have "b' = b \<or> b' \<in> backoffs (sh_timers (rt_shared ?rt))" using s(8) by (auto simp: rt)
    then show "pkt_ok ?\<tau> p (brt_channel b') (brt_packet b')"
      using x s(9,10) here(2) ok pkt_ok_grows [OF _ up] by (auto simp: transport_ok_def)
  next
    fix q' i' m' c' assume sent: "rs_sent ?\<tau> p q' i' = Some (m', c')"
    then have "unat i' \<le> rs_drawn \<sigma> p \<and> c' \<le> c"
      using ok unat_next_id(1) [OF ok drawn] contract_fresh(1) [OF inv s(1)] unfolding transport_ok_def
      by (auto simp: after_send_def split: if_splits intro: less_imp_le)
    then show "unat i' < rs_drawn ?\<tau> p \<and> c' < sh_contracts (rt_shared rt)" unfolding drawn' by (simp add: s(6) rt)
  qed (use ok s(5,7) drawn in \<open>simp_all add: rt after_send_def transport_ok_def\<close>)
qed

lemma send_keeps:
  assumes send: "Transport_Send q m (rs_nodes \<sigma> p) = Inr (Some c, rt)" and drawn: "rs_drawn \<sigma> p < 2 ^ 32" and inv: "rs_inv \<sigma>"
  shows "rs_inv (after_send p q m c rt \<sigma>)"
proof -
  let ?\<tau> = "after_send p q m c rt \<sigma>"
  note up = after_send_grows [OF inv drawn, of q m c rt] and node = send_transport_ok [OF send drawn inv]
  have ok: "transport_ok \<sigma> p' (rs_nodes \<sigma> p')" for p' using inv by (simp add: rs_inv_def)
  have "transport_ok ?\<tau> p' (rs_nodes ?\<tau> p')" if "p' \<noteq> p" for p'
    using transport_ok_view [OF ok up, of p'] that by (simp add: same_view_def after_send_def)
  then have "transport_ok ?\<tau> p' (rs_nodes ?\<tau> p')" for p'
    using node(1) by (cases "p' = p") (simp_all add: after_send_def)
  moreover have "log_ok ?\<tau>"
  proof (rule log_ok_sent [of \<sigma> ?\<tau> p q "next_id \<sigma> p" m c])
    show "log_ok \<sigma>" using inv by (simp add: rs_inv_def)
    show "rs_sent ?\<tau> s d j = Some y \<longleftrightarrow> s = p \<and> d = q \<and> j = next_id \<sigma> p \<and> y = (m, c) \<or> rs_sent \<sigma> s d j = Some y" for s d j y
      using unat_next_id(2) [OF ok drawn] by (auto simp: after_send_def)
    show "rs_sent \<sigma> p d j \<noteq> Some (m', c)" for d j m' using contract_fresh(1) [OF inv node(2), of d j m' c] by blast
  qed (simp_all add: after_send_def)
  ultimately show ?thesis using inv pkt_ok_grows [OF _ up] unfolding rs_inv_def by (fastforce simp: after_send_def)
qed

section \<open>Receiving\<close>

lemma batch_callbacks_frame [simp]:
  "rt_hosts (batch_callbacks es rt) = rt_hosts rt" "rt_channels (batch_callbacks es rt) = rt_channels rt"
  "rt_shared (batch_callbacks es rt) = rt_shared rt"
  by (induction es rt rule: batch_callbacks.induct) (simp_all add: AddPacket_def)

lemma HandlePayloadMessage_effect:
  assumes "HandlePayloadMessage w x ch sh = Inr (ch', sh', es)"
  obtains a where "pkt_source a = rc_local_id ch" and "pkt_type a = kAckMessage"
    and "AckMessage_Unmarshal (pkt_message a) = Some \<lparr>acks = [pkt_id x]\<rparr>"
    and "sh' = sh\<lparr>sh_message_id := sh_message_id sh + 1\<rparr>"
    and "ch' = DoSend a (ch\<lparr>rc_delivered := insert (pkt_id x) (rc_delivered ch)\<rparr>) \<and> written es = {} \<or>
      ch' = ch\<lparr>rc_delivered := insert (pkt_id x) (rc_delivered ch)\<rparr> \<and> written es = {Packet_image a}"
    and "handed_on es = (if pkt_id x \<in> rc_delivered ch then [] else [(pkt_id x, pkt_message x)])" and "fulfilled es = []"
proof -
  let ?ch = "ch\<lparr>rc_delivered := insert (pkt_id x) (rc_delivered ch)\<rparr>"
  obtain payload where payload: "marshal_fresh AckMessage_Size AckMessage_MarshalExtract \<lparr>acks = [pkt_id x]\<rparr> = Some payload"
    using ack_bytes by fastforce
  let ?a = "CreatePacket payload kAckMessage (sh_message_id sh) ?ch"
  obtain status where status: "UDPSocket_Write w = Inr status"
    and r: "sh' = sh\<lparr>sh_message_id := sh_message_id sh + 1\<rparr>"
      "ch' = (if status = kConnRefused \<or> status = kWouldBlock then DoSend ?a ?ch else ?ch)"
      "es = (if status = kConnRefused \<or> status = kWouldBlock then [] else [RCWrite (Packet_image ?a)]) @
        (if pkt_id x \<notin> rc_delivered ch then [RCCallback x] else [])"
    using assms by (auto simp: HandlePayloadMessage_def payload packet_bytes UniqueID_Get_def Let_def fbind_eq_Inr)
  have "pkt_source ?a = rc_local_id ch" "pkt_type ?a = kAckMessage"
    "AckMessage_Unmarshal (pkt_message ?a) = Some \<lparr>acks = [pkt_id x]\<rparr>"
    using ack_roundtrip [OF payload] by (simp_all add: CreatePacket_def)
  then show thesis using r by (intro that [of ?a]) auto
qed

text \<open>What is left to show of a step that only adds deliveries, fulfilments and datagrams of one process.\<close>

lemma after_read_inv:
  assumes inv: "rs_inv \<sigma>" and node: "transport_ok (after_read d s rt es \<sigma>) d rt" and log: "log_ok (after_read d s rt es \<sigma>)"
    and net: "\<forall>b\<in>written es. \<exists>p. b = Packet_image p \<and> pkt_ok (after_read d s rt es \<sigma>) d s p"
  shows "rs_inv (after_read d s rt es \<sigma>)"
proof -
  let ?\<tau> = "after_read d s rt es \<sigma>"
  have up: "grows \<sigma> ?\<tau>" by (simp add: grows_def after_read_def)
  have "transport_ok ?\<tau> p (rs_nodes ?\<tau> p)" for p
  proof (cases "p = d")
    case True
    then show ?thesis using node by (simp add: after_read_def)
  next
    case False
    then have "same_view p \<sigma> ?\<tau>" by (auto simp: same_view_def after_read_def)
    then show ?thesis
      using transport_ok_view [OF _ up, of p "rs_nodes \<sigma> p"] inv False by (simp add: rs_inv_def after_read_def)
  qed
  moreover have "\<exists>p. b = Packet_image p \<and> pkt_ok ?\<tau> s' d' p" if "(s', d', b) \<in> rs_net ?\<tau>" for s' d' b
  proof (cases "(s', d', b) \<in> rs_net \<sigma>")
    case True
    then show ?thesis using inv pkt_ok_grows [OF _ up] unfolding rs_inv_def by blast
  next
    case False
    then show ?thesis using that net by (auto simp: after_read_def)
  qed
  ultimately show ?thesis using log unfolding rs_inv_def by blast
qed

lemma read_payload_keeps:
  assumes inv: "rs_inv \<sigma>" and ch: "rt_channels (rs_nodes \<sigma> d) s = Some ch"
    and h: "HandlePayloadMessage w x ch (rt_shared (rs_nodes \<sigma> d)) = Inr (ch', sh, es)"
    and x: "pkt_ok \<sigma> s d x" "pkt_type x = kPayloadMessage" and drawn: "rs_drawn \<sigma> d < 2 ^ 32"
    and rt: "rt_hosts rt = rt_hosts (rs_nodes \<sigma> d)" "rt_channels rt = (rt_channels (rs_nodes \<sigma> d))(s \<mapsto> ch')" "rt_shared rt = sh"
  shows "rs_inv (after_read d s rt es \<sigma>)"
proof -
  let ?\<tau> = "after_read d s rt es \<sigma>" and ?rt = "rs_nodes \<sigma> d" and ?i = "pkt_id x"
  have ok: "transport_ok \<sigma> d ?rt" using inv by (simp add: rs_inv_def)
  have old: "channel_ok \<sigma> d s ch" using ok ch by (simp add: transport_ok_def)
  have delivered: "rc_delivered ch = {i. \<exists>m. (d, s, i, m) \<in> set (rs_delivered \<sigma>)}" using old by (simp add: channel_ok_def)
  obtain a where a: "pkt_source a = rc_local_id ch" "pkt_type a = kAckMessage"
      "AckMessage_Unmarshal (pkt_message a) = Some \<lparr>acks = [?i]\<rparr>"
    and sh: "sh = (rt_shared ?rt)\<lparr>sh_message_id := next_id \<sigma> d + 1\<rparr>"
    and ch': "ch' = DoSend a (ch\<lparr>rc_delivered := insert ?i (rc_delivered ch)\<rparr>) \<and> written es = {} \<or>
      ch' = ch\<lparr>rc_delivered := insert ?i (rc_delivered ch)\<rparr> \<and> written es = {Packet_image a}"
    and hand: "handed_on es = (if ?i \<in> rc_delivered ch then [] else [(?i, pkt_message x)])" and ful: "fulfilled es = []"
    using HandlePayloadMessage_effect [OF h] by metis
  obtain c where c: "rs_sent \<sigma> s d ?i = Some (pkt_message x, c)"
    using x by (auto simp: pkt_ok_def kPayloadMessage_def kAckMessage_def)
  have up: "grows \<sigma> ?\<tau>" by (simp add: grows_def after_read_def)
  have del: "set (rs_delivered ?\<tau>) = (if ?i \<in> rc_delivered ch then set (rs_delivered \<sigma>) else insert (d, s, ?i, pkt_message x) (set (rs_delivered \<sigma>)))"
    by (simp add: after_read_def hand)
  have mine: "\<exists>m. (d, s, ?i, m) \<in> set (rs_delivered ?\<tau>)" using delivered by (auto simp: del)
  have a_ok: "pkt_ok ?\<tau> d s a" using a mine old by (auto simp: pkt_ok_def channel_ok_def)
  have entries: "entry_ok ?\<tau> p q i e = entry_ok \<sigma> p q i e" for p q i e by (simp add: entry_ok_def after_read_def ful)
  have others: "channel_ok ?\<tau> d q ch''" if "channel_ok \<sigma> d q ch''" and "q \<noteq> s" for q ch''
    using that pkt_ok_grows [OF _ up] unfolding channel_ok_def entries del by auto
  have "channel_ok ?\<tau> d s (ch\<lparr>rc_delivered := insert ?i (rc_delivered ch)\<rparr>)"
    using old delivered pkt_ok_grows [OF _ up] unfolding channel_ok_def entries del by auto
  then have new: "channel_ok ?\<tau> d s ch'" using ch' channel_ok_DoSend [OF _ a_ok] by auto
  have id: "rs_drawn ?\<tau> d = Suc (rs_drawn \<sigma> d)" by (simp add: after_read_def rt sh)
  have "transport_ok ?\<tau> d rt"
  proof (rule transport_ok_update [OF ok rt(1,2) new])
    fix b assume "b \<in> backoffs (sh_timers (rt_shared rt))"
    then show "pkt_ok ?\<tau> d (brt_channel b) (brt_packet b)"
      using ok pkt_ok_grows [OF _ up] by (auto simp: rt sh transport_ok_def)
  next
    fix q i m c' assume "rs_sent ?\<tau> d q i = Some (m, c')"
    then have "rs_sent \<sigma> d q i = Some (m, c')" by (simp add: after_read_def)
    then have "unat i < rs_drawn \<sigma> d" "c' < sh_contracts (rt_shared ?rt)" using ok unfolding transport_ok_def by blast+
    then show "unat i < rs_drawn ?\<tau> d \<and> c' < sh_contracts (rt_shared rt)" by (simp add: id rt sh)
  qed (use ok drawn others in \<open>simp_all add: rt sh transport_ok_def id\<close>)
  moreover have "log_ok ?\<tau>"
  proof (rule log_ok_delivered [of \<sigma> ?\<tau> _ d s ?i "pkt_message x" c])
    show "log_ok \<sigma>" using inv by (simp add: rs_inv_def)
    show "rs_delivered ?\<tau> = rs_delivered \<sigma> @ map (\<lambda>(i, m). (d, s, i, m)) (handed_on es)" by (simp add: after_read_def)
  qed (use c delivered in \<open>auto simp: after_read_def ful hand\<close>)
  moreover have "\<forall>b\<in>written es. \<exists>p. b = Packet_image p \<and> pkt_ok ?\<tau> d s p" using ch' a_ok by auto
  ultimately show ?thesis by (intro after_read_inv [OF inv])
qed

lemma promise_unique:
  assumes "log_ok \<sigma>" and "entry_ok \<sigma> p q j e" and "entry_ok \<sigma> p q' j' e'" and "me_promise e = me_promise e'"
  shows "q = q' \<and> j = j'"
  using assms unfolding log_ok_def entry_ok_def by metis

lemma read_ack_keeps:
  assumes inv: "rs_inv \<sigma>" and ch: "rt_channels (rs_nodes \<sigma> d) s = Some ch"
    and h: "HandleAckMessage [i] ch (rt_shared (rs_nodes \<sigma> d)) = (ch', sh, es)"
    and acked: "(s, d, i, m) \<in> set (rs_delivered \<sigma>)"
    and rt: "rt_hosts rt = rt_hosts (rs_nodes \<sigma> d)" "rt_channels rt = (rt_channels (rs_nodes \<sigma> d))(s \<mapsto> ch')" "rt_shared rt = sh"
  shows "rs_inv (after_read d s rt es \<sigma>)"
proof -
  let ?\<tau> = "after_read d s rt es \<sigma>" and ?rt = "rs_nodes \<sigma> d"
  let ?ch = "ch\<lparr>rc_message_entries := (rc_message_entries ch)(i := None)\<rparr>"
  have ok: "transport_ok \<sigma> d ?rt" and log: "log_ok \<sigma>" using inv by (simp_all add: rs_inv_def)
  have old: "channel_ok \<sigma> d s ch" using ok ch by (simp add: transport_ok_def)
  have es: "written es = {}" "handed_on es = []" and frame: "sh_message_id sh = next_id \<sigma> d" "sh_contracts sh = sh_contracts (rt_shared ?rt)"
      "backoffs (sh_timers sh) = backoffs (sh_timers (rt_shared ?rt))" "wheel_ok (sh_timers sh) = wheel_ok (sh_timers (rt_shared ?rt))"
    and ch': "ch' = ?ch \<or> (\<exists>n. ch' = RC_AddSendCredits n ?ch)"
    and ful: "set (fulfilled es) = (case rc_message_entries ch i of None \<Rightarrow> {} | Some e \<Rightarrow> {me_promise e})" "distinct (fulfilled es)"
    using h by (auto simp: Map_Take_def Let_def split: option.splits)
  have up: "grows \<sigma> ?\<tau>" by (simp add: grows_def after_read_def)
  have delivered: "rs_delivered ?\<tau> = rs_delivered \<sigma>" and sent: "rs_sent ?\<tau> = rs_sent \<sigma>" and drawn: "rs_drawn ?\<tau> = rs_drawn \<sigma>"
    and fulfilled': "rs_fulfilled ?\<tau> = rs_fulfilled \<sigma> @ map (Pair d) (fulfilled es)"
    by (simp_all add: after_read_def es rt frame)
  have pkts: "pkt_ok ?\<tau> p q x = pkt_ok \<sigma> p q x" for p q x by (simp add: pkt_ok_def delivered sent)
  have entry: "entry_ok \<sigma> d s i e" if "rc_message_entries ch i = Some e" for e using old that by (simp add: channel_ok_def)
  have entries: "entry_ok ?\<tau> d q j e" if e: "entry_ok \<sigma> d q j e" and other: "q \<noteq> s \<or> j \<noteq> i" for q j e
  proof -
    have "me_promise e \<notin> set (fulfilled es)"
      using ful(1) entry promise_unique [OF log e] other by (cases "rc_message_entries ch i") auto
    then show ?thesis using e by (auto simp: entry_ok_def sent fulfilled')
  qed
  have others: "channel_ok ?\<tau> d q ch''" if "channel_ok \<sigma> d q ch''" and "q \<noteq> s" for q ch''
    using that entries unfolding channel_ok_def pkts delivered by auto
  have "channel_ok ?\<tau> d s ?ch" using old entries unfolding channel_ok_def pkts delivered by auto
  then have new: "channel_ok ?\<tau> d s ch'" using ch' channel_ok_credits by blast
  have "transport_ok ?\<tau> d rt"
  proof (rule transport_ok_update [OF ok rt(1,2) new others])
    show "unat j < rs_drawn ?\<tau> d \<and> c < sh_contracts (rt_shared rt)" if "rs_sent ?\<tau> d q j = Some (m, c)" for q j m c
      using that ok unfolding transport_ok_def rt frame drawn sent by blast
  qed (use ok in \<open>auto simp: rt frame drawn transport_ok_def pkts\<close>)
  moreover have "log_ok ?\<tau>"
  proof (rule log_ok_fulfilled [OF log sent delivered fulfilled' ful(2)])
    fix c assume c: "c \<in> set (fulfilled es)"
    obtain e where e: "rc_message_entries ch i = Some e" "c = me_promise e"
      using c ful(1) by (cases "rc_message_entries ch i") auto
    moreover obtain c' where "rs_sent \<sigma> d s i = Some (m, c')" using acked log unfolding log_ok_def by blast
    ultimately show "(d, c) \<notin> set (rs_fulfilled \<sigma>) \<and> rs_sent \<sigma> d s i = Some (m, c) \<and> (s, d, i, m) \<in> set (rs_delivered \<sigma>)"
      using entry [OF e(1)] acked by (auto simp: entry_ok_def)
  qed
  ultimately show ?thesis by (intro after_read_inv [OF inv]) (simp_all add: es)
qed

lemma rs_inv_nodes:
  assumes "rs_inv \<sigma>" and "transport_ok \<sigma> p rt" and "\<forall>(s, d, b)\<in>N. \<exists>x. b = Packet_image x \<and> pkt_ok \<sigma> s d x"
  shows "rs_inv (\<sigma>\<lparr>rs_nodes := (rs_nodes \<sigma>)(p := rt), rs_net := rs_net \<sigma> \<union> N\<rparr>)"
    and "rs_inv (\<sigma>\<lparr>rs_nodes := (rs_nodes \<sigma>)(p := rt)\<rparr>)"
    and "rs_inv (\<sigma>\<lparr>rs_nodes := (rs_nodes \<sigma>)(p := rt), rs_out := out\<rparr>)"
proof -
  have pkt: "pkt_ok (\<sigma>\<lparr>rs_nodes := n, rs_net := N', rs_out := out\<rparr>) = pkt_ok \<sigma>" for n N' out
    by (intro ext) (simp add: pkt_ok_def)
  have tr: "transport_ok (\<sigma>\<lparr>rs_nodes := n, rs_net := N', rs_out := out\<rparr>) = transport_ok \<sigma>" for n N' out
    by (intro ext) (simp add: transport_ok_def channel_ok_def entry_ok_def pkt)
  have inv: "rs_inv (\<sigma>\<lparr>rs_nodes := (rs_nodes \<sigma>)(p := rt), rs_net := N', rs_out := out\<rparr>)"
    if "\<forall>(s, d, b)\<in>N'. \<exists>x. b = Packet_image x \<and> pkt_ok \<sigma> s d x" for N' out
    using assms(1,2) that unfolding rs_inv_def pkt tr by (simp add: log_ok_def)
  have net: "\<forall>(s, d, b)\<in>rs_net \<sigma>. \<exists>x. b = Packet_image x \<and> pkt_ok \<sigma> s d x" using assms(1) by (simp add: rs_inv_def)
  then have "\<forall>(s, d, b)\<in>rs_net \<sigma> \<union> N. \<exists>x. b = Packet_image x \<and> pkt_ok \<sigma> s d x" using assms(3) by (simp only: ball_Un)
  then show "rs_inv (\<sigma>\<lparr>rs_nodes := (rs_nodes \<sigma>)(p := rt), rs_net := rs_net \<sigma> \<union> N\<rparr>)"
    "rs_inv (\<sigma>\<lparr>rs_nodes := (rs_nodes \<sigma>)(p := rt)\<rparr>)"
    "rs_inv (\<sigma>\<lparr>rs_nodes := (rs_nodes \<sigma>)(p := rt), rs_out := out\<rparr>)"
    using inv [of "rs_net \<sigma> \<union> N" "rs_out \<sigma>"] inv [of "rs_net \<sigma>" "rs_out \<sigma>"] inv [of "rs_net \<sigma>" out] net by simp_all
qed

section \<open>Reachable states\<close>

lemma read_keeps:
  assumes mem: "(s, d, bytes) \<in> rs_net \<sigma>" and read: "Transport_Read w s bytes (rs_nodes \<sigma> d) = Inr (rt, es)"
    and drawn: "rs_drawn \<sigma> d < 2 ^ 32" and inv: "rs_inv \<sigma>"
  shows "rs_inv (after_read d s rt es \<sigma>)"
proof -
  obtain x where x: "bytes = Packet_image x" "pkt_ok \<sigma> s d x" using inv mem unfolding rs_inv_def by blast
  have bytes: "Packet_Unmarshal bytes = Some x" by (simp add: x(1) Packet_Unmarshal_image)
  obtain ch ch' sh where ch: "rt_channels (rs_nodes \<sigma> d) s = Some ch"
    and h: "HandlePacket w x ch (rt_shared (rs_nodes \<sigma> d)) = Inr (ch', sh, es)"
    and rt: "rt = batch_callbacks es ((rs_nodes \<sigma> d)\<lparr>rt_channels := (rt_channels (rs_nodes \<sigma> d))(s \<mapsto> ch'), rt_shared := sh\<rparr>)"
    using read bytes by (auto simp: Transport_Read_def fbind_eq_Inr split: option.splits)
  have rt': "rt_hosts rt = rt_hosts (rs_nodes \<sigma> d)" "rt_channels rt = (rt_channels (rs_nodes \<sigma> d))(s \<mapsto> ch')" "rt_shared rt = sh"
    by (simp_all add: rt)
  show ?thesis
  proof (cases "pkt_type x = kPayloadMessage")
    case True
    then show ?thesis
      using read_payload_keeps [OF inv ch _ x(2) True drawn rt'] h by (simp add: HandlePacket_def kPayloadMessage_def kAckMessage_def)
  next
    case False
    then obtain i m where ack: "pkt_type x = kAckMessage" "AckMessage_Unmarshal (pkt_message x) = Some \<lparr>acks = [i]\<rparr>"
      "(s, d, i, m) \<in> set (rs_delivered \<sigma>)" using x(2) by (auto simp: pkt_ok_def)
    have "HandleAckMessage [i] ch (rt_shared (rs_nodes \<sigma> d)) = (ch', sh, es)" using h by (simp add: HandlePacket_def ack)
    then show ?thesis by (rule read_ack_keeps [OF inv ch _ ack(3) rt'])
  qed
qed

lemma rs_inv_step:
  assumes "rs_step \<sigma> \<tau>" and inv: "rs_inv \<sigma>"
  shows "rs_inv \<tau>"
  using assms(1)
proof (cases rule: rs_step.cases)
  case (send q m p c rt)
  then show ?thesis using send_keeps [OF send(2,3) inv] by simp
next
  case (send_local q m p rt)
  have ok: "transport_ok \<sigma> p (rs_nodes \<sigma> p)" using inv by (simp add: rs_inv_def)
  have "rt = SendLocal m (rs_nodes \<sigma> p)" using send_local(2) by (auto simp: Transport_Send_def fbind_eq_Inr split: if_splits option.splits)
  then have "transport_ok \<sigma> p rt"
    using transport_ok_cong [OF ok, of rt] by (simp add: SendLocal_def AddPacket_def)
  then show ?thesis using rs_inv_nodes(2) [OF inv, of p rt "{}"] send_local(1) by simp
next
  case (write_event R ws type q p sent rt)
  have ok: "transport_ok \<sigma> p (rs_nodes \<sigma> p)" using inv by (simp add: rs_inv_def)
  show ?thesis
    using rs_inv_nodes(1) [OF inv, of p rt "(\<lambda>b. (p, q, b)) ` set sent"] write_keeps [OF write_event(2) ok] write_event(1)
    by auto
next
  case (read_event s d bytes w rt es)
  then show ?thesis using read_keeps [OF read_event(2-4) inv] by simp
next
  case (tick R e p rt)
  have ok: "transport_ok \<sigma> p (rs_nodes \<sigma> p)" using inv by (simp add: rs_inv_def)
  show ?thesis using rs_inv_nodes(2) [OF inv tick_keeps [OF tick(2) ok], of "{}"] tick(1) by simp
next
  case (batch p calls rt)
  have ok: "transport_ok \<sigma> p (rs_nodes \<sigma> p)" using inv by (simp add: rs_inv_def)
  have "transport_ok \<sigma> p rt" using transport_ok_cong [OF ok, of rt] batch(2) by (auto simp: Transport_Batch_def)
  then show ?thesis using rs_inv_nodes(3) [OF inv, of p rt "{}"] batch(1) by simp
qed

lemma rs_inv_init:
  assumes "started nodes"
  shows "rs_inv (rs_init nodes)"
proof -
  have "transport_ok (rs_init nodes) p (nodes p)" for p
  proof -
    obtain hosts policy budget tick where p: "localID hosts = p"
      and start: "Transport_Start (ReliableTransport_init hosts policy budget tick) = Inr (nodes p) \<or>
        nodes p = ReliableTransport_init hosts policy budget tick" using assms unfolding started_def by blast
    have "\<exists>qs. nodes p = (ReliableTransport_init hosts policy budget tick)\<lparr>rt_channels := (\<lambda>q. if q \<in> set qs
        then Some (ReliableChannel_init q p policy budget) else None)\<rparr>"
      using start
    proof
      assume "Transport_Start (ReliableTransport_init hosts policy budget tick) = Inr (nodes p)"
      then have "start_channels (GetPeers hosts) (ReliableTransport_init hosts policy budget tick) = Inr (nodes p)"
        by (auto simp: Transport_Start_def ReliableTransport_init_def fbind_eq_Inr)
      from start_channels_eq [OF this] show ?thesis
        by (intro exI [of _ "GetPeers hosts"]) (simp add: ReliableTransport_init_def LocalID_def p cong: if_cong)
    next
      assume "nodes p = ReliableTransport_init hosts policy budget tick"
      then show ?thesis by (intro exI [of _ "[]"]) (simp add: ReliableTransport_init_def)
    qed
    then obtain qs where eq: "nodes p = (ReliableTransport_init hosts policy budget tick)\<lparr>rt_channels := (\<lambda>q. if q \<in> set qs
        then Some (ReliableChannel_init q p policy budget) else None)\<rparr>" ..
    have "wheel_ok (TimerService_init tick :: TimerObject TimerService)" "backoffs (TimerService_init tick) = {}"
      by (auto simp: wheel_ok_def TimerService_init_def kMaxTicksDuration_def backoffs_def timer_set_def)
    then show ?thesis
      unfolding eq by (auto simp: transport_ok_def ReliableTransport_init_def LocalID_def p rs_init_def channel_ok_def
          ReliableChannel_init_def FairLossChannel_init_def split: if_splits)
  qed
  then show ?thesis by (simp add: rs_inv_def log_ok_def) (simp add: rs_init_def)
qed

lemma rs_reach_inv: "rs_reach nodes \<sigma> \<Longrightarrow> rs_inv \<sigma>"
  by (induction rule: rs_reach.induct) (auto intro: rs_inv_init rs_inv_step)

section \<open>A demonstration run\<close>

text \<open>
  The operations as functions on the system, which leave it unchanged when the operation is not
  possible. In the run below process 1 sends a message to process 2, which reads the datagram
  and answers; process 1 reads the acknowledgement.
\<close>

definition run_send :: "PeerID \<Rightarrow> PeerID \<Rightarrow> Bytes \<Rightarrow> rel_system \<Rightarrow> rel_system" where
  "run_send p q m \<sigma> = (case Transport_Send q m (rs_nodes \<sigma> p) of
     Inr (Some c, rt) \<Rightarrow> if rs_drawn \<sigma> p < 2 ^ 32 then after_send p q m c rt \<sigma> else \<sigma> | _ \<Rightarrow> \<sigma>)"

definition run_write :: "PeerID \<Rightarrow> PeerID \<Rightarrow> rel_system \<Rightarrow> rel_system" where
  "run_write p q \<sigma> = (case Transport_Write (\<lambda>a b. b) (\<lambda>_. Ret 0) kWriteReady q (rs_nodes \<sigma> p) of
     Inr (sent, rt) \<Rightarrow> \<sigma>\<lparr>rs_nodes := (rs_nodes \<sigma>)(p := rt), rs_net := rs_net \<sigma> \<union> (\<lambda>b. (p, q, b)) ` set sent\<rparr> | _ \<Rightarrow> \<sigma>)"

definition run_read :: "PeerID \<Rightarrow> PeerID \<Rightarrow> Bytes \<Rightarrow> rel_system \<Rightarrow> rel_system" where
  "run_read s d b \<sigma> = (if (s, d, b) \<in> rs_net \<sigma> \<and> rs_drawn \<sigma> d < 2 ^ 32 then
     (case Transport_Read (Ret 0) s b (rs_nodes \<sigma> d) of Inr (rt, es) \<Rightarrow> after_read d s rt es \<sigma> | _ \<Rightarrow> \<sigma>) else \<sigma>)"

lemma reach_run:
  assumes "rs_reach nodes \<sigma>"
  shows "rs_reach nodes (run_send p q m \<sigma>)" and "rs_reach nodes (run_write p q \<sigma>)" and "rs_reach nodes (run_read s d b \<sigma>)"
  using assms
  by (auto simp: run_send_def run_write_def run_read_def split: sum.split option.split
      intro!: rs_reach.step [OF assms] rs_step.send rs_step.write_event rs_step.read_event)

definition rel_demo_hosts :: "PeerID \<Rightarrow> HostsTable" where
  "rel_demo_hosts p = HostsTable_init [\<lparr>host_id = 1, host_ip = 1, host_port = 1\<rparr>, \<lparr>host_id = 2, host_ip = 1, host_port = 2\<rparr>] p"

definition rel_demo_policy :: ReliableRetryPolicy where
  "rel_demo_policy = \<lparr>msg_policy = RetryPolicy_init 1000 (3, 1) 100000 False,
     fair_loss_policy = \<lparr>error_policy = RetryPolicy_init 100 (3, 2) 100000 False,
       empty_write_policy = RetryPolicy_init 100 (3, 2) 100000 False\<rparr>\<rparr>"

definition rel_demo_nodes :: "PeerID \<Rightarrow> ReliableTransport" where
  "rel_demo_nodes p = (let rt = ReliableTransport_init (rel_demo_hosts p) rel_demo_policy 1000 100
     in case Transport_Start rt of Inr rt' \<Rightarrow> rt' | Inl _ \<Rightarrow> rt)"

definition rel_demo_message :: Bytes where
  "rel_demo_message = Packet_image \<lparr>pkt_type = kPayloadMessage, pkt_id = 0, pkt_source = 1, pkt_message = [65]\<rparr>"

definition ack_payload :: "MessageID \<Rightarrow> Bytes" where
  "ack_payload i = the (marshal_fresh AckMessage_Size AckMessage_MarshalExtract \<lparr>acks = [i]\<rparr>)"

definition rel_demo_ack :: Bytes where
  "rel_demo_ack = Packet_image \<lparr>pkt_type = kAckMessage, pkt_id = 0, pkt_source = 2, pkt_message = ack_payload 0\<rparr>"

definition rel_demo1 :: rel_system where
  "rel_demo1 = run_read 1 2 rel_demo_message (run_write 1 2 (run_send 1 2 [65] (rs_init rel_demo_nodes)))"

definition rel_demo2 :: rel_system where
  "rel_demo2 = run_read 2 1 rel_demo_ack rel_demo1"

lemma rel_demo_started: "started rel_demo_nodes"
  unfolding started_def
proof
  fix p
  have "localID (rel_demo_hosts p) = p" by (simp add: rel_demo_hosts_def HostsTable_init_def Let_def split: prod.split)
  then show "\<exists>hosts policy budget tick. localID hosts = p \<and>
      (Transport_Start (ReliableTransport_init hosts policy budget tick) = Inr (rel_demo_nodes p) \<or>
       rel_demo_nodes p = ReliableTransport_init hosts policy budget tick)"
    by (intro exI [of _ "rel_demo_hosts p"] exI [of _ rel_demo_policy] exI [of _ 1000] exI [of _ 100])
      (simp add: rel_demo_nodes_def Let_def split: sum.split)
qed

lemma rel_demo_reach: "rs_reach rel_demo_nodes rel_demo2"
  using rs_reach.start [OF rel_demo_started] unfolding rel_demo2_def rel_demo1_def by (intro reach_run)

lemma ack_payload_simps:
  "marshal_fresh AckMessage_Size AckMessage_MarshalExtract \<lparr>acks = [i]\<rparr> = Some (ack_payload i)"
  "AckMessage_Unmarshal (ack_payload i) = Some \<lparr>acks = [i]\<rparr>"
  using ack_bytes [of i] ack_roundtrip [of i "ack_payload i"] by (auto simp: ack_payload_def)

lemmas rel_demo_send_defs = run_send_def Transport_Send_def RC_Send_def GetID_def UniqueID_Get_def CreatePacket_def
  AddTimer_id_def duration_ticks_def GetTimeout_def DoSend_def FairLoss_Send_def EstimateSize_def Set_Insert_def
  kOutgoingMessageCap_def after_send_def Map_Set_def kMaxTicksDuration_def

lemmas rel_demo_write_defs = run_write_def Transport_Write_def WriteEventHandler_Handle_def Credit_all_eq
  write_packet_def packet_bytes UDPSocket_Write_def finish_write_def Set_Delete_def

lemmas rel_demo_read_defs = run_read_def Transport_Read_def Packet_Unmarshal_image HandlePacket_def HandlePayloadMessage_def
  ack_payload_simps after_read_def Map_Take_def CancelTimer_def RC_AddSendCredits_def AddSendCredits_def
  rel_demo_message_def rel_demo_ack_def AddPacket_def

lemma rel_demo_node:
  "rel_demo_nodes 1 = (ReliableTransport_init (rel_demo_hosts 1) rel_demo_policy 1000 100)
     \<lparr>rt_channels := [2 \<mapsto> ReliableChannel_init 2 1 rel_demo_policy 1000]\<rparr>"
  "rel_demo_nodes 2 = (ReliableTransport_init (rel_demo_hosts 2) rel_demo_policy 1000 100)
     \<lparr>rt_channels := [1 \<mapsto> ReliableChannel_init 1 2 rel_demo_policy 1000]\<rparr>"
  by (simp_all add: rel_demo_nodes_def Transport_Start_def ReliableTransport_init_def rel_demo_hosts_def HostsTable_init_def
      Let_def ResolveLocalHost_def Resolve_def GetHost_def GetPeers_def LocalID_def)

lemma rel_demo_local: "LocalID (rel_demo_hosts p) = p"
  by (simp add: LocalID_def rel_demo_hosts_def HostsTable_init_def Let_def split: prod.split)

lemmas rel_demo_defs = rs_init_def rel_demo_node rel_demo_local ReliableTransport_init_def
  ReliableChannel_init_def FairLossChannel_init_def SharedBudget_init_def rel_demo_policy_def RetryPolicy_init_def
  rel_demo_send_defs rel_demo_write_defs rel_demo_read_defs TimerService_init_def kPayloadMessage_def kAckMessage_def Let_def

lemma rel_demo_outcome:
  "rs_delivered rel_demo2 = [(2, 1, 0, [65])]"
  "rs_fulfilled rel_demo2 = [(1, 0)]"
  by (simp_all add: rel_demo2_def rel_demo1_def rel_demo_defs)

section \<open>Guarantees\<close>

text \<open>
  C16. No creation and no duplication: a channel hands a message on at most once, and only a
  message that the process at the other end sent to it, with its content, however datagrams
  are lost, duplicated and reordered.
\<close>

theorem reliable_no_duplication:
  assumes "rs_reach nodes \<sigma>"
  shows "distinct (map (\<lambda>(d, s, i, m). (d, s, i)) (rs_delivered \<sigma>)) \<and>
    (\<forall>d s i m. (d, s, i, m) \<in> set (rs_delivered \<sigma>) \<longrightarrow> (\<exists>c. rs_sent \<sigma> s d i = Some (m, c)))"
  using rs_reach_inv [OF assms] by (simp add: rs_inv_def log_ok_def)

theorem reliable_no_duplication_witness: "\<exists>c. rs_sent rel_demo2 1 2 0 = Some ([65], c)"
  using reliable_no_duplication [OF rel_demo_reach] by (simp add: rel_demo_outcome)



text \<open>
  A channel tells messages apart by their id alone: once it has handed on a message, it
  acknowledges and drops every other message with that id, whatever its source. Processes
  number their messages independently, so when the kernel delivers the datagrams of two
  processes to one socket, the messages of one of them are lost although they are acknowledged.
\<close>

theorem misrouted_message_dropped:
  assumes "HandlePayloadMessage w x ch sh = Inr (ch1, sh1, es1)" and "pkt_id y = pkt_id x"
  shows "\<exists>ch2 sh2 a. HandlePayloadMessage (Ret n) y ch1 sh1 = Inr (ch2, sh2, [RCWrite (Packet_image a)]) \<and>
    AckMessage_Unmarshal (pkt_message a) = Some \<lparr>acks = [pkt_id y]\<rparr>"
proof -
  obtain a where "ch1 = DoSend a (ch\<lparr>rc_delivered := insert (pkt_id x) (rc_delivered ch)\<rparr>) \<or>
      ch1 = ch\<lparr>rc_delivered := insert (pkt_id x) (rc_delivered ch)\<rparr>"
    using HandlePayloadMessage_effect [OF assms(1)] by metis
  then have "pkt_id y \<in> rc_delivered ch1" using assms(2) by auto
  then show ?thesis
    by (auto simp: HandlePayloadMessage_def ack_payload_simps packet_bytes UDPSocket_Write_def UniqueID_Get_def CreatePacket_def Let_def)
qed

theorem misrouted_message_dropped_witness:
  "\<exists>ch1 sh1 es1 ch2 sh2 a.
     HandlePayloadMessage (Ret 0) (fl_demo_packet 7) (ReliableChannel_init 2 1 rel_demo_policy 1000) (rt_shared (rel_demo_nodes 1)) = Inr (ch1, sh1, es1) \<and>
     HandlePayloadMessage (Ret 0) ((fl_demo_packet 7)\<lparr>pkt_source := 3, pkt_message := [66]\<rparr>) ch1 sh1 = Inr (ch2, sh2, [RCWrite (Packet_image a)])"
proof -
  obtain ch1 sh1 es1 where one: "HandlePayloadMessage (Ret 0) (fl_demo_packet 7) (ReliableChannel_init 2 1 rel_demo_policy 1000)
      (rt_shared (rel_demo_nodes 1)) = Inr (ch1, sh1, es1)"
    by (simp add: HandlePayloadMessage_def ack_payload_simps packet_bytes UDPSocket_Write_def UniqueID_Get_def Let_def)
  show ?thesis
    using misrouted_message_dropped [OF one, of "(fl_demo_packet 7)\<lparr>pkt_source := 3, pkt_message := [66]\<rparr>" 0] one by auto
qed

end
