(* ===== verification/Transport_Network.thy ===== *)
theory Transport_Network
  imports Reliable_System
begin

text \<open>
  What the transport is for the protocols above it: a network that holds every message from the
  call of \<open>Send\<close> to the call of the transport's callback. The network is a function of the
  state of all transports, so that the refinement is functional: a call of \<open>Send\<close> adds the
  message, a batch of callbacks takes messages out, and no other event changes anything,
  however datagrams are lost, duplicated and reordered.
\<close>

section \<open>Messages in transit\<close>

definition undelivered :: "rel_system \<Rightarrow> (PeerID \<times> PeerID \<times> MessageID) set" where
  "undelivered \<sigma> = {(s, d, i). rs_sent \<sigma> s d i \<noteq> None \<and> (\<forall>m. (d, s, i, m) \<notin> set (rs_delivered \<sigma>))}"

definition sent_message :: "rel_system \<Rightarrow> PeerID \<times> PeerID \<times> MessageID \<Rightarrow> PeerID \<times> PeerID \<times> Bytes" where
  "sent_message \<sigma> x = (case x of (s, d, i) \<Rightarrow> (s, d, fst (the (rs_sent \<sigma> s d i))))"

definition batch_messages :: "PeerID \<Rightarrow> Packet list \<Rightarrow> (PeerID \<times> PeerID \<times> Bytes) multiset" where
  "batch_messages d batch = mset (map (\<lambda>x. (pkt_source x, d, pkt_message x)) batch)"

definition queued :: "rel_system \<Rightarrow> (PeerID \<times> PeerID \<times> Bytes) multiset" where
  "queued \<sigma> = (\<Sum>d\<in>UNIV. batch_messages d (rt_batch (rs_nodes \<sigma> d)))"

definition transit :: "rel_system \<Rightarrow> (PeerID \<times> PeerID \<times> Bytes) multiset" where
  "transit \<sigma> = image_mset (sent_message \<sigma>) (mset_set (undelivered \<sigma>)) + queued \<sigma>"

lemma batch_messages_append [simp]: "batch_messages d (xs @ ys) = batch_messages d xs + batch_messages d ys"
  by (simp add: batch_messages_def)

lemma queued_update:
  assumes "rs_nodes \<tau> = (rs_nodes \<sigma>)(p := rt)"
  shows "queued \<tau> + batch_messages p (rt_batch (rs_nodes \<sigma> p)) = queued \<sigma> + batch_messages p (rt_batch rt)"
proof -
  have "(\<Sum>d\<in>UNIV - {p}. batch_messages d (rt_batch (rs_nodes \<tau> d))) = (\<Sum>d\<in>UNIV - {p}. batch_messages d (rt_batch (rs_nodes \<sigma> d)))"
    using assms by (intro sum.cong) auto
  then show ?thesis
    using sum.remove [of UNIV p "\<lambda>d. batch_messages d (rt_batch (rs_nodes \<tau> d))"]
      sum.remove [of UNIV p "\<lambda>d. batch_messages d (rt_batch (rs_nodes \<sigma> d))"] assms
    by (simp add: queued_def ac_simps)
qed

lemma queued_append:
  assumes "rs_nodes \<tau> = (rs_nodes \<sigma>)(p := rt)" and "rt_batch rt = rt_batch (rs_nodes \<sigma> p) @ xs"
  shows "queued \<tau> = queued \<sigma> + batch_messages p xs"
  using queued_update [OF assms(1)] by (simp add: assms(2) add.assoc [symmetric] add.commute)

lemma transit_same:
  assumes "rs_sent \<tau> = rs_sent \<sigma>" and "rs_delivered \<tau> = rs_delivered \<sigma>"
  shows "transit \<tau> = image_mset (sent_message \<sigma>) (mset_set (undelivered \<sigma>)) + queued \<tau>"
proof -
  have "undelivered \<tau> = undelivered \<sigma>" "sent_message \<tau> = sent_message \<sigma>"
    using assms by (simp_all add: undelivered_def sent_message_def fun_eq_iff)
  then show ?thesis by (simp add: transit_def)
qed

section \<open>Sending\<close>

lemma RC_Send_batch:
  assumes "Transport_Send q m rt = Inr (Some c, rt')"
  shows "rt_batch rt' = rt_batch rt"
  using assms by (auto simp: Transport_Send_def fbind_eq_Inr split: if_splits option.splits)

lemma transit_send:
  assumes inv: "rs_inv \<sigma>" and send: "Transport_Send q m (rs_nodes \<sigma> p) = Inr (Some c, rt)" and drawn: "rs_drawn \<sigma> p < 2 ^ 32"
  shows "transit (after_send p q m c rt \<sigma>) = add_mset (p, q, m) (transit \<sigma>)"
proof -
  let ?\<tau> = "after_send p q m c rt \<sigma>" and ?i = "next_id \<sigma> p"
  have ok: "transport_ok \<sigma> p (rs_nodes \<sigma> p)" and log: "log_ok \<sigma>" using inv by (simp_all add: rs_inv_def)
  have new: "rs_sent \<sigma> p q ?i = None" by (rule unat_next_id(2) [OF ok drawn])
  then have "(q, p, ?i, x) \<notin> set (rs_delivered \<sigma>)" for x using log unfolding log_ok_def by fastforce
  then have und: "undelivered ?\<tau> = insert (p, q, ?i) (undelivered \<sigma>)" "(p, q, ?i) \<notin> undelivered \<sigma>"
    using new by (auto simp: undelivered_def after_send_def split: if_splits)
  have "sent_message ?\<tau> (p, q, ?i) = (p, q, m)" by (simp add: sent_message_def after_send_def)
  moreover have "image_mset (sent_message ?\<tau>) (mset_set (undelivered \<sigma>)) = image_mset (sent_message \<sigma>) (mset_set (undelivered \<sigma>))"
    using new by (intro image_mset_cong) (auto simp: sent_message_def after_send_def undelivered_def)
  moreover have "queued ?\<tau> = queued \<sigma>"
    using queued_append [of ?\<tau> \<sigma> p rt "[]"] RC_Send_batch [OF send] by (simp add: after_send_def batch_messages_def)
  ultimately show ?thesis using und by (simp add: transit_def)
qed

lemma transit_send_local:
  assumes inv: "rs_inv \<sigma>" and send: "Transport_Send q m (rs_nodes \<sigma> p) = Inr (None, rt)"
  shows "transit (\<sigma>\<lparr>rs_nodes := (rs_nodes \<sigma>)(p := rt)\<rparr>) = add_mset (p, q, m) (transit \<sigma>)"
proof -
  have local: "LocalID (rt_hosts (rs_nodes \<sigma> p)) = p" using inv by (simp add: rs_inv_def transport_ok_def)
  have rt: "q = p" "rt = SendLocal m (rs_nodes \<sigma> p)"
    using send local by (auto simp: Transport_Send_def fbind_eq_Inr split: if_splits option.splits)
  let ?x = "\<lparr>pkt_type = kPayloadMessage, pkt_id = 0, pkt_source = p, pkt_message = m\<rparr>"
  have "rt_batch rt = rt_batch (rs_nodes \<sigma> p) @ [?x]" by (simp add: rt SendLocal_def AddPacket_def local)
  then have "queued (\<sigma>\<lparr>rs_nodes := (rs_nodes \<sigma>)(p := rt)\<rparr>) = queued \<sigma> + {#(p, q, m)#}"
    using queued_append [of "\<sigma>\<lparr>rs_nodes := (rs_nodes \<sigma>)(p := rt)\<rparr>" \<sigma> p rt "[?x]"] by (simp add: batch_messages_def rt(1))
  then show ?thesis using transit_same [of "\<sigma>\<lparr>rs_nodes := (rs_nodes \<sigma>)(p := rt)\<rparr>" \<sigma>] by (simp add: transit_def)
qed

section \<open>Reading a datagram\<close>

fun callbacks :: "RCEffect list \<Rightarrow> Packet list" where
  "callbacks [] = []"
| "callbacks (RCCallback p # es) = p # callbacks es"
| "callbacks (_ # es) = callbacks es"

lemma callbacks_append [simp]: "callbacks (es @ fs) = callbacks es @ callbacks fs"
  by (induction es rule: callbacks.induct) auto

lemma handed_on_callbacks: "handed_on es = map (\<lambda>p. (pkt_id p, pkt_message p)) (callbacks es)"
  by (induction es rule: handed_on.induct) auto

lemma batch_batch_callbacks: "rt_batch (batch_callbacks es rt) = rt_batch rt @ callbacks es"
  by (induction es rt rule: batch_callbacks.induct) (simp_all add: AddPacket_def)

lemma HandlePayloadMessage_callbacks:
  assumes "HandlePayloadMessage w x ch sh = Inr (ch', sh', es)"
  shows "callbacks es = (if pkt_id x \<in> rc_delivered ch then [] else [x])"
proof -
  obtain payload where "marshal_fresh AckMessage_Size AckMessage_MarshalExtract \<lparr>acks = [pkt_id x]\<rparr> = Some payload"
    using ack_bytes by fastforce
  then show ?thesis
    using assms by (auto simp: HandlePayloadMessage_def packet_bytes UniqueID_Get_def Let_def fbind_eq_Inr)
qed

lemma HandleAckMessage_callbacks: "HandleAckMessage is ch sh = (ch', sh', es) \<Longrightarrow> callbacks es = []"
  by (induction "is" arbitrary: ch sh ch' sh' es) (auto simp: Let_def split: option.splits prod.splits)


lemma transit_read:
  assumes inv: "rs_inv \<sigma>" and mem: "(s, d, bytes) \<in> rs_net \<sigma>"
    and read: "Transport_Read w s bytes (rs_nodes \<sigma> d) = Inr (rt, es)"
  shows "transit (after_read d s rt es \<sigma>) = transit \<sigma>"
proof -
  let ?\<tau> = "after_read d s rt es \<sigma>"
  have nodes: "rs_nodes ?\<tau> = (rs_nodes \<sigma>)(d := rt)" by (simp add: after_read_def)
  obtain x where x: "bytes = Packet_image x" "pkt_ok \<sigma> s d x" using inv mem unfolding rs_inv_def by blast
  obtain ch ch' sh where ch: "rt_channels (rs_nodes \<sigma> d) s = Some ch"
    and h: "HandlePacket w x ch (rt_shared (rs_nodes \<sigma> d)) = Inr (ch', sh, es)"
    and rt: "rt = batch_callbacks es ((rs_nodes \<sigma> d)\<lparr>rt_channels := (rt_channels (rs_nodes \<sigma> d))(s \<mapsto> ch'), rt_shared := sh\<rparr>)"
    using read by (auto simp: Transport_Read_def x(1) Packet_Unmarshal_image fbind_eq_Inr split: option.splits)
  have q: "queued ?\<tau> = queued \<sigma> + batch_messages d (callbacks es)"
    by (rule queued_append [OF nodes]) (simp add: rt batch_batch_callbacks)
  have cok: "channel_ok \<sigma> d s ch" using inv ch by (simp add: rs_inv_def transport_ok_def)
  show ?thesis
  proof (cases "callbacks es = []")
    case True
    then have "rs_delivered ?\<tau> = rs_delivered \<sigma>" by (simp add: after_read_def handed_on_callbacks)
    then show ?thesis using transit_same [of ?\<tau> \<sigma>] q True by (simp add: transit_def after_read_def batch_messages_def)
  next
    case False
    then have type: "pkt_type x = kPayloadMessage"
      using h x(2) HandleAckMessage_callbacks
      by (auto simp: pkt_ok_def HandlePacket_def simp del: HandleAckMessage.simps)
    then have "callbacks es = [x]" "pkt_id x \<notin> rc_delivered ch"
      using False h HandlePayloadMessage_callbacks [of w x ch] by (auto simp: HandlePacket_def kPayloadMessage_def kAckMessage_def split: if_splits)
    moreover obtain c where sent: "rs_sent \<sigma> s d (pkt_id x) = Some (pkt_message x, c)" "pkt_source x = s"
      using x(2) type by (auto simp: pkt_ok_def kPayloadMessage_def kAckMessage_def)
    ultimately have und: "(s, d, pkt_id x) \<in> undelivered \<sigma>" "undelivered ?\<tau> = undelivered \<sigma> - {(s, d, pkt_id x)}"
      and out: "batch_messages d (callbacks es) = {#sent_message \<sigma> (s, d, pkt_id x)#}"
      using cok by (auto simp: undelivered_def channel_ok_def after_read_def handed_on_callbacks batch_messages_def sent_message_def)
    have "sent_message ?\<tau> = sent_message \<sigma>" by (simp add: fun_eq_iff sent_message_def after_read_def)
    then show ?thesis
      unfolding transit_def q out using mset_set.remove [of "undelivered \<sigma>" "(s, d, pkt_id x)"] und by simp
  qed
qed

section \<open>The other events\<close>

lemma fire_timers_batch: "fire_timers R ts rt = Inr rt' \<Longrightarrow> rt_batch rt' = rt_batch rt"
  by (induction R ts rt rule: fire_timers.induct) (auto simp: fbind_eq_Inr split: TimerObject.splits)

lemma transit_quiet:
  assumes "rs_nodes \<tau> = (rs_nodes \<sigma>)(p := rt)" and "rt_batch rt = rt_batch (rs_nodes \<sigma> p)"
    and "rs_sent \<tau> = rs_sent \<sigma>" and "rs_delivered \<tau> = rs_delivered \<sigma>"
  shows "transit \<tau> = transit \<sigma>"
  using transit_same [OF assms(3,4)] queued_append [OF assms(1), of "[]"] assms(2) by (simp add: transit_def batch_messages_def)

lemma Transport_Tick_batch: "Transport_Tick R e rt = Inr rt' \<Longrightarrow> rt_batch rt' = rt_batch rt"
  by (auto simp: Transport_Tick_def Let_def split: prod.splits dest: fire_timers_batch)

lemma Transport_Write_batch: "Transport_Write R ws type q rt = Inr (sent, rt') \<Longrightarrow> rt_batch rt' = rt_batch rt"
  by (auto simp: Transport_Write_def fbind_eq_Inr split: option.splits)

definition called :: "PeerID \<Rightarrow> (PeerID \<times> Bytes) list \<Rightarrow> (PeerID \<times> PeerID \<times> Bytes) multiset" where
  "called d calls = mset (map (\<lambda>(s, m). (s, d, m)) calls)"

lemma transit_batch:
  assumes "Transport_Batch (rs_nodes \<sigma> p) = (calls, rt)"
  shows "transit \<sigma> = transit (\<sigma>\<lparr>rs_nodes := (rs_nodes \<sigma>)(p := rt), rs_out := out\<rparr>) + called p calls"
proof -
  let ?\<tau> = "\<sigma>\<lparr>rs_nodes := (rs_nodes \<sigma>)(p := rt), rs_out := out\<rparr>"
  have rt: "rt_batch rt = []" "batch_messages p (rt_batch (rs_nodes \<sigma> p)) = called p calls"
    using assms by (auto simp: Transport_Batch_def ProcessBatch_eq called_def batch_messages_def multiset.map_comp comp_def)
  then have "queued ?\<tau> + called p calls = queued \<sigma>" using queued_update [of ?\<tau> \<sigma> p rt] by (simp add: batch_messages_def)
  then show ?thesis using transit_same [of ?\<tau> \<sigma>] by (simp add: transit_def add.assoc)
qed


section \<open>The transport is a network\<close>

text \<open>What the network can do between two states of its users: take a message, hand messages over, nothing.\<close>

inductive net_step ::
    "(PeerID \<times> PeerID \<times> Bytes) multiset \<Rightarrow> (PeerID \<times> (PeerID \<times> Bytes) list) option \<Rightarrow> (PeerID \<times> PeerID \<times> Bytes) multiset \<Rightarrow> bool" where
  quiet: "net_step N None N"
| accept: "net_step N None (add_mset x N)"
| hand_over: "net_step (N + called d calls) (Some (d, calls)) N"


definition rel_demo3 :: rel_system where
  "rel_demo3 = (case Transport_Batch (rs_nodes rel_demo2 2) of (calls, rt) \<Rightarrow>
     rel_demo2\<lparr>rs_nodes := (rs_nodes rel_demo2)(2 := rt), rs_out := (rs_out rel_demo2)(2 := rs_out rel_demo2 2 @ calls)\<rparr>)"


end
