(* ===== verification/Protocol_Stack.thy ===== *)
theory Protocol_Stack
  imports Transport_Network
begin

text \<open>
  A protocol on top of the transport, in every process of the system. A protocol is given by
  the calls its application makes (\<open>invoke\<close>) and by the callback it registers with the
  transport (\<open>handle\<close>); both may send messages and report to the application, and \<open>None\<close>
  is a failed assertion. The steps interleave the protocol with the events of the transports;
  a message that the protocol sends is handed to the transport in a step of its own, in any
  order, and a batch of callbacks is run one callback at a time.

  The locale is the interface between the transport and a protocol: what was shown of a
  protocol on an abstract network, by a simulation, holds on the transport.
\<close>

type_synonym ('n, 'o) reaction = "('n \<times> (PeerID \<times> Bytes) list \<times> 'o list) option"

record ('n, 'o) stack =
  st_nodes :: "PeerID \<Rightarrow> 'n"
  st_rel :: rel_system
  st_calls :: "PeerID \<Rightarrow> (PeerID \<times> Bytes) list"
  st_sends :: "PeerID \<Rightarrow> (PeerID \<times> Bytes) multiset"
  st_log :: "(PeerID \<times> 'o) list"

definition stack_init :: "(PeerID \<Rightarrow> 'n) \<Rightarrow> (PeerID \<Rightarrow> ReliableTransport) \<Rightarrow> ('n, 'o) stack" where
  "stack_init n0 nodes = \<lparr>st_nodes = n0, st_rel = rs_init nodes, st_calls = (\<lambda>_. []), st_sends = (\<lambda>_. {#}), st_log = []\<rparr>"

definition react :: "PeerID \<Rightarrow> 'n \<Rightarrow> (PeerID \<times> Bytes) list \<Rightarrow> 'o list \<Rightarrow> ('n, 'o) stack \<Rightarrow> ('n, 'o) stack" where
  "react p n sends outs st = st\<lparr>st_nodes := (st_nodes st)(p := n),
     st_sends := (st_sends st)(p := st_sends st p + mset sends), st_log := st_log st @ map (Pair p) outs\<rparr>"

text \<open>The events of the transports that the protocol does not take part in.\<close>

inductive rs_event :: "rel_system \<Rightarrow> rel_system \<Rightarrow> bool" where
  write_event: "Transport_Write R ws type q (rs_nodes \<sigma> p) = Inr (sent, rt) \<Longrightarrow>
    rs_event \<sigma> (\<sigma>\<lparr>rs_nodes := (rs_nodes \<sigma>)(p := rt), rs_net := rs_net \<sigma> \<union> (\<lambda>b. (p, q, b)) ` set sent\<rparr>)"
| read_event: "(s, d, bytes) \<in> rs_net \<sigma> \<Longrightarrow> Transport_Read w s bytes (rs_nodes \<sigma> d) = Inr (rt, es) \<Longrightarrow> rs_drawn \<sigma> d < 2 ^ 32 \<Longrightarrow>
    rs_event \<sigma> (after_read d s rt es \<sigma>)"
| tick: "Transport_Tick R e (rs_nodes \<sigma> p) = Inr rt \<Longrightarrow> rs_event \<sigma> (\<sigma>\<lparr>rs_nodes := (rs_nodes \<sigma>)(p := rt)\<rparr>)"

inductive st_step ::
    "(PeerID \<Rightarrow> 'a \<Rightarrow> 'n \<Rightarrow> ('n, 'o) reaction) \<Rightarrow> (PeerID \<Rightarrow> PeerID \<Rightarrow> Bytes \<Rightarrow> 'n \<Rightarrow> ('n, 'o) reaction) \<Rightarrow>
     ('n, 'o) stack \<Rightarrow> ('n, 'o) stack \<Rightarrow> bool" for invoke handle where
  invoke: "invoke p a (st_nodes st p) = Some (n, sends, outs) \<Longrightarrow>
    st_step invoke handle st (react p n sends outs st)"
| callback: "st_calls st d = (s, b) # rest \<Longrightarrow> handle d s b (st_nodes st d) = Some (n, sends, outs) \<Longrightarrow>
    st_step invoke handle st (react d n sends outs (st\<lparr>st_calls := (st_calls st)(d := rest)\<rparr>))"
| send: "(q, m) \<in># st_sends st p \<Longrightarrow> Transport_Send q m (rs_nodes (st_rel st) p) = Inr (Some c, rt) \<Longrightarrow>
    rs_drawn (st_rel st) p < 2 ^ 32 \<Longrightarrow>
    st_step invoke handle st (st\<lparr>st_rel := after_send p q m c rt (st_rel st),
      st_sends := (st_sends st)(p := st_sends st p - {#(q, m)#})\<rparr>)"
| send_local: "(q, m) \<in># st_sends st p \<Longrightarrow> Transport_Send q m (rs_nodes (st_rel st) p) = Inr (None, rt) \<Longrightarrow>
    st_step invoke handle st (st\<lparr>st_rel := (st_rel st)\<lparr>rs_nodes := (rs_nodes (st_rel st))(p := rt)\<rparr>,
      st_sends := (st_sends st)(p := st_sends st p - {#(q, m)#})\<rparr>)"
| batch: "Transport_Batch (rs_nodes (st_rel st) p) = (calls, rt) \<Longrightarrow>
    st_step invoke handle st (st\<lparr>st_rel := (st_rel st)\<lparr>rs_nodes := (rs_nodes (st_rel st))(p := rt),
        rs_out := (rs_out (st_rel st))(p := rs_out (st_rel st) p @ calls)\<rparr>,
      st_calls := (st_calls st)(p := st_calls st p @ calls)\<rparr>)"
| event: "rs_event (st_rel st) \<sigma> \<Longrightarrow> st_step invoke handle st (st\<lparr>st_rel := \<sigma>\<rparr>)"

inductive st_reach ::
    "(PeerID \<Rightarrow> 'a \<Rightarrow> 'n \<Rightarrow> ('n, 'o) reaction) \<Rightarrow> (PeerID \<Rightarrow> PeerID \<Rightarrow> Bytes \<Rightarrow> 'n \<Rightarrow> ('n, 'o) reaction) \<Rightarrow>
     (PeerID \<Rightarrow> 'n) \<Rightarrow> ('n, 'o) stack \<Rightarrow> bool" for invoke handle n0 where
  start: "started nodes \<Longrightarrow> st_reach invoke handle n0 (stack_init n0 nodes)"
| step: "st_reach invoke handle n0 st \<Longrightarrow> st_step invoke handle st st' \<Longrightarrow> st_reach invoke handle n0 st'"

section \<open>The network under the protocol\<close>

text \<open>A message is on its way while it waits to be handed to the transport, in transit, or waits for its callback.\<close>

definition sent_by :: "PeerID \<Rightarrow> (PeerID \<times> Bytes) multiset \<Rightarrow> (PeerID \<times> PeerID \<times> Bytes) multiset" where
  "sent_by p M = image_mset (Pair p) M"

definition st_net :: "('n, 'o) stack \<Rightarrow> (PeerID \<times> PeerID \<times> Bytes) multiset" where
  "st_net st = (\<Sum>p\<in>UNIV. sent_by p (st_sends st p)) + transit (st_rel st) + (\<Sum>d\<in>UNIV. called d (st_calls st d))"

lemma sum_fun_upd:
  fixes f :: "'x :: finite \<Rightarrow> 'y \<Rightarrow> 'z multiset"
  shows "(\<Sum>x\<in>UNIV. f x ((g(p := y)) x)) + f p (g p) = (\<Sum>x\<in>UNIV. f x (g x)) + f p y"
proof -
  have "(\<Sum>x\<in>UNIV - {p}. f x ((g(p := y)) x)) = (\<Sum>x\<in>UNIV - {p}. f x (g x))" by (intro sum.cong) auto
  then show ?thesis
    using sum.remove [of UNIV p "\<lambda>x. f x ((g(p := y)) x)"] sum.remove [of UNIV p "\<lambda>x. f x (g x)"]
    by (simp add: ac_simps)
qed

lemma sum_fun_upd_plus:
  fixes f :: "'x :: finite \<Rightarrow> 'y \<Rightarrow> 'z multiset"
  assumes "f p y = f p (g p) + M"
  shows "(\<Sum>x\<in>UNIV. f x ((g(p := y)) x)) = (\<Sum>x\<in>UNIV. f x (g x)) + M"
  using sum_fun_upd [of f g p y] assms by (simp add: ac_simps)

lemma sum_fun_upd_minus:
  fixes f :: "'x :: finite \<Rightarrow> 'y \<Rightarrow> 'z multiset"
  assumes "f p (g p) = f p y + M"
  shows "(\<Sum>x\<in>UNIV. f x (g x)) = (\<Sum>x\<in>UNIV. f x ((g(p := y)) x)) + M"
  using sum_fun_upd [of f g p y] assms by (simp add: ac_simps)

lemma sent_by_plus [simp]: "sent_by p (M + N) = sent_by p M + sent_by p N"
  by (simp add: sent_by_def)

lemma st_net_react: "st_net (react p n sends outs st) = st_net st + sent_by p (mset sends)"
  using sum_fun_upd_plus [of sent_by p "st_sends st p + mset sends" "st_sends st" "sent_by p (mset sends)"]
  by (simp add: st_net_def react_def ac_simps)

lemma st_net_call:
  assumes "st_calls st d = (s, b) # rest"
  shows "st_net st = add_mset (s, d, b) (st_net (st\<lparr>st_calls := (st_calls st)(d := rest)\<rparr>))"
  using sum_fun_upd_minus [of called d "st_calls st" rest "{#(s, d, b)#}"] assms
  by (simp add: st_net_def called_def)

lemma st_net_send:
  assumes "(q, m) \<in># st_sends st p" and "transit \<sigma> = add_mset (p, q, m) (transit (st_rel st))"
  shows "st_net (st\<lparr>st_rel := \<sigma>, st_sends := (st_sends st)(p := st_sends st p - {#(q, m)#})\<rparr>) = st_net st"
proof -
  obtain N where "st_sends st p = add_mset (q, m) N" using assms(1) by (blast dest: multi_member_split)
  then have "sent_by p (st_sends st p) = sent_by p (st_sends st p - {#(q, m)#}) + {#(p, q, m)#}"
    by (simp add: sent_by_def)
  from sum_fun_upd_minus [of sent_by p "st_sends st", OF this] assms(2) show ?thesis
    by (simp add: st_net_def ac_simps)
qed

lemma st_net_batch:
  assumes "transit (st_rel st) = transit \<sigma> + called p calls"
  shows "st_net (st\<lparr>st_rel := \<sigma>, st_calls := (st_calls st)(p := st_calls st p @ calls)\<rparr>) = st_net st"
  using sum_fun_upd_plus [of called p "st_calls st p @ calls" "st_calls st" "called p calls"] assms
  by (simp add: st_net_def called_def ac_simps)

lemma rs_event_step: "rs_event \<sigma> \<tau> \<Longrightarrow> rs_step \<sigma> \<tau>"
  by (induction rule: rs_event.induct) (blast intro: rs_step.intros)+

lemma transit_event:
  assumes "rs_event \<sigma> \<tau>" and "rs_inv \<sigma>"
  shows "transit \<tau> = transit \<sigma>"
  using assms(1)
proof cases
  case (write_event R ws type q p sent rt)
  then show ?thesis using Transport_Write_batch [OF write_event(2)] by (intro transit_quiet [of _ _ p rt]) simp_all
next
  case (read_event s d bytes w rt es)
  then show ?thesis using transit_read [OF assms(2) read_event(2,3)] by simp
next
  case (tick R e p rt)
  then show ?thesis using Transport_Tick_batch [OF tick(2)] by (intro transit_quiet [of _ _ p rt]) simp_all
qed

text \<open>The transports of a stack run as a system of transports.\<close>

lemma st_step_rel: "st_step invoke handle st st' \<Longrightarrow> st_rel st' = st_rel st \<or> rs_step (st_rel st) (st_rel st')"
  by (induction rule: st_step.induct) (auto simp: react_def intro: rs_step.intros rs_event_step)

lemma st_reach_rel: "st_reach invoke handle n0 st \<Longrightarrow> \<exists>nodes. rs_reach nodes (st_rel st)"
proof (induction rule: st_reach.induct)
  case (start nodes)
  then show ?case using rs_reach.start by (auto simp: stack_init_def)
next
  case (step st st')
  then show ?case using st_step_rel [OF step(2)] rs_reach.step by metis
qed

lemma started_batch:
  assumes "started nodes"
  shows "rt_batch (nodes p) = []"
proof -
  have "rt_batch rt' = rt_batch rt" if "start_channels ps rt = Inr rt'" for ps rt rt'
    using that by (induction ps rt rule: start_channels.induct) (auto simp: fbind_eq_Inr split: if_splits)
  with assms show ?thesis
    by (force simp: started_def Transport_Start_def ReliableTransport_init_def fbind_eq_Inr)
qed

lemma st_net_init:
  assumes "started nodes"
  shows "st_net (stack_init n0 nodes) = {#}"
proof -
  have "undelivered (rs_init nodes) = {}" by (simp add: undelivered_def rs_init_def)
  then have "transit (rs_init nodes) = {#}"
    by (simp add: transit_def queued_def rs_init_def started_batch [OF assms] batch_messages_def)
  then show ?thesis by (simp add: st_net_def stack_init_def called_def sent_by_def)
qed

lemma st_net_quiet:
  assumes "\<And>p. st_sends st p = {#}" and "\<And>p. st_calls st p = []" and "\<And>p. rt_batch (rs_nodes (st_rel st) p) = []"
    and "\<And>s d i. rs_sent (st_rel st) s d i \<noteq> None \<Longrightarrow> \<exists>m. (d, s, i, m) \<in> set (rs_delivered (st_rel st))"
  shows "st_net st = {#}"
proof -
  have "undelivered (st_rel st) = {}" using assms(4) by (auto simp: undelivered_def)
  then show ?thesis
    by (simp add: st_net_def transit_def queued_def assms(1-3) sent_by_def called_def batch_messages_def)
qed

section \<open>Carrying a protocol over to the transport\<close>

text \<open>
  \<open>rel\<close> relates the nodes, the messages on their way and what was reported so far to a state
  of the specification; the specification follows every call of the application and every
  delivery of a message that is on its way.
\<close>

locale wire_protocol =
  fixes invoke :: "PeerID \<Rightarrow> 'a \<Rightarrow> 'n \<Rightarrow> ('n, 'o) reaction"
    and handle :: "PeerID \<Rightarrow> PeerID \<Rightarrow> Bytes \<Rightarrow> 'n \<Rightarrow> ('n, 'o) reaction"
    and n0 :: "PeerID \<Rightarrow> 'n"
    and reach :: "'s \<Rightarrow> bool"
    and rel :: "(PeerID \<Rightarrow> 'n) \<Rightarrow> (PeerID \<times> PeerID \<times> Bytes) multiset \<Rightarrow> (PeerID \<times> 'o) list \<Rightarrow> 's \<Rightarrow> bool"
  assumes start_sim: "\<exists>\<sigma>. reach \<sigma> \<and> rel n0 {#} [] \<sigma>"
    and invoke_sim: "reach \<sigma> \<Longrightarrow> rel N M L \<sigma> \<Longrightarrow> invoke p a (N p) = Some (n, sends, outs) \<Longrightarrow>
      \<exists>\<tau>. reach \<tau> \<and> rel (N(p := n)) (M + sent_by p (mset sends)) (L @ map (Pair p) outs) \<tau>"
    and handle_sim: "reach \<sigma> \<Longrightarrow> rel N (add_mset (s, d, b) M) L \<sigma> \<Longrightarrow> handle d s b (N d) = Some (n, sends, outs) \<Longrightarrow>
      \<exists>\<tau>. reach \<tau> \<and> rel (N(d := n)) (M + sent_by d (mset sends)) (L @ map (Pair d) outs) \<tau>"
begin

definition follows :: "('n, 'o) stack \<Rightarrow> bool" where
  "follows st \<longleftrightarrow> (\<exists>\<sigma>. reach \<sigma> \<and> rel (st_nodes st) (st_net st) (st_log st) \<sigma>)"

lemma follows_step:
  assumes "st_step invoke handle st st'" and inv: "rs_inv (st_rel st)" and "follows st"
  shows "follows st'"
proof -
  obtain \<sigma> where \<sigma>: "reach \<sigma>" "rel (st_nodes st) (st_net st) (st_log st) \<sigma>" using assms(3) by (auto simp: follows_def)
  have same: ?thesis if "st_nodes st' = st_nodes st" "st_log st' = st_log st" "st_net st' = st_net st"
    using \<sigma> that by (auto simp: follows_def)
  from assms(1) show ?thesis
  proof cases
    case (invoke p a n sends outs)
    then show ?thesis
      using invoke_sim [OF \<sigma> invoke(2)] by (simp add: follows_def st_net_react) (simp add: react_def)
  next
    case (callback d s b rest n sends outs)
    then show ?thesis
      using handle_sim [OF \<sigma>(1) \<sigma>(2) [unfolded st_net_call [OF callback(2)]] callback(3)]
      by (simp add: follows_def st_net_react) (simp add: react_def)
  next
    case (send q m p c rt)
    then show ?thesis by (intro same) (simp_all add: st_net_send transit_send [OF inv])
  next
    case (send_local q m p rt)
    then show ?thesis by (intro same) (simp_all add: st_net_send transit_send_local [OF inv])
  next
    case (batch p calls rt)
    then show ?thesis by (intro same) (simp_all add: st_net_batch [OF transit_batch])
  next
    case (event \<tau>)
    then show ?thesis by (intro same) (simp_all add: st_net_def transit_event [OF _ inv])
  qed
qed

lemma stack_follows:
  assumes "st_reach invoke handle n0 st"
  shows "\<exists>\<sigma>. reach \<sigma> \<and> rel (st_nodes st) (st_net st) (st_log st) \<sigma>"
proof -
  from assms have "follows st"
  proof (induction rule: st_reach.induct)
    case (start nodes)
    have "st_net (stack_init n0 nodes :: ('n, 'o) stack) = {#}" by (rule st_net_init [OF start])
    then show ?case using start_sim unfolding follows_def by (simp add: stack_init_def)
  next
    case (step st st')
    obtain nodes where "rs_reach nodes (st_rel st)" using st_reach_rel [OF step(1)] by blast
    then show ?case using follows_step [OF step(2) rs_reach_inv step.IH] by simp
  qed
  then show ?thesis by (simp add: follows_def)
qed

end


section \<open>Runs\<close>

text \<open>Steps as functions, with a kernel that writes every datagram at once; \<open>None\<close> when the step is not possible. A run skips such steps.\<close>

datatype 'a action =
    AInvoke PeerID 'a
  | ACallback PeerID
  | ASend PeerID PeerID Bytes
  | ABatch PeerID
  | AWrite PeerID PeerID
  | ARead PeerID PeerID Bytes

definition act_send :: "PeerID \<Rightarrow> PeerID \<Rightarrow> Bytes \<Rightarrow> ('n, 'o) stack \<Rightarrow> ('n, 'o) stack option" where
  "act_send p q m st =
     (if (q, m) \<in># st_sends st p then
        let \<sigma> = st_rel st; sends = (st_sends st)(p := st_sends st p - {#(q, m)#}) in
        case Transport_Send q m (rs_nodes \<sigma> p) of
          Inr (Some c, rt) \<Rightarrow> if rs_drawn \<sigma> p < 2 ^ 32 then Some (st\<lparr>st_rel := after_send p q m c rt \<sigma>, st_sends := sends\<rparr>) else None
        | Inr (None, rt) \<Rightarrow> Some (st\<lparr>st_rel := \<sigma>\<lparr>rs_nodes := (rs_nodes \<sigma>)(p := rt)\<rparr>, st_sends := sends\<rparr>)
        | Inl e \<Rightarrow> None
      else None)"

definition act_batch :: "PeerID \<Rightarrow> ('n, 'o) stack \<Rightarrow> ('n, 'o) stack" where
  "act_batch p st = (let \<sigma> = st_rel st; (calls, rt) = Transport_Batch (rs_nodes \<sigma> p) in
     st\<lparr>st_rel := \<sigma>\<lparr>rs_nodes := (rs_nodes \<sigma>)(p := rt), rs_out := (rs_out \<sigma>)(p := rs_out \<sigma> p @ calls)\<rparr>,
        st_calls := (st_calls st)(p := st_calls st p @ calls)\<rparr>)"

primrec act ::
    "(PeerID \<Rightarrow> 'a \<Rightarrow> 'n \<Rightarrow> ('n, 'o) reaction) \<Rightarrow> (PeerID \<Rightarrow> PeerID \<Rightarrow> Bytes \<Rightarrow> 'n \<Rightarrow> ('n, 'o) reaction) \<Rightarrow>
     'a action \<Rightarrow> ('n, 'o) stack \<Rightarrow> ('n, 'o) stack option" where
  "act invoke handle (AInvoke p a) st = map_option (\<lambda>(n, sends, outs). react p n sends outs st) (invoke p a (st_nodes st p))"
| "act invoke handle (ACallback d) st =
     (case st_calls st d of
        [] \<Rightarrow> None
      | (s, b) # rest \<Rightarrow> map_option (\<lambda>(n, sends, outs). react d n sends outs (st\<lparr>st_calls := (st_calls st)(d := rest)\<rparr>))
          (handle d s b (st_nodes st d)))"
| "act invoke handle (ASend p q m) st = act_send p q m st"
| "act invoke handle (ABatch p) st = Some (act_batch p st)"
| "act invoke handle (AWrite p q) st =
     (let \<sigma> = st_rel st in
      case Transport_Write (\<lambda>a b. b) (\<lambda>_. Ret 0) kWriteReady q (rs_nodes \<sigma> p) of
        Inr (sent, rt) \<Rightarrow> Some (st\<lparr>st_rel := \<sigma>\<lparr>rs_nodes := (rs_nodes \<sigma>)(p := rt), rs_net := rs_net \<sigma> \<union> (\<lambda>b. (p, q, b)) ` set sent\<rparr>\<rparr>)
      | Inl e \<Rightarrow> None)"
| "act invoke handle (ARead s d b) st =
     (let \<sigma> = st_rel st in
      if (s, d, b) \<in> rs_net \<sigma> \<and> rs_drawn \<sigma> d < 2 ^ 32 then
        case Transport_Read (Ret 0) s b (rs_nodes \<sigma> d) of
          Inr (rt, es) \<Rightarrow> Some (st\<lparr>st_rel := after_read d s rt es \<sigma>\<rparr>)
        | Inl e \<Rightarrow> None
      else None)"

definition act_run ::
    "(PeerID \<Rightarrow> 'a \<Rightarrow> 'n \<Rightarrow> ('n, 'o) reaction) \<Rightarrow> (PeerID \<Rightarrow> PeerID \<Rightarrow> Bytes \<Rightarrow> 'n \<Rightarrow> ('n, 'o) reaction) \<Rightarrow>
     'a action list \<Rightarrow> ('n, 'o) stack \<Rightarrow> ('n, 'o) stack" where
  "act_run invoke handle as st = fold (\<lambda>a st. case act invoke handle a st of None \<Rightarrow> st | Some st' \<Rightarrow> st') as st"

lemmas send_step = st_step.send [simplified] and read_step = rs_event.read_event [simplified]

lemma act_send_step: "act_send p q m st = Some st' \<Longrightarrow> st_step invoke handle st st'"
  by (auto simp: act_send_def Let_def split: if_splits sum.splits option.splits
      intro: send_step st_step.send_local)

lemma act_step: "act invoke handle a st = Some st' \<Longrightarrow> st_step invoke handle st st'"
proof (cases a)
  case (ABatch p)
  moreover assume "act invoke handle a st = Some st'"
  ultimately show ?thesis by (auto simp: act_batch_def Let_def split: prod.splits intro: st_step.batch)
qed (auto simp: Let_def split: list.splits if_splits sum.splits
    intro: st_step.invoke st_step.callback act_send_step st_step.event rs_event.write_event read_step)

lemma act_run_reach: "st_reach invoke handle n0 st \<Longrightarrow> st_reach invoke handle n0 (act_run invoke handle as st)"
  by (induction as arbitrary: st) (auto simp: act_run_def split: option.split dest!: act_step intro: st_reach.step)

end
