(* ===== verification/Uniform_Reliable_Broadcast.thy ===== *)
theory Uniform_Reliable_Broadcast
  imports Hosts Payload Concurrent_Containers
begin

text \<open>
  Best-effort and uniform reliable broadcast at one process
  (\<open>include/primitives/best_effort_broadcast.hpp\<close>,
  \<open>include/primitives/uniform_reliable_broadcast.hpp\<close>): the wire format, the callback
  for messages of the transport, \<open>Broadcast\<close> and the garbage collection of the set of
  delivered messages. As in lattice agreement, the callback is a function on decoded messages
  that returns its effects in order; \<open>URB_callback_bytes\<close> adds the decoding. The loop of the
  garbage collection counts with a 32-bit variable and does not end when its last id is the
  largest one, so the operations that run it return an \<open>option\<close>, \<open>None\<close> for not
  returning.
\<close>

section \<open>Wire format\<close>

record URBMessage =
  um_source :: PeerID
  um_urb_id :: MessageID
  um_message :: Bytes

definition URBMessage_HeaderSize :: nat where
  "URBMessage_HeaderSize = size_of TYPE(8) + size_of TYPE(32)"

definition URBMessage_Size :: "URBMessage \<Rightarrow> nat" where
  "URBMessage_Size m = URBMessage_HeaderSize + length (um_message m)"

definition URBMessage_Marshal :: "URBMessage \<Rightarrow> Bytes \<Rightarrow> Bytes option" where
  "URBMessage_Marshal m bytes = do {
     check (length bytes \<ge> URBMessage_Size m);
     data \<leftarrow> BinaryMarshalPrimitiveType (um_source m) ([], bytes);
     data \<leftarrow> BinaryMarshalPrimitiveType (um_urb_id m) data;
     data \<leftarrow> copy_bytes (um_message m) data;
     Some (buffer_of data)
   }"

definition URBMessage_MarshalExtract :: "URBMessage \<Rightarrow> Bytes \<Rightarrow> Bytes option" where
  "URBMessage_MarshalExtract m bytes = do {
     check (length bytes \<ge> URBMessage_Size m);
     data \<leftarrow> BinaryMarshalPrimitiveType (um_source m) ([], bytes);
     data \<leftarrow> BinaryMarshalPrimitiveType (um_urb_id m) data;
     data \<leftarrow> copy_bytes (um_message m) data;
     Some (buffer_of data)
   }"

definition URBMessage_Unmarshal :: "Bytes \<Rightarrow> URBMessage option" where
  "URBMessage_Unmarshal bytes = do {
     check (length bytes \<ge> URBMessage_HeaderSize);
     s \<leftarrow> BinaryUnmarshalPrimitiveType bytes;
     let data = drop (size_of TYPE(8)) bytes;
     i \<leftarrow> BinaryUnmarshalPrimitiveType data;
     Some \<lparr>um_source = s, um_urb_id = i, um_message = drop URBMessage_HeaderSize bytes\<rparr>
   }"

definition URBMessage_image :: "URBMessage \<Rightarrow> Bytes" where
  "URBMessage_image m = object_bytes (um_source m) @ object_bytes (um_urb_id m) @ um_message m"

lemma length_URBMessage_image [simp]: "length (URBMessage_image m) = URBMessage_Size m"
  by (simp add: URBMessage_image_def URBMessage_Size_def URBMessage_HeaderSize_def)

lemma URBMessage_MarshalExtract_eq: "URBMessage_MarshalExtract = URBMessage_Marshal"
  by (intro ext) (simp only: URBMessage_MarshalExtract_def URBMessage_Marshal_def)

interpretation urb_message: serializable URBMessage_Size URBMessage_Marshal URBMessage_Unmarshal
  URBMessage_image "\<lambda>_. True"
proof unfold_locales
  fix m :: URBMessage and buf :: Bytes
  assume "length buf = URBMessage_Size m"
  then show "URBMessage_Marshal m buf = Some (URBMessage_image m @ drop (length (URBMessage_image m)) buf)"
    by (auto simp: URBMessage_Marshal_def URBMessage_image_def URBMessage_Size_def URBMessage_HeaderSize_def
        wire buffer_of_def add.commute)
next
  fix m :: URBMessage and r :: Bytes
  assume "length r = URBMessage_Size m - length (URBMessage_image m)"
  then show "URBMessage_Unmarshal (URBMessage_image m @ r) = Some m"
    by (simp add: URBMessage_Unmarshal_def URBMessage_image_def URBMessage_HeaderSize_def URBMessage_Size_def wire)
qed simp

section \<open>Best-effort broadcast\<close>

text \<open>One send per peer, in the order of the table, and one to the local process.\<close>

definition BEB_Broadcast :: "HostsTable \<Rightarrow> 'm \<Rightarrow> (PeerID \<times> 'm) list" where
  "BEB_Broadcast hosts message =
     map (\<lambda>peer. (peer, message)) (GetPeers hosts) @ [(LocalID hosts, message)]"

section \<open>State\<close>

record URBIdentifier =
  idf_peer :: PeerID
  idf_urb_id :: MessageID

record URB =
  urb_hosts :: HostsTable
  urb_localID :: PeerID
  urb_network_size :: nat
  urb_ids :: MessageID
  urb_pending :: "URBIdentifier \<rightharpoonup> Bytes"
  urb_delivered :: "URBIdentifier set"
  urb_acks :: "URBIdentifier \<rightharpoonup> nat"
  urb_prefix_cleaned :: "PeerID \<rightharpoonup> MessageID"
  urb_prefix_to_clean :: "PeerID \<rightharpoonup> MessageID"

definition URB_init :: "HostsTable \<Rightarrow> URB" where
  "URB_init hosts = \<lparr>urb_hosts = hosts, urb_localID = LocalID hosts,
     urb_network_size = GetNetworkSize hosts True, urb_ids = 0, urb_pending = Map.empty,
     urb_delivered = {}, urb_acks = Map.empty, urb_prefix_cleaned = Map.empty,
     urb_prefix_to_clean = Map.empty\<rparr>"

datatype 'm URBEffect =
    URBSend PeerID 'm
  | URBDeliver URBIdentifier Bytes

definition identifier_of :: "URBMessage \<Rightarrow> URBIdentifier" where
  "identifier_of m = \<lparr>idf_peer = um_source m, idf_urb_id = um_urb_id m\<rparr>"

section \<open>Operations\<close>

definition CanDeliver :: "nat \<Rightarrow> URB \<Rightarrow> bool" where
  "CanDeliver num_acks u \<longleftrightarrow> num_acks > urb_network_size u div 2"

definition WasDelivered :: "URBIdentifier \<Rightarrow> URB \<Rightarrow> bool" where
  "WasDelivered i u =
     (case urb_prefix_cleaned u (idf_peer i) of
        Some prefix \<Rightarrow> if prefix \<ge> idf_urb_id i then True else i \<in> urb_delivered u
      | None \<Rightarrow> i \<in> urb_delivered u)"

partial_function (option) clean_segment ::
    "PeerID \<Rightarrow> MessageID \<Rightarrow> MessageID \<Rightarrow> URBIdentifier set \<Rightarrow> URBIdentifier set option" where
  "clean_segment peer urb_id last_id del =
     (if urb_id \<le> last_id
      then clean_segment peer (urb_id + 1) last_id (del - {\<lparr>idf_peer = peer, idf_urb_id = urb_id\<rparr>})
      else Some del)"

definition DeliveredGarbageCollection :: "PeerID \<Rightarrow> URB \<Rightarrow> URB option" where
  "DeliveredGarbageCollection peer u =
     (case urb_prefix_to_clean u peer of
        None \<Rightarrow> Some u
      | Some segment_to_clean_end \<Rightarrow>
          let segment_to_clean_start =
                (case urb_prefix_cleaned u peer of None \<Rightarrow> 0 | Some prefix \<Rightarrow> prefix + 1)
          in do {
            del \<leftarrow> clean_segment peer segment_to_clean_start segment_to_clean_end (urb_delivered u);
            let u = u\<lparr>urb_delivered := del\<rparr>;
            Some (if segment_to_clean_start \<le> segment_to_clean_end
                  then u\<lparr>urb_prefix_cleaned := (urb_prefix_cleaned u)(peer \<mapsto> segment_to_clean_end)\<rparr>
                  else u)
          })"

definition URB_callback :: "URBMessage \<Rightarrow> URB \<Rightarrow> (URB \<times> URBMessage URBEffect list) option" where
  "URB_callback m u =
     (let i = identifier_of m in
      if WasDelivered i u then Some (u, [])
      else do {
        u \<leftarrow> DeliveredGarbageCollection (idf_peer i) u;
        let num_acks = (case urb_acks u i of None \<Rightarrow> 0 | Some n \<Rightarrow> n) + 1;
        let u = u\<lparr>urb_acks := (urb_acks u)(i \<mapsto> num_acks)\<rparr>;
        Some (if \<not> Map_Has i (urb_pending u) then
                (u\<lparr>urb_pending := Map_Set i (um_message m) (urb_pending u)\<rparr>,
                 map (\<lambda>(peer, m). URBSend peer m) (BEB_Broadcast (urb_hosts u) m))
              else if CanDeliver num_acks u \<and> \<not> WasDelivered i u then
                let u = u\<lparr>urb_delivered := insert i (urb_delivered u)\<rparr>;
                    (message, pending) = Map_Take i (urb_pending u);
                    u = u\<lparr>urb_pending := pending, urb_acks := (urb_acks u)(i := None)\<rparr>
                in (case message of
                      None \<Rightarrow> (u, [])
                    | Some b \<Rightarrow> (u, [URBDeliver i b]))
              else (u, []))
      })"

definition URB_GetNextID :: "URB \<Rightarrow> MessageID \<times> URB" where
  "URB_GetNextID u = (let (i, ids) = UniqueID_Get (urb_ids u) in (i, u\<lparr>urb_ids := ids\<rparr>))"

definition URB_Broadcast :: "Bytes \<Rightarrow> MessageID \<Rightarrow> URB \<Rightarrow> URB \<times> URBMessage URBEffect list" where
  "URB_Broadcast message urb_id u =
     (let m = \<lparr>um_source = urb_localID u, um_urb_id = urb_id, um_message = message\<rparr>;
          i = \<lparr>idf_peer = urb_localID u, idf_urb_id = urb_id\<rparr>
      in (u\<lparr>urb_pending := Map_Set i message (urb_pending u)\<rparr>,
          map (\<lambda>(peer, m). URBSend peer m) (BEB_Broadcast (urb_hosts u) m)))"

definition URB_Broadcast_next :: "Bytes \<Rightarrow> URB \<Rightarrow> URB \<times> URBMessage URBEffect list" where
  "URB_Broadcast_next message u = (let (i, u) = URB_GetNextID u in URB_Broadcast message i u)"

definition CleanDeliveredPrefix :: "PeerID \<Rightarrow> MessageID \<Rightarrow> URB \<Rightarrow> URB" where
  "CleanDeliveredPrefix peer prefix u =
     u\<lparr>urb_prefix_to_clean := (urb_prefix_to_clean u)(peer \<mapsto> prefix)\<rparr>"

section \<open>Serialisation around the callback\<close>

fun marshal_effect :: "URBMessage URBEffect \<Rightarrow> Bytes URBEffect option" where
  "marshal_effect (URBSend p m) =
     map_option (URBSend p) (marshal_fresh URBMessage_Size URBMessage_MarshalExtract m)"
| "marshal_effect (URBDeliver i b) = Some (URBDeliver i b)"

definition URB_callback_bytes :: "Bytes \<Rightarrow> URB \<Rightarrow> (URB \<times> Bytes URBEffect list) option" where
  "URB_callback_bytes bytes u = do {
     m \<leftarrow> URBMessage_Unmarshal bytes;
     (u, es) \<leftarrow> URB_callback m u;
     es \<leftarrow> those (map marshal_effect es);
     Some (u, es)
   }"

section \<open>Garbage collection\<close>

lemma idf_eq_iff:
  "x = \<lparr>idf_peer = p, idf_urb_id = i\<rparr> \<longleftrightarrow> idf_peer x = p \<and> idf_urb_id (x :: URBIdentifier) = i"
  by (cases x) simp

lemma clean_segment_ends:
  assumes "unat last_id < 4294967295"
  shows "clean_segment peer i last_id del =
    Some (del - {x. idf_peer x = peer \<and> i \<le> idf_urb_id x \<and> idf_urb_id x \<le> last_id})"
proof (induction "unat last_id + 1 - unat i" arbitrary: i del)
  case 0
  then have "\<not> i \<le> last_id" by (simp add: word_le_nat_alt)
  then show ?case using 0 by (auto simp: clean_segment.simps)
next
  case (Suc n)
  then have le: "i \<le> last_id" by (simp add: word_le_nat_alt)
  have next_id: "unat (i + 1) = unat i + 1"
    using le assms by (intro unat_add_one_u32) (simp add: word_le_nat_alt)
  have "{x. idf_peer x = peer \<and> i \<le> idf_urb_id x \<and> idf_urb_id x \<le> last_id} =
      insert \<lparr>idf_peer = peer, idf_urb_id = i\<rparr>
        {x. idf_peer x = peer \<and> i + 1 \<le> idf_urb_id x \<and> idf_urb_id x \<le> last_id}"
  proof -
    have "i \<le> j \<longleftrightarrow> j = i \<or> i + 1 \<le> j" for j
      using next_id by (auto simp: word_le_nat_alt word_unat_eq_iff)
    then show ?thesis using le by (intro set_eqI) (auto simp: idf_eq_iff)
  qed
  note segment = this
  have "clean_segment peer i last_id del =
      clean_segment peer (i + 1) last_id (del - {\<lparr>idf_peer = peer, idf_urb_id = i\<rparr>})"
    using le by (subst clean_segment.simps) simp
  also have "\<dots> = Some (del - {\<lparr>idf_peer = peer, idf_urb_id = i\<rparr>} -
      {x. idf_peer x = peer \<and> i + 1 \<le> idf_urb_id x \<and> idf_urb_id x \<le> last_id})"
    using Suc.hyps(2) next_id by (intro Suc.hyps(1)) simp
  finally show ?case unfolding segment by (metis Diff_insert2)
qed

lemma clean_segment_result:
  assumes "clean_segment peer i last_id del = Some r"
  shows "last_id \<noteq> - 1"
  using assms by (rule clean_segment.raw_induct [rotated]) (auto split: if_splits)

lemma clean_segment_diverges: "clean_segment peer i (- 1) del = None"
  using clean_segment_result [of peer i "- 1" del] by (cases "clean_segment peer i (- 1) del") auto

text \<open>
  What the client promises about prefixes: every id up to the prefix was delivered, and the
  largest id is never reached.
\<close>

definition prefix_ok :: "(URBIdentifier \<Rightarrow> bool) \<Rightarrow> PeerID \<Rightarrow> MessageID option \<Rightarrow> bool" where
  "prefix_ok D peer p \<longleftrightarrow> (\<forall>e. p = Some e \<longrightarrow> unat e < 4294967295 \<and>
     (\<forall>i \<le> e. D \<lparr>idf_peer = peer, idf_urb_id = i\<rparr>))"

definition gc_ok :: "URB \<Rightarrow> bool" where
  "gc_ok u \<longleftrightarrow> (\<forall>peer. prefix_ok (\<lambda>x. WasDelivered x u) peer (urb_prefix_to_clean u peer) \<and>
     prefix_ok (\<lambda>x. WasDelivered x u) peer (urb_prefix_cleaned u peer))"

lemma WasDelivered_iff:
  "WasDelivered x u \<longleftrightarrow> x \<in> urb_delivered u \<or>
     (\<exists>c. urb_prefix_cleaned u (idf_peer x) = Some c \<and> idf_urb_id x \<le> c)"
  by (auto simp: WasDelivered_def split: option.split)

lemma idf_eta [simp]: "\<lparr>idf_peer = idf_peer x, idf_urb_id = idf_urb_id x\<rparr> = (x :: URBIdentifier)"
  by simp

lemma gc_ok_delivered:
  assumes "gc_ok u" and "urb_prefix_to_clean u (idf_peer x) = Some e" and "idf_urb_id x \<le> e"
  shows "WasDelivered x u"
proof -
  have "WasDelivered \<lparr>idf_peer = idf_peer x, idf_urb_id = idf_urb_id x\<rparr> u"
    using assms unfolding gc_ok_def prefix_ok_def by blast
  then show ?thesis by simp
qed

text \<open>The segment that was already cleaned needs no cleaning: the loop may start after it.\<close>

lemma after_cleaned:
  assumes "unat c < 4294967295"
  shows "c + 1 \<le> j \<longleftrightarrow> \<not> j \<le> (c :: u32)"
  using assms unat_add_one_u32 [of c] by (auto simp: word_le_nat_alt)

lemma GC_correct:
  assumes ok: "gc_ok u"
  shows "\<exists>u'. DeliveredGarbageCollection peer u = Some u' \<and> gc_ok u' \<and>
    (\<forall>x. WasDelivered x u' = WasDelivered x u) \<and>
    u' = u\<lparr>urb_delivered := urb_delivered u', urb_prefix_cleaned := urb_prefix_cleaned u'\<rparr>"
proof (cases "urb_prefix_to_clean u peer")
  case None
  then show ?thesis using ok by (simp add: DeliveredGarbageCollection_def)
next
  case (Some e)
  let ?start = "case urb_prefix_cleaned u peer of None \<Rightarrow> 0 | Some prefix \<Rightarrow> prefix + 1"
  let ?S = "{x. idf_peer x = peer \<and> ?start \<le> idf_urb_id x \<and> idf_urb_id x \<le> e}"
  define u' where "u' = (let u = u\<lparr>urb_delivered := urb_delivered u - ?S\<rparr> in
    if ?start \<le> e then u\<lparr>urb_prefix_cleaned := (urb_prefix_cleaned u)(peer \<mapsto> e)\<rparr> else u)"
  have e: "unat e < 4294967295" using ok Some by (simp add: gc_ok_def prefix_ok_def)
  have run: "DeliveredGarbageCollection peer u = Some u'"
    using Some clean_segment_ends [OF e] by (simp add: DeliveredGarbageCollection_def u'_def Let_def)
  have start: "?start \<le> j \<longleftrightarrow> (\<forall>c. urb_prefix_cleaned u peer = Some c \<longrightarrow> \<not> j \<le> c)" for j
    using ok after_cleaned by (auto simp: gc_ok_def prefix_ok_def split: option.split)
  have same: "WasDelivered x u' = WasDelivered x u" for x
  proof (cases "idf_peer x = peer \<and> ?start \<le> e")
    case True
    have "WasDelivered x u" if "idf_urb_id x \<le> e"
      using gc_ok_delivered [OF ok] True that Some by simp
    moreover have "\<not> c \<ge> idf_urb_id x" if "urb_prefix_cleaned u peer = Some c" "\<not> idf_urb_id x \<le> e" for c
      using start [of e] True that by (meson order_trans linear)
    ultimately show ?thesis using True by (auto simp: WasDelivered_iff u'_def Let_def)
  next
    case False
    then have "idf_peer x = peer \<Longrightarrow> ?S = {}" using order_trans by blast
    with False show ?thesis by (cases "idf_peer x = peer") (auto simp: WasDelivered_iff u'_def Let_def)
  qed
  have "gc_ok u'"
    using ok Some e unfolding gc_ok_def prefix_ok_def same by (auto simp: u'_def Let_def)
  moreover have "u' = u\<lparr>urb_delivered := urb_delivered u', urb_prefix_cleaned := urb_prefix_cleaned u'\<rparr>"
    by (simp add: u'_def Let_def)
  ultimately show ?thesis using run same by blast
qed

section \<open>What the callback does to one message\<close>

text \<open>
  The state of a message at a process: was it delivered, how many copies were counted, and
  the pending content. The callback is \<open>msg_step\<close> on the message it is called with and
  leaves the others alone, whatever the garbage collection does.
\<close>

type_synonym msg_state = "bool \<times> nat \<times> Bytes option"

definition msg_view :: "URB \<Rightarrow> URBIdentifier \<Rightarrow> msg_state" where
  "msg_view u x = (WasDelivered x u, case urb_acks u x of None \<Rightarrow> 0 | Some n \<Rightarrow> n, urb_pending u x)"

fun msg_step :: "nat \<Rightarrow> Bytes \<Rightarrow> msg_state \<Rightarrow> msg_state" where
  "msg_step n b (True, a, p) = (True, a, p)"
| "msg_step n b (False, a, None) = (False, Suc a, Some b)"
| "msg_step n b (False, a, Some c) = (if Suc a > n div 2 then (True, 0, None) else (False, Suc a, Some c))"

definition sends_to_all :: "HostsTable \<Rightarrow> 'm \<Rightarrow> 'm URBEffect list" where
  "sends_to_all hosts m = map (\<lambda>(peer, m). URBSend peer m) (BEB_Broadcast hosts m)"

fun msg_effects :: "HostsTable \<Rightarrow> nat \<Rightarrow> URBMessage \<Rightarrow> msg_state \<Rightarrow> URBMessage URBEffect list" where
  "msg_effects hosts n m (True, a, p) = []"
| "msg_effects hosts n m (False, a, None) = sends_to_all hosts m"
| "msg_effects hosts n m (False, a, Some c) = (if Suc a > n div 2 then [URBDeliver (identifier_of m) c] else [])"

definition urb_config :: "URB \<Rightarrow> HostsTable \<times> PeerID \<times> nat" where
  "urb_config u = (urb_hosts u, urb_localID u, urb_network_size u)"

lemma gc_ok_more:
  assumes "gc_ok u" and "\<And>x. WasDelivered x u \<Longrightarrow> WasDelivered x u'"
    and "urb_prefix_to_clean u' = urb_prefix_to_clean u" and "urb_prefix_cleaned u' = urb_prefix_cleaned u"
  shows "gc_ok u'"
  using assms unfolding gc_ok_def prefix_ok_def by metis

lemma URB_callback_undelivered:
  fixes m
  assumes ok: "gc_ok u" and False: "\<not> WasDelivered (identifier_of m) u"
  defines "i \<equiv> identifier_of m"
  shows "\<exists>u'. URB_callback m u = Some (u', msg_effects (urb_hosts u) (urb_network_size u) m (msg_view u i)) \<and>
    gc_ok u' \<and> msg_view u' = (msg_view u)(i := msg_step (urb_network_size u) (um_message m) (msg_view u i)) \<and>
    urb_config u' = urb_config u \<and> urb_ids u' = urb_ids u"
proof -
  note False = False [folded i_def]
  obtain g where g: "DeliveredGarbageCollection (idf_peer i) u = Some g" and okg: "gc_ok g"
    and same: "\<And>x. WasDelivered x g = WasDelivered x u"
    and frame: "g = u\<lparr>urb_delivered := urb_delivered g, urb_prefix_cleaned := urb_prefix_cleaned g\<rparr>"
    using GC_correct [OF ok] by metis
  have fields: "urb_hosts g = urb_hosts u" "urb_localID g = urb_localID u"
    "urb_network_size g = urb_network_size u" "urb_ids g = urb_ids u" "urb_pending g = urb_pending u"
    "urb_acks g = urb_acks u" "urb_prefix_to_clean g = urb_prefix_to_clean u"
    by (subst frame, simp)+
  let ?a = "case urb_acks u i of None \<Rightarrow> 0 | Some n \<Rightarrow> n"
  have W [simp]: "WasDelivered x (v\<lparr>urb_acks := A\<rparr>) = WasDelivered x v"
    "WasDelivered x (v\<lparr>urb_pending := P\<rparr>) = WasDelivered x v"
    "WasDelivered x (v\<lparr>urb_delivered := insert i (urb_delivered v)\<rparr>) \<longleftrightarrow> x = i \<or> WasDelivered x v"
    for x v A P by (auto simp: WasDelivered_iff)
  have okd: "gc_ok (g\<lparr>urb_delivered := insert i (urb_delivered g), urb_pending := P, urb_acks := A\<rparr>)" for A P
    by (rule gc_ok_more [OF okg]) (auto simp: WasDelivered_iff)
  have okp: "gc_ok (g\<lparr>urb_acks := A, urb_pending := P\<rparr>)" "gc_ok (g\<lparr>urb_acks := A\<rparr>)" for A P
    by (rule gc_ok_more [OF okg]; simp)+
  have view: "msg_view u i = (False, ?a, urb_pending u i)" using False by (simp add: msg_view_def)
  consider (first) "urb_pending u i = None"
    | (deliver) c where "urb_pending u i = Some c" "Suc ?a > urb_network_size u div 2"
    | (wait) c where "urb_pending u i = Some c" "\<not> Suc ?a > urb_network_size u div 2"
    by blast
  then show ?thesis
  proof cases
    case first
    then show ?thesis
      using False g fields view same okp
      by (auto simp: URB_callback_def Let_def i_def [symmetric] Map_Has_def Map_Set_def urb_config_def
          sends_to_all_def msg_view_def fun_eq_iff)
  next
    case deliver
    then show ?thesis
      using False g fields view same okd
      by (auto simp: URB_callback_def Let_def i_def [symmetric] Map_Has_def Map_Take_def urb_config_def
          CanDeliver_def msg_view_def fun_eq_iff)
  next
    case wait
    then show ?thesis
      using False g fields view same okp
      by (auto simp: URB_callback_def Let_def i_def [symmetric] Map_Has_def urb_config_def
          CanDeliver_def msg_view_def fun_eq_iff)
  qed
qed

lemma URB_callback_step:
  fixes m
  assumes ok: "gc_ok u"
  defines "i \<equiv> identifier_of m"
  shows "\<exists>u'. URB_callback m u = Some (u', msg_effects (urb_hosts u) (urb_network_size u) m (msg_view u i)) \<and>
    gc_ok u' \<and> msg_view u' = (msg_view u)(i := msg_step (urb_network_size u) (um_message m) (msg_view u i)) \<and>
    urb_config u' = urb_config u \<and> urb_ids u' = urb_ids u"
proof (cases "WasDelivered i u")
  case True
  then have "msg_view u i = (True, snd (msg_view u i))" by (simp add: msg_view_def)
  then obtain a p where "msg_view u i = (True, a, p)" by (metis surj_pair)
  with True ok show ?thesis by (auto simp: URB_callback_def i_def Let_def)
next
  case False
  then show ?thesis using URB_callback_undelivered [OF ok] by (simp add: i_def)
qed

lemma URB_Broadcast_step:
  assumes "urb_pending u \<lparr>idf_peer = urb_localID u, idf_urb_id = urb_ids u\<rparr> = None" and "gc_ok u"
  defines "i \<equiv> \<lparr>idf_peer = urb_localID u, idf_urb_id = urb_ids u\<rparr>"
  shows "\<exists>u'. URB_Broadcast_next b u = (u', sends_to_all (urb_hosts u)
      \<lparr>um_source = urb_localID u, um_urb_id = urb_ids u, um_message = b\<rparr>) \<and> gc_ok u' \<and>
    msg_view u' = (msg_view u)(i := (fst (msg_view u i), fst (snd (msg_view u i)), Some b)) \<and>
    urb_config u' = urb_config u \<and> urb_ids u' = urb_ids u + 1"
proof -
  have W [simp]: "WasDelivered x (v\<lparr>urb_ids := k, urb_pending := P\<rparr>) = WasDelivered x v" for x v P k
    by (simp add: WasDelivered_iff)
  have "gc_ok (u\<lparr>urb_ids := k, urb_pending := P\<rparr>)" for P k
    by (rule gc_ok_more [OF assms(2)]) simp_all
  then show ?thesis
    using assms(1)
    by (auto simp: URB_Broadcast_next_def URB_GetNextID_def UniqueID_Get_def URB_Broadcast_def Let_def
        sends_to_all_def Map_Set_def urb_config_def msg_view_def fun_eq_iff i_def)
qed

end
