(* ===== verification/FIFO_Broadcast.thy ===== *)
theory FIFO_Broadcast
  imports Uniform_Reliable_Broadcast
begin

text \<open>
  FIFO broadcast at one process (\<open>include/primitives/fifo_broadcast.hpp\<close>): the callback for
  messages of uniform reliable broadcast with its reordering buffer, \<open>Deliver\<close>,
  \<open>Broadcast\<close>, and their composition with the reliable broadcast underneath. The maps
  \<open>next_ids_\<close> and \<open>pendings_\<close> are only accessed by \<open>operator[]\<close>, which creates a
  default entry, so they are total functions. A \<open>std::map\<close> is the list of its entries in
  the order of the keys.

  The loop of the callback compares the next id with \<open>begin()->first\<close> also when the buffer
  is empty. What is read there is the parameter \<open>end_key\<close>: the standard leaves it undefined;
  libstdc++ keeps the number of nodes at that place, which is 0 for an empty map. If it were
  equal to the next id, the code would go on with an entry that does not exist.
\<close>

section \<open>State\<close>

type_synonym Pending = "(MessageID \<times> Bytes) list"

record FIFO =
  ff_urb :: URB
  ff_localID :: PeerID
  ff_pendings :: "PeerID \<Rightarrow> Pending"
  ff_next_ids :: "PeerID \<Rightarrow> MessageID"
  ff_entries :: "MessageID \<rightharpoonup> nat"
  ff_next_contract :: nat

definition FIFO_init :: "HostsTable \<Rightarrow> FIFO" where
  "FIFO_init hosts = \<lparr>ff_urb = URB_init hosts, ff_localID = LocalID hosts, ff_pendings = (\<lambda>_. []),
     ff_next_ids = (\<lambda>_. 0), ff_entries = Map.empty, ff_next_contract = 0\<rparr>"

datatype FIFOEffect =
    FSend PeerID URBMessage
  | FFulfil nat
  | FDeliver PeerID Bytes

text \<open>\<open>emplace\<close> and \<open>erase\<close> of a \<open>std::map\<close>.\<close>

fun map_emplace :: "MessageID \<Rightarrow> Bytes \<Rightarrow> Pending \<Rightarrow> Pending" where
  "map_emplace k b [] = [(k, b)]"
| "map_emplace k b ((j, c) # rest) =
     (if k < j then (k, b) # (j, c) # rest
      else if k = j then (j, c) # rest
      else (j, c) # map_emplace k b rest)"

definition map_erase :: "MessageID \<Rightarrow> Pending \<Rightarrow> Pending" where
  "map_erase k m = filter (\<lambda>(j, c). j \<noteq> k) m"

section \<open>Operations\<close>

definition Deliver :: "PeerID \<Rightarrow> MessageID \<Rightarrow> Bytes \<Rightarrow> FIFO \<Rightarrow> FIFO \<times> FIFOEffect list" where
  "Deliver peer i message f =
     (let f = f\<lparr>ff_urb := CleanDeliveredPrefix peer i (ff_urb f)\<rparr>;
          (f, es) = (if peer = ff_localID f then
              (case Map_Take i (ff_entries f) of (entry, entries) \<Rightarrow>
                (f\<lparr>ff_entries := entries\<rparr>, case entry of Some c \<Rightarrow> [FFulfil c] | None \<Rightarrow> []))
            else (f, []))
      in (f, es @ [FDeliver peer message]))"

text \<open>The loop, from the position of the iterator on.\<close>

fun deliver_ready ::
    "MessageID \<Rightarrow> PeerID \<Rightarrow> Pending \<Rightarrow> FIFO \<Rightarrow> fault + (FIFO \<times> FIFOEffect list)" where
  "deliver_ready end_key src [] f =
     (if ff_next_ids f src = end_key then Inl EndDereferenced else Inr (f, []))"
| "deliver_ready end_key src ((k, message) # rest) f =
     (if ff_next_ids f src = k then
        let f = f\<lparr>ff_next_ids := (ff_next_ids f)(src := ff_next_ids f src + 1)\<rparr>;
            f = f\<lparr>ff_pendings := (ff_pendings f)(src := map_erase k (ff_pendings f src))\<rparr>;
            (f, es) = Deliver src k message f
        in fbind (deliver_ready end_key src rest f) (\<lambda>(f, es'). Inr (f, es @ es'))
      else Inr (f, []))"

definition FIFO_callback ::
    "MessageID \<Rightarrow> URBIdentifier \<Rightarrow> Bytes \<Rightarrow> FIFO \<Rightarrow> fault + (FIFO \<times> FIFOEffect list)" where
  "FIFO_callback end_key i message f =
     (let src = idf_peer i;
          (f, es) = (if ff_next_ids f src = idf_urb_id i then
              Deliver src (idf_urb_id i) message
                (f\<lparr>ff_next_ids := (ff_next_ids f)(src := ff_next_ids f src + 1)\<rparr>)
            else (f\<lparr>ff_pendings := (ff_pendings f)
                      (src := map_emplace (idf_urb_id i) message (ff_pendings f src))\<rparr>, []))
      in fbind (deliver_ready end_key src (ff_pendings f src) f) (\<lambda>(f, es'). Inr (f, es @ es')))"

definition FIFO_Broadcast :: "Bytes \<Rightarrow> FIFO \<Rightarrow> FIFO \<times> nat \<times> FIFOEffect list" where
  "FIFO_Broadcast message f =
     (let c = ff_next_contract f;
          f = f\<lparr>ff_next_contract := Suc c\<rparr>;
          (message_id, u) = URB_GetNextID (ff_urb f);
          f = f\<lparr>ff_entries := Map_Set message_id c (ff_entries f)\<rparr>;
          (u, es) = URB_Broadcast message message_id u
      in (f\<lparr>ff_urb := u\<rparr>, c, List.map_filter
            (\<lambda>e. case e of URBSend p m \<Rightarrow> Some (FSend p m) | URBDeliver i b \<Rightarrow> None) es))"

text \<open>The transport callback: the callback of reliable broadcast, and that of FIFO where it delivers.\<close>

fun FIFO_effects :: "MessageID \<Rightarrow> URBMessage URBEffect list \<Rightarrow> FIFO \<Rightarrow>
    fault + (FIFO \<times> FIFOEffect list)" where
  "FIFO_effects end_key [] f = Inr (f, [])"
| "FIFO_effects end_key (URBSend p m # es) f =
     fbind (FIFO_effects end_key es f) (\<lambda>(f, es'). Inr (f, FSend p m # es'))"
| "FIFO_effects end_key (URBDeliver i b # es) f =
     fbind (FIFO_callback end_key i b f) (\<lambda>(f, es1).
     fbind (FIFO_effects end_key es f) (\<lambda>(f, es2). Inr (f, es1 @ es2)))"

definition FIFO_transport_callback ::
    "MessageID \<Rightarrow> URBMessage \<Rightarrow> FIFO \<Rightarrow> (fault + (FIFO \<times> FIFOEffect list)) option" where
  "FIFO_transport_callback end_key m f =
     map_option (\<lambda>(u, es). FIFO_effects end_key es (f\<lparr>ff_urb := u\<rparr>)) (URB_callback m (ff_urb f))"

section \<open>The reordering buffer\<close>

fun deliveries_of :: "PeerID \<Rightarrow> FIFOEffect list \<Rightarrow> Bytes list" where
  "deliveries_of p [] = []"
| "deliveries_of p (FDeliver q b # es) = (if q = p then b # deliveries_of p es else deliveries_of p es)"
| "deliveries_of p (_ # es) = deliveries_of p es"

lemma deliveries_of_append [simp]: "deliveries_of p (es @ fs) = deliveries_of p es @ deliveries_of p fs"
  by (induction p es rule: deliveries_of.induct) auto

text \<open>
  \<open>R\<close> is what was received from one source: the buffer holds what was received at or after
  \<open>n\<close>, in order, and everything before \<open>n\<close> was received.
\<close>

definition buffered :: "(nat \<rightharpoonup> Bytes) \<Rightarrow> nat \<Rightarrow> Pending \<Rightarrow> bool" where
  "buffered R n pend \<longleftrightarrow> sorted_wrt (<) (map fst pend) \<and>
     (\<forall>k b. (k, b) \<in> set pend \<longleftrightarrow> n \<le> unat k \<and> R (unat k) = Some b) \<and> (\<forall>i<n. R i \<noteq> None)"

lemma set_map_emplace:
  "k \<notin> fst ` set m \<Longrightarrow> set (map_emplace k b m) = insert (k, b) (set m)"
  by (induction k b m rule: map_emplace.induct) auto

lemma sorted_map_emplace:
  "sorted_wrt (<) (map fst m) \<Longrightarrow> k \<notin> fst ` set m \<Longrightarrow> sorted_wrt (<) (map fst (map_emplace k b m))"
  by (induction k b m rule: map_emplace.induct) (auto simp: set_map_emplace)

lemma map_erase_head:
  assumes "sorted_wrt (<) (map fst ((k, b) # m))"
  shows "map_erase k ((k, b) # m) = m"
  using assms by (auto simp: map_erase_def filter_id_conv)

lemma buffered_emplace:
  assumes "buffered R n m" and "n \<le> unat k" and "R (unat k) = None"
  shows "buffered (R(unat k \<mapsto> b)) n (map_emplace k b m)"
proof -
  have fresh: "k \<notin> fst ` set m" using assms(1,3) by (auto simp: buffered_def)
  show ?thesis
    using assms sorted_map_emplace [of m k b] fresh
    by (auto simp: buffered_def set_map_emplace word_unat_eq_iff [symmetric])
qed

lemma buffered_skip:
  assumes "buffered R n m" and "R n = None"
  shows "buffered (R(n \<mapsto> b)) (Suc n) m"
  using assms unfolding buffered_def
  by (auto simp: less_Suc_eq Suc_le_eq)

lemma buffered_tail:
  assumes "buffered R n ((k, b) # m)" and "unat k = n"
  shows "buffered R (Suc n) m" and "R n = Some b"
proof -
  show Rn: "R n = Some b" using assms by (auto simp: buffered_def)
  have sorted: "\<forall>j\<in>fst ` set m. k < j" "sorted_wrt (<) (map fst m)" using assms(1) by (auto simp: buffered_def)
  have "(j, c) \<in> set m \<longleftrightarrow> Suc n \<le> unat j \<and> R (unat j) = Some c" for j c
  proof
    assume "(j, c) \<in> set m"
    then show "Suc n \<le> unat j \<and> R (unat j) = Some c"
      using assms sorted(1) by (force simp: buffered_def word_less_nat_alt)
  next
    assume j: "Suc n \<le> unat j \<and> R (unat j) = Some c"
    then have "(j, c) \<in> set ((k, b) # m)" using assms(1) unfolding buffered_def by simp
    then show "(j, c) \<in> set m" using j assms(2) by auto
  qed
  then show "buffered R (Suc n) m"
    using assms sorted(2) Rn unfolding buffered_def by (auto simp: less_Suc_eq)
qed

lemma buffered_head_gap:
  assumes "buffered R n m" and "m = [] \<or> unat (fst (hd m)) \<noteq> n" and "n < 4294967296"
  shows "R n = None"
proof (rule ccontr)
  assume "R n \<noteq> None"
  then obtain b where "R n = Some b" by blast
  then have mem: "(of_nat n, b) \<in> set m" using assms(1,3) by (simp add: buffered_def unat_of_nat_u32)
  then obtain j c rest where m: "m = (j, c) # rest" by (cases m) auto
  then have "n \<le> unat j" using assms(1) by (auto simp: buffered_def)
  moreover have "unat j \<noteq> n" using assms(2) m by simp
  ultimately have less: "n < unat j" by simp
  have "\<forall>x\<in>set rest. j < fst x" using assms(1) m by (auto simp: buffered_def)
  then have "j \<le> of_nat n" using mem m by force
  then show False using less assms(3) by (simp add: word_le_nat_alt unat_of_nat_u32)
qed

section \<open>The callback delivers in order\<close>

definition other_sources :: "PeerID \<Rightarrow> FIFO \<Rightarrow> FIFO \<Rightarrow> bool" where
  "other_sources src f g \<longleftrightarrow> ff_localID g = ff_localID f \<and>
     (\<forall>q. q \<noteq> src \<longrightarrow> ff_pendings g q = ff_pendings f q \<and> ff_next_ids g q = ff_next_ids f q)"

lemma other_sources_trans [inv_intro]:
  "other_sources src f g \<Longrightarrow> other_sources src g h \<Longrightarrow> other_sources src f h"
  by (simp add: other_sources_def)

lemma Deliver_frame:
  assumes "Deliver src k b f = (g, es)"
  shows "ff_pendings g = ff_pendings f" "ff_next_ids g = ff_next_ids f" "ff_localID g = ff_localID f"
    "ff_urb g = CleanDeliveredPrefix src k (ff_urb f)"
    "deliveries_of p es = (if p = src then [b] else [])"
  using assms by (auto simp: Deliver_def Let_def Map_Take_def split: if_splits option.splits)

text \<open>
  From a state in which everything before \<open>n\<close> was taken out, the loop delivers the run of
  received messages from \<open>n\<close> on and stops at the first gap.
\<close>

lemma CleanDeliveredPrefix_twice [simp]:
  "CleanDeliveredPrefix s j (CleanDeliveredPrefix s k u) = CleanDeliveredPrefix s j u"
  by (simp add: CleanDeliveredPrefix_def)

definition cleaned_to :: "PeerID \<Rightarrow> nat \<Rightarrow> nat \<Rightarrow> URB \<Rightarrow> URB" where
  "cleaned_to src n n' u = (if n = n' then u else CleanDeliveredPrefix src (of_nat (n' - 1)) u)"

text \<open>What is left when the messages \<open>n\<close> to \<open>n' - 1\<close> of a source have been handed over.\<close>

definition drained :: "(nat \<rightharpoonup> Bytes) \<Rightarrow> nat \<Rightarrow> nat \<Rightarrow> PeerID \<Rightarrow> FIFO \<Rightarrow> FIFO \<Rightarrow> FIFOEffect list \<Rightarrow> bool" where
  "drained R n n' src f g es \<longleftrightarrow> n \<le> n' \<and> buffered R n' (ff_pendings g src) \<and>
     ff_next_ids g src = of_nat n' \<and> R n' = None \<and> other_sources src f g \<and>
     ff_urb g = cleaned_to src n n' (ff_urb f) \<and>
     deliveries_of src es = map (\<lambda>i. the (R i)) [n..<n'] \<and> (\<forall>p. p \<noteq> src \<longrightarrow> deliveries_of p es = [])"

lemma drained_stop:
  assumes "buffered R n (ff_pendings f src)" and "ff_next_ids f src = of_nat n" and "R n = None"
  shows "drained R n n src f f []"
  using assms by (simp add: drained_def other_sources_def cleaned_to_def)

lemma drained_Deliver:
  assumes del: "Deliver src k b f' = (g1, es1)" and k: "R n = Some b" "unat k = n"
    and same: "other_sources src f f'" "ff_urb f' = ff_urb f" and rest: "drained R (Suc n) n' src g1 g es"
  shows "drained R n n' src f g (es1 @ es)"
proof -
  note frame = Deliver_frame [OF del]
  have "other_sources src f' g1" using frame by (simp add: other_sources_def)
  then have "other_sources src f g"
    using same(1) rest unfolding drained_def by (blast intro: other_sources_trans)
  moreover have "ff_urb g = cleaned_to src n n' (ff_urb f)"
    using rest frame(4) k(2) same(2) by (auto simp: drained_def cleaned_to_def)
  moreover have "[n..<n'] = n # [Suc n..<n']" using rest by (simp add: drained_def upt_conv_Cons)
  ultimately show ?thesis using rest frame(5) k by (simp add: drained_def)
qed

lemma buffered_bound:
  assumes "buffered R n m" and "\<forall>k. R k \<noteq> None \<longrightarrow> k < 4294967295"
  shows "n < 4294967296"
proof (rule ccontr)
  assume "\<not> n < 4294967296"
  then have "R 4294967295 \<noteq> None" using assms(1) by (auto simp: buffered_def)
  then show False using assms(2) by blast
qed

lemma deliver_ready_run:
  assumes "buffered R n pend" and "ff_pendings f src = pend" and "ff_next_ids f src = of_nat n"
    and "\<forall>k. R k \<noteq> None \<longrightarrow> k < 4294967295" and "end_key = 0" and "n = 0 \<longrightarrow> R 0 = None \<and> pend \<noteq> []"
  shows "\<exists>g es n'. deliver_ready end_key src pend f = Inr (g, es) \<and> drained R n n' src f g es"
  using assms
proof (induction pend arbitrary: n f)
  case Nil
  have bound: "n < 4294967296" by (rule buffered_bound [OF Nil.prems(1,4)])
  have "n \<noteq> 0" using Nil.prems(6) by auto
  then have "of_nat n \<noteq> (0 :: u32)" using unat_of_nat_u32 [OF bound] by (metis unat_0)
  moreover have "R n = None" by (rule buffered_head_gap [OF Nil.prems(1) _ bound]) simp
  ultimately show ?case using Nil.prems drained_stop [of R n f src] by auto
next
  case (Cons x rest)
  obtain k b where x: "x = (k, b)" by (cases x)
  have bound: "n < 4294967296" by (rule buffered_bound [OF Cons.prems(1,4)])
  have eq: "ff_next_ids f src = k \<longleftrightarrow> unat k = n"
    using Cons.prems(3) unat_of_nat_u32 [OF bound] by (auto simp: word_unat_eq_iff)
  show ?case
  proof (cases "unat k = n")
    case False
    then have "R n = None" using buffered_head_gap [OF Cons.prems(1) _ bound] x by simp
    then show ?thesis using False eq x Cons.prems drained_stop [of R n f src] by auto
  next
    case True
    let ?f = "f\<lparr>ff_next_ids := (ff_next_ids f)(src := ff_next_ids f src + 1),
      ff_pendings := (ff_pendings f)(src := map_erase k (ff_pendings f src))\<rparr>"
    obtain g1 es1 where del: "Deliver src k b ?f = (g1, es1)" by (cases "Deliver src k b ?f")
    note tail = buffered_tail [OF Cons.prems(1) [unfolded x] True]
    have erase: "map_erase k (ff_pendings f src) = rest"
      using Cons.prems(1,2) x map_erase_head [of k b rest] by (simp add: buffered_def)
    have "\<exists>g es n'. deliver_ready end_key src rest g1 = Inr (g, es) \<and> drained R (Suc n) n' src g1 g es"
      using Cons.prems Deliver_frame [OF del] erase tail(1) by (intro Cons.IH) (simp_all add: add.commute)
    then obtain g es n' where rec: "deliver_ready end_key src rest g1 = Inr (g, es)" "drained R (Suc n) n' src g1 g es"
      by blast
    have "drained R n n' src f g (es1 @ es)"
      by (rule drained_Deliver [OF del tail(2) True _ _ rec(2)]) (simp_all add: other_sources_def)
    then show ?thesis using True eq x del rec(1) by (auto simp: Let_def)
  qed
qed

text \<open>The state of the buffer of one source, given what was received from it.\<close>

definition source_ok :: "(nat \<rightharpoonup> Bytes) \<Rightarrow> nat \<Rightarrow> PeerID \<Rightarrow> FIFO \<Rightarrow> bool" where
  "source_ok R n src f \<longleftrightarrow> buffered R n (ff_pendings f src) \<and> ff_next_ids f src = of_nat n \<and> R n = None \<and>
     (\<forall>k. R k \<noteq> None \<longrightarrow> k < 4294967295)"

lemma source_ok_bound: "source_ok R n src f \<Longrightarrow> n < 4294967296"
  using buffered_bound by (auto simp: source_ok_def)

lemma drained_source_ok:
  assumes "drained R n n' src f g es" and "\<forall>k. R k \<noteq> None \<longrightarrow> k < 4294967295"
  shows "source_ok R n' src g"
  using assms by (simp add: drained_def source_ok_def)

lemma FIFO_callback_run:
  assumes ok: "source_ok R n (idf_peer i) f" and new: "R (unat (idf_urb_id i)) = None"
    and small: "unat (idf_urb_id i) < 4294967295" and ek: "end_key = 0"
  shows "\<exists>g es n'. FIFO_callback end_key i b f = Inr (g, es) \<and>
    drained (R(unat (idf_urb_id i) \<mapsto> b)) n n' (idf_peer i) f g es"
proof -
  let ?k = "idf_urb_id i" and ?R = "R(unat (idf_urb_id i) \<mapsto> b)" and ?src = "idf_peer i"
  have buf: "buffered R n (ff_pendings f ?src)" and nxt: "ff_next_ids f ?src = of_nat n" and gap: "R n = None"
    and bnd: "\<forall>k. ?R k \<noteq> None \<longrightarrow> k < 4294967295"
    using ok small by (auto simp: source_ok_def)
  have nb: "unat (of_nat n :: u32) = n" using source_ok_bound [OF ok] by (rule unat_of_nat_u32)
  have eq: "ff_next_ids f ?src = ?k \<longleftrightarrow> unat ?k = n" using nxt nb by (auto simp: word_unat_eq_iff)
  show ?thesis
  proof (cases "unat ?k = n")
    case True
    let ?f = "f\<lparr>ff_next_ids := (ff_next_ids f)(?src := ff_next_ids f ?src + 1)\<rparr>"
    obtain g1 es1 where del: "Deliver ?src ?k b ?f = (g1, es1)" by (cases "Deliver ?src ?k b ?f")
    note frame = Deliver_frame [OF del]
    have "buffered ?R (Suc n) (ff_pendings f ?src)" using buffered_skip [OF buf gap] True by simp
    then obtain g es n' where rec: "deliver_ready end_key ?src (ff_pendings f ?src) g1 = Inr (g, es)"
      "drained ?R (Suc n) n' ?src g1 g es"
      using deliver_ready_run [of ?R "Suc n" "ff_pendings f ?src" g1 ?src end_key] bnd ek frame nxt
      by (auto simp: add.commute)
    have "drained ?R n n' ?src f g (es1 @ es)"
      by (rule drained_Deliver [OF del _ True _ _ rec(2)]) (simp_all add: other_sources_def True)
    then show ?thesis using True eq del rec(1) frame(1) by (auto simp: FIFO_callback_def Let_def)
  next
    case False
    let ?pend = "map_emplace ?k b (ff_pendings f ?src)"
    let ?f = "f\<lparr>ff_pendings := (ff_pendings f)(?src := ?pend)\<rparr>"
    have above: "n \<le> unat ?k" using new buf by (meson buffered_def leI)
    have "buffered ?R n ?pend" by (rule buffered_emplace [OF buf above new])
    moreover have "?R n = None" using gap False by simp
    moreover have "?pend \<noteq> []" by (cases "ff_pendings f ?src") (auto split: if_splits)
    ultimately obtain g es n' where rec: "deliver_ready end_key ?src ?pend ?f = Inr (g, es)"
      "drained ?R n n' ?src ?f g es"
      using deliver_ready_run [of ?R n ?pend ?f ?src end_key] bnd ek nxt by fastforce
    then have "drained ?R n n' ?src f g es" by (simp add: drained_def other_sources_def)
    then show ?thesis using False eq rec(1) by (auto simp: FIFO_callback_def Let_def)
  qed
qed

end
