(* ===== verification/URB_System.thy ===== *)
theory URB_System
  imports Uniform_Reliable_Broadcast "HOL-Library.Multiset"
begin

text \<open>
  Uniform reliable broadcast across processes. The processes run the operations of
  \<open>Uniform_Reliable_Broadcast\<close> on a network that delivers every message at most once, in
  any order. A step is a call of \<open>Broadcast\<close>, the delivery of one message of the transport
  to the callback, or a call of \<open>CleanDeliveredPrefix\<close> by a client that keeps its side of
  the contract: the prefix was delivered. A crashed process is one that takes no more steps.
  The history fields (prefix \<open>uh_\<close>) record who relayed a message and whose copies a
  process was handed; no step reads them.
\<close>

section \<open>The system\<close>

record urb_system =
  us_nodes :: "PeerID \<Rightarrow> URB"
  us_net :: "(PeerID \<times> PeerID \<times> URBMessage) multiset"
  us_log :: "(PeerID \<times> URBIdentifier \<times> Bytes) list"
  us_sent :: "PeerID \<Rightarrow> Bytes list"
  uh_joined :: "URBIdentifier \<Rightarrow> PeerID set"
  uh_heard :: "PeerID \<Rightarrow> URBIdentifier \<Rightarrow> PeerID set"

definition us_init :: "(PeerID \<Rightarrow> HostsTable) \<Rightarrow> urb_system" where
  "us_init hosts = \<lparr>us_nodes = (\<lambda>p. URB_init (hosts p)), us_net = {#}, us_log = [], us_sent = (\<lambda>_. []),
     uh_joined = (\<lambda>_. {}), uh_heard = (\<lambda>_ _. {})\<rparr>"

fun urb_sends :: "PeerID \<Rightarrow> 'm URBEffect list \<Rightarrow> (PeerID \<times> PeerID \<times> 'm) list" where
  "urb_sends p [] = []"
| "urb_sends p (URBSend q m # es) = (p, q, m) # urb_sends p es"
| "urb_sends p (_ # es) = urb_sends p es"

fun urb_deliveries :: "PeerID \<Rightarrow> 'm URBEffect list \<Rightarrow> (PeerID \<times> URBIdentifier \<times> Bytes) list" where
  "urb_deliveries p [] = []"
| "urb_deliveries p (URBDeliver i b # es) = (p, i, b) # urb_deliveries p es"
| "urb_deliveries p (_ # es) = urb_deliveries p es"

definition us_apply :: "PeerID \<Rightarrow> URBIdentifier \<Rightarrow> URB \<Rightarrow> URBMessage URBEffect list \<Rightarrow> urb_system \<Rightarrow> urb_system" where
  "us_apply p i u es \<sigma> = \<sigma>\<lparr>us_nodes := (us_nodes \<sigma>)(p := u),
     us_net := us_net \<sigma> + mset (urb_sends p es), us_log := us_log \<sigma> @ urb_deliveries p es,
     uh_joined := (uh_joined \<sigma>)(i := (if urb_sends p es = [] then uh_joined \<sigma> i else insert p (uh_joined \<sigma> i)))\<rparr>"

definition us_broadcast :: "PeerID \<Rightarrow> Bytes \<Rightarrow> urb_system \<Rightarrow> urb_system" where
  "us_broadcast p b \<sigma> = (case URB_Broadcast_next b (us_nodes \<sigma> p) of (u, es) \<Rightarrow>
     (us_apply p \<lparr>idf_peer = p, idf_urb_id = urb_ids (us_nodes \<sigma> p)\<rparr> u es \<sigma>)
       \<lparr>us_sent := (us_sent \<sigma>)(p := us_sent \<sigma> p @ [b])\<rparr>)"

definition us_receive :: "PeerID \<times> PeerID \<times> URBMessage \<Rightarrow> URB \<Rightarrow> URBMessage URBEffect list \<Rightarrow> urb_system \<Rightarrow> urb_system" where
  "us_receive x u es \<sigma> = (case x of (s, d, m) \<Rightarrow>
     (us_apply d (identifier_of m) u es (\<sigma>\<lparr>us_net := us_net \<sigma> - {#x#}\<rparr>))
       \<lparr>uh_heard := (uh_heard \<sigma>)(d := (uh_heard \<sigma> d)
          (identifier_of m := insert s (uh_heard \<sigma> d (identifier_of m))))\<rparr>)"

definition delivered_by :: "urb_system \<Rightarrow> PeerID \<Rightarrow> URBIdentifier set" where
  "delivered_by \<sigma> p = {x. \<exists>b. (p, x, b) \<in> set (us_log \<sigma>)}"

inductive us_step :: "PeerID set \<Rightarrow> urb_system \<Rightarrow> urb_system \<Rightarrow> bool" for P where
  broadcast: "p \<in> P \<Longrightarrow> length (us_sent \<sigma> p) < 4294967295 \<Longrightarrow> us_step P \<sigma> (us_broadcast p b \<sigma>)"
| receive: "(s, d, m) \<in># us_net \<sigma> \<Longrightarrow> URB_callback m (us_nodes \<sigma> d) = Some (u, es) \<Longrightarrow>
     us_step P \<sigma> (us_receive (s, d, m) u es \<sigma>)"
| clean: "p \<in> P \<Longrightarrow> \<forall>i \<le> prefix. \<lparr>idf_peer = peer, idf_urb_id = i\<rparr> \<in> delivered_by \<sigma> p \<Longrightarrow>
     us_step P \<sigma> (\<sigma>\<lparr>us_nodes := (us_nodes \<sigma>)(p := CleanDeliveredPrefix peer prefix (us_nodes \<sigma> p))\<rparr>)"

inductive us_reach :: "PeerID set \<Rightarrow> (PeerID \<Rightarrow> HostsTable) \<Rightarrow> urb_system \<Rightarrow> bool" for P hosts where
  start: "us_reach P hosts (us_init hosts)"
| step: "us_reach P hosts \<sigma> \<Longrightarrow> us_step P \<sigma> \<tau> \<Longrightarrow> us_reach P hosts \<tau>"

definition urb_network :: "PeerID set \<Rightarrow> (PeerID \<Rightarrow> HostsTable) \<Rightarrow> bool" where
  "urb_network P hosts \<longleftrightarrow> (\<forall>p\<in>P. enumerates (hosts p) P \<and> localID (hosts p) = p)"

section \<open>Invariant\<close>

text \<open>The content that was broadcast under an identifier.\<close>

definition content :: "urb_system \<Rightarrow> URBIdentifier \<Rightarrow> Bytes option" where
  "content \<sigma> x = (let xs = us_sent \<sigma> (idf_peer x) in
     if unat (idf_urb_id x) < length xs then Some (xs ! unat (idf_urb_id x)) else None)"

definition copies :: "urb_system \<Rightarrow> PeerID \<Rightarrow> PeerID \<Rightarrow> URBIdentifier \<Rightarrow> nat" where
  "copies \<sigma> q d x = size {#y \<in># us_net \<sigma>. fst y = q \<and> fst (snd y) = d \<and> identifier_of (snd (snd y)) = x#}"

text \<open>Every copy that a process sent is under way or was handed over, once.\<close>

definition inv_copies :: "PeerID set \<Rightarrow> urb_system \<Rightarrow> bool" where
  "inv_copies P \<sigma> \<longleftrightarrow> (\<forall>q d x. copies \<sigma> q d x + (if q \<in> uh_heard \<sigma> d x then 1 else 0) =
     (if q \<in> uh_joined \<sigma> x \<and> d \<in> P then 1 else 0))"

definition inv_contents :: "PeerID set \<Rightarrow> urb_system \<Rightarrow> bool" where
  "inv_contents P \<sigma> \<longleftrightarrow>
     (\<forall>q d m. (q, d, m) \<in># us_net \<sigma> \<longrightarrow> d \<in> P \<and> content \<sigma> (identifier_of m) = Some (um_message m)) \<and>
     (\<forall>x. uh_joined \<sigma> x \<subseteq> P \<and> (uh_joined \<sigma> x \<noteq> {} \<longleftrightarrow> content \<sigma> x \<noteq> None) \<and>
        (content \<sigma> x \<noteq> None \<longrightarrow> idf_peer x \<in> uh_joined \<sigma> x))"

text \<open>The state of a message at a process, in terms of the history.\<close>

definition expected_view :: "PeerID set \<Rightarrow> urb_system \<Rightarrow> PeerID \<Rightarrow> URBIdentifier \<Rightarrow> msg_state" where
  "expected_view P \<sigma> d x =
     (if x \<in> delivered_by \<sigma> d then (True, 0, None)
      else (False, card (uh_heard \<sigma> d x), if d \<in> uh_joined \<sigma> x then content \<sigma> x else None))"

definition inv_node :: "PeerID set \<Rightarrow> urb_system \<Rightarrow> PeerID \<Rightarrow> bool" where
  "inv_node P \<sigma> d \<longleftrightarrow> gc_ok (us_nodes \<sigma> d) \<and> enumerates (urb_hosts (us_nodes \<sigma> d)) P \<and>
     urb_localID (us_nodes \<sigma> d) = d \<and> localID (urb_hosts (us_nodes \<sigma> d)) = d \<and>
     urb_network_size (us_nodes \<sigma> d) = card P \<and>
     urb_ids (us_nodes \<sigma> d) = of_nat (length (us_sent \<sigma> d)) \<and>
     msg_view (us_nodes \<sigma> d) = expected_view P \<sigma> d"

definition inv_quorum :: "PeerID set \<Rightarrow> urb_system \<Rightarrow> bool" where
  "inv_quorum P \<sigma> \<longleftrightarrow> (\<forall>d\<in>P. \<forall>x.
     (uh_heard \<sigma> d x \<noteq> {} \<longrightarrow> d \<in> uh_joined \<sigma> x) \<and>
     (x \<in> delivered_by \<sigma> d \<longleftrightarrow> card P div 2 < card (uh_heard \<sigma> d x)))"

definition inv_log :: "urb_system \<Rightarrow> bool" where
  "inv_log \<sigma> \<longleftrightarrow> distinct (map (\<lambda>(d, x, b). (d, x)) (us_log \<sigma>)) \<and>
     (\<forall>d x b. (d, x, b) \<in> set (us_log \<sigma>) \<longrightarrow> content \<sigma> x = Some b)"

definition us_inv :: "PeerID set \<Rightarrow> urb_system \<Rightarrow> bool" where
  "us_inv P \<sigma> \<longleftrightarrow> inv_copies P \<sigma> \<and> inv_contents P \<sigma> \<and> (\<forall>d\<in>P. inv_node P \<sigma> d) \<and> inv_quorum P \<sigma> \<and>
     inv_log \<sigma> \<and> (\<forall>p. length (us_sent \<sigma> p) \<le> 4294967295)"

subsection \<open>Consequences\<close>

lemma heard_joined: "inv_copies P \<sigma> \<Longrightarrow> q \<in> uh_heard \<sigma> d x \<Longrightarrow> q \<in> uh_joined \<sigma> x \<and> d \<in> P"
  unfolding inv_copies_def by (metis add_is_0 one_neq_zero)

lemma copies_member:
  assumes "(q, d, m) \<in># us_net \<sigma>"
  shows "0 < copies \<sigma> q d (identifier_of m)"
  using multi_member_split [OF assms] by (auto simp: copies_def)

lemma copy_fresh:
  assumes "inv_copies P \<sigma>" and "(q, d, m) \<in># us_net \<sigma>"
  shows "q \<notin> uh_heard \<sigma> d (identifier_of m)" and "q \<in> uh_joined \<sigma> (identifier_of m)"
proof -
  let ?x = "identifier_of m"
  have "copies \<sigma> q d ?x + (if q \<in> uh_heard \<sigma> d ?x then 1 else 0) =
      (if q \<in> uh_joined \<sigma> ?x \<and> d \<in> P then 1 else 0)"
    using assms(1) by (simp add: inv_copies_def)
  with copies_member [OF assms(2)] show "q \<notin> uh_heard \<sigma> d ?x" "q \<in> uh_joined \<sigma> ?x"
    by (auto split: if_splits)
qed

lemma unheard:
  assumes "us_inv P \<sigma>" and "content \<sigma> x = None"
  shows "uh_joined \<sigma> x = {}" and "uh_heard \<sigma> d x = {}" and "x \<notin> delivered_by \<sigma> d" and "copies \<sigma> q d x = 0"
proof -
  have "uh_joined \<sigma> x \<noteq> {} \<longleftrightarrow> content \<sigma> x \<noteq> None"
    using assms(1) unfolding us_inv_def inv_contents_def by blast
  then show j: "uh_joined \<sigma> x = {}" using assms(2) by simp
  then show "uh_heard \<sigma> d x = {}" using assms(1) heard_joined [of P \<sigma> _ d x] by (auto simp: us_inv_def)
  show "x \<notin> delivered_by \<sigma> d" using assms by (auto simp: us_inv_def inv_log_def delivered_by_def)
  show "copies \<sigma> q d x = 0"
    using assms(1) j unfolding us_inv_def inv_copies_def by (metis add_is_0 empty_iff)
qed

lemma sends_to_all_effects:
  assumes "enumerates hosts P"
  shows "mset (urb_sends p (sends_to_all hosts m)) = image_mset (\<lambda>q. (p, q, m)) (mset_set P)"
    and "urb_deliveries p (sends_to_all hosts m) = []"
    and "urb_sends p (sends_to_all hosts m) \<noteq> []"
proof -
  have sends: "urb_sends p (map (\<lambda>q. URBSend q m) qs) = map (\<lambda>q. (p, q, m)) qs"
    and none: "urb_deliveries p (map (\<lambda>q. URBSend q m) qs) = []" for qs
    by (induction qs) auto
  have eq: "sends_to_all hosts m = map (\<lambda>q. URBSend q m) (peers hosts @ [localID hosts])"
    by (simp add: sends_to_all_def BEB_Broadcast_def GetPeers_def LocalID_def)
  have "mset_set P = mset (peers hosts @ [localID hosts])"
    using assms mset_set_set [of "localID hosts # peers hosts"] by (simp add: enumerates_def)
  then show "mset (urb_sends p (sends_to_all hosts m)) = image_mset (\<lambda>q. (p, q, m)) (mset_set P)"
    unfolding eq sends by (simp add: image_mset.compositionality)
  show "urb_deliveries p (sends_to_all hosts m) = []" unfolding eq by (rule none)
  show "urb_sends p (sends_to_all hosts m) \<noteq> []" unfolding eq sends by simp
qed

lemma size_filter_to_all:
  fixes P :: "PeerID set"
  shows "size {#y \<in># image_mset (\<lambda>q. (p, q, m)) (mset_set P).
      fst y = q \<and> fst (snd y) = d \<and> identifier_of (snd (snd y)) = x#} =
    (if q = p \<and> d \<in> P \<and> x = identifier_of m then 1 else 0)"
proof -
  have "{r \<in> P. p = q \<and> r = d \<and> identifier_of m = x} =
      (if q = p \<and> d \<in> P \<and> x = identifier_of m then {d} else {})" by auto
  then show ?thesis by (simp add: filter_mset_image_mset filter_mset_mset_set)
qed

section \<open>Broadcasting\<close>

lemma us_broadcast_fields:
  assumes inv: "us_inv P \<sigma>" and p: "p \<in> P" and len: "length (us_sent \<sigma> p) < 4294967295"
  defines "i \<equiv> \<lparr>idf_peer = p, idf_urb_id = of_nat (length (us_sent \<sigma> p))\<rparr>"
  shows "content \<sigma> i = None"
    and "\<exists>u. us_broadcast p b \<sigma> = \<sigma>\<lparr>us_nodes := (us_nodes \<sigma>)(p := u),
      us_net := us_net \<sigma> + image_mset (\<lambda>q. (p, q, \<lparr>um_source = p, um_urb_id = idf_urb_id i, um_message = b\<rparr>)) (mset_set P),
      uh_joined := (uh_joined \<sigma>)(i := {p}), us_sent := (us_sent \<sigma>)(p := us_sent \<sigma> p @ [b])\<rparr> \<and>
      gc_ok u \<and> msg_view u = (msg_view (us_nodes \<sigma> p))(i := (False, 0, Some b)) \<and>
      urb_config u = urb_config (us_nodes \<sigma> p) \<and> urb_ids u = urb_ids (us_nodes \<sigma> p) + 1"
proof -
  show none: "content \<sigma> i = None" using len by (simp add: content_def i_def unat_of_nat_u32)
  have node: "inv_node P \<sigma> p" using inv p by (simp add: us_inv_def)
  then have ids: "urb_ids (us_nodes \<sigma> p) = idf_urb_id i" "urb_localID (us_nodes \<sigma> p) = p"
    by (simp_all add: inv_node_def i_def)
  have i: "i = \<lparr>idf_peer = urb_localID (us_nodes \<sigma> p), idf_urb_id = urb_ids (us_nodes \<sigma> p)\<rparr>"
    using ids by (simp add: i_def)
  have view: "msg_view (us_nodes \<sigma> p) i = (False, 0, None)"
    using node unheard [OF inv none] by (simp add: inv_node_def expected_view_def)
  then have "urb_pending (us_nodes \<sigma> p) i = None" by (simp add: msg_view_def)
  moreover have "gc_ok (us_nodes \<sigma> p)" using node by (simp add: inv_node_def)
  ultimately obtain u where u: "URB_Broadcast_next b (us_nodes \<sigma> p) = (u, sends_to_all (urb_hosts (us_nodes \<sigma> p))
      \<lparr>um_source = p, um_urb_id = idf_urb_id i, um_message = b\<rparr>)" "gc_ok u"
    "msg_view u = (msg_view (us_nodes \<sigma> p))(i := (False, 0, Some b))"
    "urb_config u = urb_config (us_nodes \<sigma> p)" "urb_ids u = urb_ids (us_nodes \<sigma> p) + 1"
    using URB_Broadcast_step [of "us_nodes \<sigma> p" b, folded i] ids view by auto
  have "enumerates (urb_hosts (us_nodes \<sigma> p)) P" using node by (simp add: inv_node_def)
  note sends = sends_to_all_effects [OF this]
  show "\<exists>u. us_broadcast p b \<sigma> = \<sigma>\<lparr>us_nodes := (us_nodes \<sigma>)(p := u),
      us_net := us_net \<sigma> + image_mset (\<lambda>q. (p, q, \<lparr>um_source = p, um_urb_id = idf_urb_id i, um_message = b\<rparr>)) (mset_set P),
      uh_joined := (uh_joined \<sigma>)(i := {p}), us_sent := (us_sent \<sigma>)(p := us_sent \<sigma> p @ [b])\<rparr> \<and>
      gc_ok u \<and> msg_view u = (msg_view (us_nodes \<sigma> p))(i := (False, 0, Some b)) \<and>
      urb_config u = urb_config (us_nodes \<sigma> p) \<and> urb_ids u = urb_ids (us_nodes \<sigma> p) + 1"
    using u unheard(1) [OF inv none] ids(1)
    by (intro exI [of _ u] conjI urb_system.equality) (simp_all add: us_broadcast_def us_apply_def i_def sends)
qed

lemma broadcast_facts:
  assumes inv: "us_inv P \<sigma>" and p: "p \<in> P" and len: "length (us_sent \<sigma> p) < 4294967295"
    and i: "i = \<lparr>idf_peer = p, idf_urb_id = of_nat (length (us_sent \<sigma> p))\<rparr>"
    and \<tau>: "\<tau> = us_broadcast p b \<sigma>"
  shows "content \<tau> x = (if x = i then Some b else content \<sigma> x)"
    and "delivered_by \<tau> d = delivered_by \<sigma> d" and "uh_joined \<tau> = (uh_joined \<sigma>)(i := {p})"
    and "uh_heard \<tau> = uh_heard \<sigma>" and "us_sent \<tau> = (us_sent \<sigma>)(p := us_sent \<sigma> p @ [b])" and "us_log \<tau> = us_log \<sigma>"
    and "us_net \<tau> = us_net \<sigma> + image_mset (\<lambda>q. (p, q, \<lparr>um_source = p, um_urb_id = idf_urb_id i, um_message = b\<rparr>)) (mset_set P)"
    and "\<exists>u. us_nodes \<tau> = (us_nodes \<sigma>)(p := u) \<and> gc_ok u \<and> msg_view u = (msg_view (us_nodes \<sigma> p))(i := (False, 0, Some b)) \<and>
      urb_config u = urb_config (us_nodes \<sigma> p) \<and> urb_ids u = urb_ids (us_nodes \<sigma> p) + 1"
proof -
  note fields = us_broadcast_fields [OF inv p len, folded i]
  show sent: "us_sent \<tau> = (us_sent \<sigma>)(p := us_sent \<sigma> p @ [b])"
    and "delivered_by \<tau> d = delivered_by \<sigma> d" and "uh_joined \<tau> = (uh_joined \<sigma>)(i := {p})"
    and "uh_heard \<tau> = uh_heard \<sigma>" and "us_log \<tau> = us_log \<sigma>"
    and "us_net \<tau> = us_net \<sigma> + image_mset (\<lambda>q. (p, q, \<lparr>um_source = p, um_urb_id = idf_urb_id i, um_message = b\<rparr>)) (mset_set P)"
    and "\<exists>u. us_nodes \<tau> = (us_nodes \<sigma>)(p := u) \<and> gc_ok u \<and> msg_view u = (msg_view (us_nodes \<sigma> p))(i := (False, 0, Some b)) \<and>
      urb_config u = urb_config (us_nodes \<sigma> p) \<and> urb_ids u = urb_ids (us_nodes \<sigma> p) + 1"
    using fields(2) [of b] unfolding \<tau> by (auto simp: delivered_by_def)
  have "unat (idf_urb_id x) = length (us_sent \<sigma> p) \<longleftrightarrow> idf_urb_id x = of_nat (length (us_sent \<sigma> p))"
    using len unat_of_nat_u32 [of "length (us_sent \<sigma> p)"] by (auto simp: word_unat_eq_iff)
  then have "x = i \<longleftrightarrow> idf_peer x = p \<and> unat (idf_urb_id x) = length (us_sent \<sigma> p)"
    unfolding i idf_eq_iff by simp
  then show "content \<tau> x = (if x = i then Some b else content \<sigma> x)"
    unfolding content_def sent by (auto simp: Let_def nth_append less_Suc_eq)
qed

lemma broadcast_copies:
  assumes inv: "us_inv P \<sigma>" and p: "p \<in> P" and len: "length (us_sent \<sigma> p) < 4294967295"
  shows "inv_copies P (us_broadcast p b \<sigma>)"
  unfolding inv_copies_def
proof (intro allI)
  fix q d x
  let ?i = "\<lparr>idf_peer = p, idf_urb_id = of_nat (length (us_sent \<sigma> p)) :: MessageID\<rparr>"
  let ?m = "\<lparr>um_source = p, um_urb_id = idf_urb_id ?i, um_message = b\<rparr>" and ?\<tau> = "us_broadcast p b \<sigma>"
  note facts = broadcast_facts [OF inv p len refl refl, where b = b]
  note un = unheard [OF inv us_broadcast_fields(1) [OF inv p len]]
  have "identifier_of ?m = ?i" by (simp add: identifier_of_def)
  then have "copies ?\<tau> q d x = copies \<sigma> q d x + (if q = p \<and> d \<in> P \<and> x = ?i then 1 else 0)"
    using size_filter_to_all [where p = p and m = ?m and P = P and q = q and d = d and x = x]
    by (simp add: copies_def facts(7))
  then show "copies ?\<tau> q d x + (if q \<in> uh_heard ?\<tau> d x then 1 else 0) =
      (if q \<in> uh_joined ?\<tau> x \<and> d \<in> P then 1 else 0)"
    using inv un by (cases "x = ?i") (auto simp: facts(3,4) us_inv_def inv_copies_def)
qed

lemma broadcast_contents:
  assumes inv: "us_inv P \<sigma>" and p: "p \<in> P" and len: "length (us_sent \<sigma> p) < 4294967295"
  shows "inv_contents P (us_broadcast p b \<sigma>)"
proof -
  define i where "i = \<lparr>idf_peer = p, idf_urb_id = of_nat (length (us_sent \<sigma> p)) :: MessageID\<rparr>"
  let ?m = "\<lparr>um_source = p, um_urb_id = idf_urb_id i, um_message = b\<rparr>" and ?\<tau> = "us_broadcast p b \<sigma>"
  note facts = broadcast_facts [OF inv p len i_def refl, where b = b]
  note un = unheard [OF inv us_broadcast_fields(1) [OF inv p len], folded i_def]
  have i_peer: "idf_peer i = p" by (simp add: i_def)
  have "d \<in> P \<and> content ?\<tau> (identifier_of m) = Some (um_message m)" if "(q, d, m) \<in># us_net ?\<tau>" for q d m
  proof -
    from that consider (old) "(q, d, m) \<in># us_net \<sigma>" | (new) "m = ?m" "d \<in> P" by (auto simp: facts(7))
    then show ?thesis
    proof cases
      case old
      then have "identifier_of m \<noteq> i" using copies_member [OF old] un(4) by (metis less_numeral_extra(3))
      with old inv show ?thesis by (auto simp: facts(1) us_inv_def inv_contents_def)
    qed (simp add: facts(1) identifier_of_def i_def)
  qed
  moreover have "uh_joined ?\<tau> x \<subseteq> P \<and> (uh_joined ?\<tau> x \<noteq> {} \<longleftrightarrow> content ?\<tau> x \<noteq> None) \<and>
      (content ?\<tau> x \<noteq> None \<longrightarrow> idf_peer x \<in> uh_joined ?\<tau> x)" for x
  proof -
    have "uh_joined \<sigma> x \<subseteq> P \<and> (uh_joined \<sigma> x \<noteq> {} \<longleftrightarrow> content \<sigma> x \<noteq> None) \<and>
      (content \<sigma> x \<noteq> None \<longrightarrow> idf_peer x \<in> uh_joined \<sigma> x)"
      using inv unfolding us_inv_def inv_contents_def by blast
    then show ?thesis using p i_peer by (auto simp: facts(1,3))
  qed
  ultimately show ?thesis unfolding inv_contents_def by blast
qed

lemma broadcast_node:
  assumes inv: "us_inv P \<sigma>" and p: "p \<in> P" and len: "length (us_sent \<sigma> p) < 4294967295" and d: "d \<in> P"
  shows "inv_node P (us_broadcast p b \<sigma>) d"
proof -
  define i where "i = \<lparr>idf_peer = p, idf_urb_id = of_nat (length (us_sent \<sigma> p)) :: MessageID\<rparr>"
  let ?\<tau> = "us_broadcast p b \<sigma>"
  note facts = broadcast_facts [OF inv p len i_def refl, where b = b]
  note un = unheard [OF inv us_broadcast_fields(1) [OF inv p len], folded i_def]
  have node: "inv_node P \<sigma> d" using inv d by (simp add: us_inv_def)
  have "expected_view P ?\<tau> d = (if d = p then (expected_view P \<sigma> d)(i := (False, 0, Some b)) else expected_view P \<sigma> d)"
    using un by (auto simp: fun_eq_iff expected_view_def facts(1-4))
  then show ?thesis
    using node facts(8) by (auto simp: inv_node_def facts(5) urb_config_def)
qed

lemma us_inv_broadcast:
  assumes inv: "us_inv P \<sigma>" and p: "p \<in> P" and len: "length (us_sent \<sigma> p) < 4294967295"
  shows "us_inv P (us_broadcast p b \<sigma>)"
proof -
  let ?\<tau> = "us_broadcast p b \<sigma>"
  note facts = broadcast_facts [OF inv p len refl refl, where b = b]
  note fresh = us_broadcast_fields(1) [OF inv p len] and un = unheard [OF inv us_broadcast_fields(1) [OF inv p len]]
  have "inv_quorum P ?\<tau>" using inv un by (auto simp: us_inv_def inv_quorum_def facts(2-4))
  moreover have "inv_log ?\<tau>"
    using inv fresh unfolding us_inv_def inv_log_def facts(1) by (auto simp: facts(6))
  moreover have "length (us_sent ?\<tau> q) \<le> 4294967295" for q using inv len by (simp add: facts(5) us_inv_def)
  ultimately show ?thesis
    using broadcast_copies [OF inv p len] broadcast_contents [OF inv p len] broadcast_node [OF inv p len]
    unfolding us_inv_def by blast
qed

section \<open>Receiving a copy\<close>

text \<open>
  What a delivery by the transport does, in terms of the history: a process that has not
  joined relays the message; one that has joined and not delivered does so when the copy
  completes a majority.
\<close>

definition relays :: "urb_system \<Rightarrow> PeerID \<Rightarrow> URBIdentifier \<Rightarrow> bool" where
  "relays \<sigma> d x \<longleftrightarrow> d \<notin> uh_joined \<sigma> x"

definition fires :: "PeerID set \<Rightarrow> urb_system \<Rightarrow> PeerID \<Rightarrow> URBIdentifier \<Rightarrow> bool" where
  "fires P \<sigma> d x \<longleftrightarrow> d \<in> uh_joined \<sigma> x \<and> x \<notin> delivered_by \<sigma> d \<and> card P div 2 < Suc (card (uh_heard \<sigma> d x))"

lemma delivered_joined:
  assumes "us_inv P \<sigma>" and "d \<in> P" and "x \<in> delivered_by \<sigma> d"
  shows "d \<in> uh_joined \<sigma> x"
proof -
  have "card P div 2 < card (uh_heard \<sigma> d x)"
    using assms by (auto simp: us_inv_def inv_quorum_def)
  then have "uh_heard \<sigma> d x \<noteq> {}" by auto
  then show ?thesis using assms(1,2) by (auto simp: us_inv_def inv_quorum_def)
qed

lemma receive_step:
  assumes inv: "us_inv P \<sigma>" and mem: "(s, d, m) \<in># us_net \<sigma>"
    and cb: "URB_callback m (us_nodes \<sigma> d) = Some (u, es)"
  defines "i \<equiv> identifier_of m"
  shows "mset (urb_sends d es) = (if relays \<sigma> d i then image_mset (\<lambda>q. (d, q, m)) (mset_set P) else {#})"
    and "urb_sends d es \<noteq> [] \<longleftrightarrow> relays \<sigma> d i"
    and "urb_deliveries d es = (if fires P \<sigma> d i then [(d, i, um_message m)] else [])"
    and "gc_ok u" and "urb_config u = urb_config (us_nodes \<sigma> d)" and "urb_ids u = urb_ids (us_nodes \<sigma> d)"
    and "msg_view u = (expected_view P \<sigma> d)(i := if i \<in> delivered_by \<sigma> d \<or> fires P \<sigma> d i then (True, 0, None)
      else (False, Suc (card (uh_heard \<sigma> d i)), Some (um_message m)))"
proof -
  have d: "d \<in> P" and cont: "content \<sigma> i = Some (um_message m)"
    using inv mem by (auto simp: us_inv_def inv_contents_def i_def)
  have node: "inv_node P \<sigma> d" using inv d by (simp add: us_inv_def)
  then have view: "msg_view (us_nodes \<sigma> d) = expected_view P \<sigma> d" and en: "enumerates (urb_hosts (us_nodes \<sigma> d)) P"
    and n: "urb_network_size (us_nodes \<sigma> d) = card P" and ok: "gc_ok (us_nodes \<sigma> d)"
    by (simp_all add: inv_node_def)
  note step = URB_callback_step [OF ok, of m, folded i_def, unfolded view n]
  have es: "es = msg_effects (urb_hosts (us_nodes \<sigma> d)) (card P) m (expected_view P \<sigma> d i)"
    and v: "msg_view u = (expected_view P \<sigma> d)(i := msg_step (card P) (um_message m) (expected_view P \<sigma> d i))"
    using step cb by auto
  show "gc_ok u" "urb_config u = urb_config (us_nodes \<sigma> d)" "urb_ids u = urb_ids (us_nodes \<sigma> d)"
    using step cb by auto
  note sends = sends_to_all_effects [OF en]
  have joined: "i \<in> delivered_by \<sigma> d \<Longrightarrow> d \<in> uh_joined \<sigma> i" by (rule delivered_joined [OF inv d])
  show "mset (urb_sends d es) = (if relays \<sigma> d i then image_mset (\<lambda>q. (d, q, m)) (mset_set P) else {#})"
    "urb_sends d es \<noteq> [] \<longleftrightarrow> relays \<sigma> d i"
    "urb_deliveries d es = (if fires P \<sigma> d i then [(d, i, um_message m)] else [])"
    using joined cont unfolding es expected_view_def relays_def fires_def
    by (auto simp: sends i_def)
  show "msg_view u = (expected_view P \<sigma> d)(i := if i \<in> delivered_by \<sigma> d \<or> fires P \<sigma> d i then (True, 0, None)
      else (False, Suc (card (uh_heard \<sigma> d i)), Some (um_message m)))"
    using joined cont unfolding v by (auto simp: expected_view_def fires_def)
qed

lemma receive_effects:
  assumes inv: "us_inv P \<sigma>" and mem: "(s, d, m) \<in># us_net \<sigma>"
    and cb: "URB_callback m (us_nodes \<sigma> d) = Some (u, es)"
  shows "es = (if relays \<sigma> d (identifier_of m) then sends_to_all (urb_hosts (us_nodes \<sigma> d)) m
    else if fires P \<sigma> d (identifier_of m) then [URBDeliver (identifier_of m) (um_message m)] else [])"
proof -
  let ?i = "identifier_of m"
  have d: "d \<in> P" and cont: "content \<sigma> ?i = Some (um_message m)"
    using inv mem by (auto simp: us_inv_def inv_contents_def)
  have node: "inv_node P \<sigma> d" using inv d by (simp add: us_inv_def)
  then have view: "msg_view (us_nodes \<sigma> d) = expected_view P \<sigma> d"
    and n: "urb_network_size (us_nodes \<sigma> d) = card P" and ok: "gc_ok (us_nodes \<sigma> d)"
    by (simp_all add: inv_node_def)
  have "es = msg_effects (urb_hosts (us_nodes \<sigma> d)) (card P) m (expected_view P \<sigma> d ?i)"
    using URB_callback_step [OF ok, of m, unfolded view n] cb by auto
  then show ?thesis
    using delivered_joined [OF inv d, of ?i] cont by (auto simp: expected_view_def relays_def fires_def)
qed

lemma us_receive_fields:
  "us_nodes (us_receive (s, d, m) u es \<sigma>) = (us_nodes \<sigma>)(d := u)"
  "us_net (us_receive (s, d, m) u es \<sigma>) = us_net \<sigma> - {#(s, d, m)#} + mset (urb_sends d es)"
  "us_log (us_receive (s, d, m) u es \<sigma>) = us_log \<sigma> @ urb_deliveries d es"
  "us_sent (us_receive (s, d, m) u es \<sigma>) = us_sent \<sigma>"
  "uh_heard (us_receive (s, d, m) u es \<sigma>) = (uh_heard \<sigma>)(d := (uh_heard \<sigma> d)
     (identifier_of m := insert s (uh_heard \<sigma> d (identifier_of m))))"
  "uh_joined (us_receive (s, d, m) u es \<sigma>) = (uh_joined \<sigma>)(identifier_of m :=
     (if urb_sends d es = [] then uh_joined \<sigma> (identifier_of m) else insert d (uh_joined \<sigma> (identifier_of m))))"
  by (simp_all add: us_receive_def us_apply_def)

text \<open>The state after a copy was received, in terms of the state before it.\<close>

lemma receive_facts:
  assumes inv: "us_inv P \<sigma>" and mem: "(s, d, m) \<in># us_net \<sigma>"
    and cb: "URB_callback m (us_nodes \<sigma> d) = Some (u, es)"
    and i: "i = identifier_of m" and \<tau>: "\<tau> = us_receive (s, d, m) u es \<sigma>"
  shows "d \<in> P" and "content \<sigma> i = Some (um_message m)" and "s \<in> uh_joined \<sigma> i" and "s \<notin> uh_heard \<sigma> d i"
    and "s \<in> P" and "content \<tau> = content \<sigma>"
    and "uh_joined \<tau> = (uh_joined \<sigma>)(i := if relays \<sigma> d i then insert d (uh_joined \<sigma> i) else uh_joined \<sigma> i)"
    and "delivered_by \<tau> e = (if e = d \<and> fires P \<sigma> d i then insert i (delivered_by \<sigma> d) else delivered_by \<sigma> e)"
    and "card (uh_heard \<tau> d i) = Suc (card (uh_heard \<sigma> d i))"
    and "relays \<sigma> d i \<Longrightarrow> uh_heard \<sigma> d i = {}"
proof -
  note step = receive_step [OF inv mem cb, folded i]
  note f = us_receive_fields [of s d m u es \<sigma>, folded i \<tau>]
  have copies_inv: "inv_copies P \<sigma>" using inv by (simp add: us_inv_def)
  show d: "d \<in> P" and "content \<sigma> i = Some (um_message m)"
    using inv mem by (auto simp: us_inv_def inv_contents_def i)
  show sj: "s \<in> uh_joined \<sigma> i" and sh: "s \<notin> uh_heard \<sigma> d i"
    using copy_fresh [OF copies_inv mem] by (simp_all add: i)
  show "s \<in> P" using inv sj by (auto simp: us_inv_def inv_contents_def)
  show "content \<tau> = content \<sigma>" by (simp add: fun_eq_iff content_def f)
  show "uh_joined \<tau> = (uh_joined \<sigma>)(i := if relays \<sigma> d i then insert d (uh_joined \<sigma> i) else uh_joined \<sigma> i)"
    using step(2) by (auto simp: f)
  show "delivered_by \<tau> e = (if e = d \<and> fires P \<sigma> d i then insert i (delivered_by \<sigma> d) else delivered_by \<sigma> e)"
    by (auto simp: delivered_by_def f step(3))
  show "card (uh_heard \<tau> d i) = Suc (card (uh_heard \<sigma> d i))" using sh by (simp add: f)
  show "uh_heard \<sigma> d i = {}" if "relays \<sigma> d i"
    using inv d that by (auto simp: us_inv_def inv_quorum_def relays_def)
qed

lemma receive_copies:
  assumes inv: "us_inv P \<sigma>" and mem: "(s, d, m) \<in># us_net \<sigma>"
    and cb: "URB_callback m (us_nodes \<sigma> d) = Some (u, es)"
  shows "inv_copies P (us_receive (s, d, m) u es \<sigma>)"
  unfolding inv_copies_def
proof (intro allI)
  fix q e x
  let ?\<tau> = "us_receive (s, d, m) u es \<sigma>" and ?i = "identifier_of m"
  note step = receive_step [OF inv mem cb] and facts = receive_facts [OF inv mem cb refl refl]
  obtain N where N: "us_net \<sigma> = add_mset (s, d, m) N" using multi_member_split [OF mem] by blast
  have "copies ?\<tau> q e x + (if q = s \<and> e = d \<and> x = ?i then 1 else 0) =
      copies \<sigma> q e x + (if relays \<sigma> d ?i \<and> q = d \<and> e \<in> P \<and> x = ?i then 1 else 0)"
    using size_filter_to_all [where p = d and m = m and P = P and q = q and d = e and x = x]
    by (auto simp: copies_def us_receive_fields step(1) N)
  moreover have "copies \<sigma> q e x + (if q \<in> uh_heard \<sigma> e x then 1 else 0) = (if q \<in> uh_joined \<sigma> x \<and> e \<in> P then 1 else 0)"
    using inv by (simp add: us_inv_def inv_copies_def)
  ultimately show "copies ?\<tau> q e x + (if q \<in> uh_heard ?\<tau> e x then 1 else 0) = (if q \<in> uh_joined ?\<tau> x \<and> e \<in> P then 1 else 0)"
    using facts(3,4) unfolding facts(7) by (auto simp: us_receive_fields(5) relays_def split: if_splits)
qed

lemma receive_contents:
  assumes inv: "us_inv P \<sigma>" and mem: "(s, d, m) \<in># us_net \<sigma>"
    and cb: "URB_callback m (us_nodes \<sigma> d) = Some (u, es)"
  shows "inv_contents P (us_receive (s, d, m) u es \<sigma>)"
proof -
  let ?\<tau> = "us_receive (s, d, m) u es \<sigma>"
  note step = receive_step [OF inv mem cb] and facts = receive_facts [OF inv mem cb refl refl]
  have "e \<in> P \<and> content \<sigma> (identifier_of m') = Some (um_message m')" if "(q, e, m') \<in># us_net ?\<tau>" for q e m'
    using that inv facts(2) unfolding us_receive_fields step(1) us_inv_def inv_contents_def
    by (auto split: if_splits dest!: in_diffD)
  moreover have "uh_joined ?\<tau> x \<subseteq> P \<and> (uh_joined ?\<tau> x \<noteq> {} \<longleftrightarrow> content \<sigma> x \<noteq> None) \<and>
      (content \<sigma> x \<noteq> None \<longrightarrow> idf_peer x \<in> uh_joined ?\<tau> x)" for x
  proof -
    have "uh_joined \<sigma> x \<subseteq> P \<and> (uh_joined \<sigma> x \<noteq> {} \<longleftrightarrow> content \<sigma> x \<noteq> None) \<and>
      (content \<sigma> x \<noteq> None \<longrightarrow> idf_peer x \<in> uh_joined \<sigma> x)"
      using inv unfolding us_inv_def inv_contents_def by blast
    then show ?thesis using facts(1-3) unfolding facts(7) by auto
  qed
  ultimately show ?thesis unfolding inv_contents_def facts(6) by blast
qed

lemma receive_node:
  assumes inv: "us_inv P \<sigma>" and mem: "(s, d, m) \<in># us_net \<sigma>"
    and cb: "URB_callback m (us_nodes \<sigma> d) = Some (u, es)" and e: "e \<in> P"
  shows "inv_node P (us_receive (s, d, m) u es \<sigma>) e"
proof -
  let ?\<tau> = "us_receive (s, d, m) u es \<sigma>" and ?i = "identifier_of m"
  note step = receive_step [OF inv mem cb] and facts = receive_facts [OF inv mem cb refl refl]
  have node: "inv_node P \<sigma> e" using inv e by (simp add: us_inv_def)
  have "expected_view P ?\<tau> e = (if e = d then (expected_view P \<sigma> d)(?i :=
      if ?i \<in> delivered_by \<sigma> d \<or> fires P \<sigma> d ?i then (True, 0, None)
      else (False, Suc (card (uh_heard \<sigma> d ?i)), Some (um_message m))) else expected_view P \<sigma> e)"
    using facts(2,4,9) unfolding expected_view_def facts(6,7,8)
    by (auto simp: fun_eq_iff us_receive_fields(5) relays_def)
  then show ?thesis
    using node step(4-7) by (auto simp: inv_node_def us_receive_fields urb_config_def)
qed

text \<open>A process that relays has heard nobody yet, and there are two processes, so one copy is no majority.\<close>

lemma relay_no_majority:
  assumes "s \<in> uh_joined \<sigma> i" "s \<in> P" "d \<in> P" "relays \<sigma> d i"
  shows "1 \<le> card (P :: PeerID set) div 2"
proof -
  have "s \<noteq> d" using assms(1,4) by (auto simp: relays_def)
  then have "card {s, d} \<le> card P" using assms(2,3) by (intro card_mono) auto
  then show ?thesis using \<open>s \<noteq> d\<close> by simp
qed

lemma receive_quorum:
  assumes inv: "us_inv P \<sigma>" and mem: "(s, d, m) \<in># us_net \<sigma>"
    and cb: "URB_callback m (us_nodes \<sigma> d) = Some (u, es)"
  shows "inv_quorum P (us_receive (s, d, m) u es \<sigma>)"
  unfolding inv_quorum_def
proof (intro ballI allI conjI)
  fix e x assume e: "e \<in> P"
  let ?\<tau> = "us_receive (s, d, m) u es \<sigma>" and ?i = "identifier_of m"
  note facts = receive_facts [OF inv mem cb refl refl]
  have old: "uh_heard \<sigma> e x \<noteq> {} \<longrightarrow> e \<in> uh_joined \<sigma> x"
    "x \<in> delivered_by \<sigma> e \<longleftrightarrow> card P div 2 < card (uh_heard \<sigma> e x)"
    using inv e by (auto simp: us_inv_def inv_quorum_def)
  show "uh_heard ?\<tau> e x \<noteq> {} \<longrightarrow> e \<in> uh_joined ?\<tau> x"
    using old(1) unfolding facts(7) by (auto simp: us_receive_fields(5) relays_def)
  show "x \<in> delivered_by ?\<tau> e \<longleftrightarrow> card P div 2 < card (uh_heard ?\<tau> e x)"
  proof (cases "e = d \<and> x = ?i")
    case True
    show ?thesis
    proof (cases "relays \<sigma> d ?i")
      case rel: True
      then have "1 \<le> card P div 2" using relay_no_majority [OF facts(3,5,1)] by blast
      then show ?thesis
        using True rel facts(9) facts(10) [OF rel] old(2) by (auto simp: facts(8) fires_def relays_def)
    next
      case False
      then show ?thesis using True old(2) facts(9) by (auto simp: facts(8) fires_def relays_def)
    qed
  next
    case False
    then show ?thesis using old(2) by (auto simp: facts(8) us_receive_fields(5))
  qed
qed

lemma receive_log:
  assumes inv: "us_inv P \<sigma>" and mem: "(s, d, m) \<in># us_net \<sigma>"
    and cb: "URB_callback m (us_nodes \<sigma> d) = Some (u, es)"
  shows "inv_log (us_receive (s, d, m) u es \<sigma>)"
proof -
  note step = receive_step [OF inv mem cb] and facts = receive_facts [OF inv mem cb refl refl]
  have "distinct (map (\<lambda>(d, x, b). (d, x)) (us_log \<sigma>))"
    "\<forall>d x b. (d, x, b) \<in> set (us_log \<sigma>) \<longrightarrow> content \<sigma> x = Some b"
    using inv by (auto simp: us_inv_def inv_log_def)
  then show ?thesis
    using facts(2) unfolding inv_log_def facts(6) us_receive_fields(3) step(3)
    by (auto simp: fires_def delivered_by_def)
qed

lemma us_inv_receive:
  assumes "us_inv P \<sigma>" and "(s, d, m) \<in># us_net \<sigma>" and "URB_callback m (us_nodes \<sigma> d) = Some (u, es)"
  shows "us_inv P (us_receive (s, d, m) u es \<sigma>)"
  using assms(1) receive_copies [OF assms] receive_contents [OF assms] receive_node [OF assms]
    receive_quorum [OF assms] receive_log [OF assms]
  by (simp add: us_inv_def us_receive_fields(4))

section \<open>Reachable states\<close>

lemma us_inv_clean:
  assumes inv: "us_inv P \<sigma>" and p: "p \<in> P"
    and all: "\<forall>i \<le> prefix. \<lparr>idf_peer = peer, idf_urb_id = i\<rparr> \<in> delivered_by \<sigma> p"
  shows "us_inv P (\<sigma>\<lparr>us_nodes := (us_nodes \<sigma>)(p := CleanDeliveredPrefix peer prefix (us_nodes \<sigma> p))\<rparr>)"
    (is "us_inv P ?\<tau>")
proof -
  let ?u = "us_nodes \<sigma> p" and ?u' = "CleanDeliveredPrefix peer prefix (us_nodes \<sigma> p)"
  have node: "inv_node P \<sigma> p" using inv p by (simp add: us_inv_def)
  have same: "WasDelivered x ?u' = WasDelivered x ?u" for x
    by (simp add: WasDelivered_iff CleanDeliveredPrefix_def)
  have delivered: "WasDelivered x ?u \<longleftrightarrow> x \<in> delivered_by \<sigma> p" for x
  proof -
    have "fst (msg_view ?u x) = fst (expected_view P \<sigma> p x)" using node by (simp add: inv_node_def)
    then show ?thesis by (simp add: msg_view_def expected_view_def split: if_splits)
  qed
  have "\<lparr>idf_peer = peer, idf_urb_id = prefix\<rparr> \<in> delivered_by \<sigma> p" using all by simp
  then have "content \<sigma> \<lparr>idf_peer = peer, idf_urb_id = prefix\<rparr> \<noteq> None"
    using inv by (auto simp: us_inv_def inv_log_def delivered_by_def)
  then have "unat prefix < length (us_sent \<sigma> peer)" by (auto simp: content_def Let_def split: if_splits)
  moreover have "length (us_sent \<sigma> peer) \<le> 4294967295" using inv by (simp add: us_inv_def)
  ultimately have bound: "unat prefix < 4294967295" by linarith
  have "gc_ok ?u" using node by (simp add: inv_node_def)
  then have "gc_ok ?u'"
    using bound all unfolding gc_ok_def prefix_ok_def same delivered by (auto simp: CleanDeliveredPrefix_def)
  moreover have "msg_view ?u' = msg_view ?u"
    by (simp add: fun_eq_iff msg_view_def same) (simp add: CleanDeliveredPrefix_def)
  ultimately have new: "inv_node P ?\<tau> p"
    using node by (simp add: inv_node_def expected_view_def fun_eq_iff delivered_by_def content_def)
      (simp add: CleanDeliveredPrefix_def)
  have others: "inv_node P ?\<tau> d" if "d \<in> P" "d \<noteq> p" for d
    using inv that by (auto simp: us_inv_def inv_node_def expected_view_def fun_eq_iff delivered_by_def content_def)
  show ?thesis
    using inv new others unfolding us_inv_def inv_copies_def inv_contents_def inv_quorum_def inv_log_def
    by (auto simp: copies_def delivered_by_def content_def)
qed

lemma us_inv_init:
  assumes "urb_network P hosts"
  shows "us_inv P (us_init hosts)"
proof -
  have "inv_node P (us_init hosts) d" if "d \<in> P" for d
    using assms that by (auto simp: inv_node_def gc_ok_def prefix_ok_def us_init_def URB_init_def urb_network_def enumerates_size LocalID_def
        msg_view_def expected_view_def WasDelivered_iff delivered_by_def fun_eq_iff)
  then show ?thesis
    by (simp add: us_inv_def inv_copies_def inv_contents_def inv_quorum_def inv_log_def copies_def content_def
        delivered_by_def) (simp add: us_init_def)
qed

lemma us_inv_step:
  assumes "us_step P \<sigma> \<tau>" and "us_inv P \<sigma>"
  shows "us_inv P \<tau>"
  using assms
proof (induction rule: us_step.induct)
  case (broadcast p \<sigma> b)
  then show ?case by (intro us_inv_broadcast)
next
  case (receive s d m \<sigma> u es)
  then show ?case by (intro us_inv_receive)
next
  case (clean p prefix peer \<sigma>)
  then show ?case by (intro us_inv_clean)
qed

lemma us_reach_inv: "us_reach P hosts \<sigma> \<Longrightarrow> urb_network P hosts \<Longrightarrow> us_inv P \<sigma>"
  by (induction rule: us_reach.induct) (auto intro: us_inv_init us_inv_step)

lemma heard_when_quiet:
  assumes inv: "us_inv P \<sigma>" and "q \<in> uh_joined \<sigma> x" and "e \<in> P" and "copies \<sigma> q e x = 0"
  shows "q \<in> uh_heard \<sigma> e x"
proof -
  have "copies \<sigma> q e x + (if q \<in> uh_heard \<sigma> e x then 1 else 0) = (if q \<in> uh_joined \<sigma> x \<and> e \<in> P then 1 else 0)"
    using inv by (simp add: us_inv_def inv_copies_def)
  then show ?thesis using assms(2-4) by (simp split: if_splits)
qed

text \<open>
  The step from one relay to everybody: if one of a majority of processes has relayed the
  message and the majority has exchanged its copies, all of them have delivered it.
\<close>

lemma majority_delivers:
  assumes inv: "us_inv P \<sigma>" and maj: "majority_of P C" and q: "q \<in> C" "q \<in> uh_joined \<sigma> x"
    and quiet: "\<forall>q\<in>C. \<forall>e\<in>C. copies \<sigma> q e x = 0" and e: "e \<in> C"
  shows "x \<in> delivered_by \<sigma> e"
proof -
  have sub: "C \<subseteq> P" using maj by (simp add: majority_of_def)
  have heard: "r \<in> uh_heard \<sigma> c x" if "r \<in> C" "c \<in> C" "r \<in> uh_joined \<sigma> x" for r c
    using heard_when_quiet [OF inv that(3)] quiet that sub by blast
  have joined: "C \<subseteq> uh_joined \<sigma> x"
  proof
    fix c assume c: "c \<in> C"
    then have "uh_heard \<sigma> c x \<noteq> {}" using heard [OF q(1) c q(2)] by blast
    then show "c \<in> uh_joined \<sigma> x" using inv c sub unfolding us_inv_def inv_quorum_def by blast
  qed
  then have "C \<subseteq> uh_heard \<sigma> e x" using heard e by blast
  then have "card C \<le> card (uh_heard \<sigma> e x)" by (intro card_mono) auto
  moreover have "card P < 2 * card C" using maj by (simp add: majority_of_def)
  ultimately have "card P div 2 < card (uh_heard \<sigma> e x)" by linarith
  then show ?thesis using inv e sub by (auto simp: us_inv_def inv_quorum_def)
qed

lemma delivered_quorum:
  assumes inv: "us_inv P \<sigma>" and "d \<in> P" and "x \<in> delivered_by \<sigma> d"
  shows "majority_of P (uh_heard \<sigma> d x)" and "uh_heard \<sigma> d x \<subseteq> uh_joined \<sigma> x"
proof -
  have copies: "inv_copies P \<sigma>" using inv by (simp add: us_inv_def)
  show sub: "uh_heard \<sigma> d x \<subseteq> uh_joined \<sigma> x" using heard_joined [OF copies] by blast
  have "uh_joined \<sigma> x \<subseteq> P" using inv by (simp add: us_inv_def inv_contents_def)
  moreover have "card P div 2 < card (uh_heard \<sigma> d x)"
    using assms by (auto simp: us_inv_def inv_quorum_def)
  ultimately show "majority_of P (uh_heard \<sigma> d x)" using sub by (auto simp: majority_of_def)
qed

lemma majority_follows:
  assumes inv: "us_inv P \<sigma>" and maj: "majority_of P C" and d: "d \<in> P" "x \<in> delivered_by \<sigma> d"
    and quiet: "\<forall>q\<in>C. \<forall>e\<in>C. copies \<sigma> q e x = 0" and e: "e \<in> C"
  shows "x \<in> delivered_by \<sigma> e"
proof -
  obtain q where "q \<in> uh_heard \<sigma> d x" "q \<in> C"
    using majority.intersect [OF delivered_quorum(1) [OF inv d] maj] by blast
  then show ?thesis
    using majority_delivers [OF inv maj _ _ quiet e] delivered_quorum(2) [OF inv d] by blast
qed

section \<open>A demonstration run\<close>

text \<open>
  Three processes, of which process 3 has crashed: process 1 broadcasts one byte, 1 and 2
  exchange their copies and both deliver.
\<close>

definition urb_demo_hosts :: "PeerID \<Rightarrow> HostsTable" where
  "urb_demo_hosts = HostsTable_init [\<lparr>host_id = 1, host_ip = 0, host_port = 1\<rparr>,
     \<lparr>host_id = 2, host_ip = 0, host_port = 2\<rparr>, \<lparr>host_id = 3, host_ip = 0, host_port = 3\<rparr>]"

definition run_receive :: "PeerID \<times> PeerID \<times> URBMessage \<Rightarrow> urb_system \<Rightarrow> urb_system" where
  "run_receive x \<sigma> = (case x of (s, d, m) \<Rightarrow> case URB_callback m (us_nodes \<sigma> d) of
     None \<Rightarrow> \<sigma> | Some (u, es) \<Rightarrow> us_receive x u es \<sigma>)"

lemma reach_run_receive:
  assumes "us_reach P hosts \<sigma>" and "x \<in># us_net \<sigma>"
  shows "us_reach P hosts (run_receive x \<sigma>)"
  using assms by (cases x) (auto simp: run_receive_def split: option.split intro: us_reach.step us_step.receive)

definition urb_demo_msg :: URBMessage where
  "urb_demo_msg = \<lparr>um_source = 1, um_urb_id = 0, um_message = [65]\<rparr>"

definition urb_demo_id :: URBIdentifier where
  "urb_demo_id = \<lparr>idf_peer = 1, idf_urb_id = 0\<rparr>"

definition urb_demo1 :: urb_system where "urb_demo1 = us_broadcast 1 [65] (us_init urb_demo_hosts)"
definition urb_demo2 :: urb_system where "urb_demo2 = run_receive (1, 2, urb_demo_msg) urb_demo1"
definition urb_demo3 :: urb_system where "urb_demo3 = run_receive (1, 1, urb_demo_msg) urb_demo2"
definition urb_demo4 :: urb_system where "urb_demo4 = run_receive (2, 1, urb_demo_msg) urb_demo3"
definition urb_demo5 :: urb_system where "urb_demo5 = run_receive (2, 2, urb_demo_msg) urb_demo4"

lemmas urb_demo_defs = urb_demo1_def urb_demo2_def urb_demo3_def urb_demo4_def urb_demo5_def run_receive_def
  urb_demo_msg_def us_broadcast_def us_receive_def us_apply_def us_init_def urb_demo_hosts_def HostsTable_init_def
  URB_init_def GetNetworkSize_def LocalID_def GetPeers_def URB_Broadcast_next_def URB_GetNextID_def UniqueID_Get_def
  URB_Broadcast_def BEB_Broadcast_def Map_Set_def Map_Has_def Map_Take_def URB_callback_def identifier_of_def
  WasDelivered_def DeliveredGarbageCollection_def CanDeliver_def Let_def

lemma urb_demo_network: "urb_network {1, 2, 3} urb_demo_hosts"
  by (auto simp: urb_network_def urb_demo_hosts_def enumerates_def peers_eq)

lemma urb_demo_deliverable:
  "(1, 2, urb_demo_msg) \<in># us_net urb_demo1"
  "(1, 1, urb_demo_msg) \<in># us_net urb_demo2"
  "(2, 1, urb_demo_msg) \<in># us_net urb_demo3"
  "(2, 2, urb_demo_msg) \<in># us_net urb_demo4"
  "(1, 3, urb_demo_msg) \<in># us_net urb_demo5"
  by (simp_all add: urb_demo_defs)

lemma urb_demo_outcome:
  "us_log urb_demo5 = [(1, urb_demo_id, [65]), (2, urb_demo_id, [65])]"
  "us_sent urb_demo5 1 = [[65]]"
  "us_net urb_demo5 = {#(1, 3, urb_demo_msg), (2, 3, urb_demo_msg)#}"
  by (simp_all add: urb_demo_defs urb_demo_id_def)

lemma urb_demo_reach: "us_reach {1, 2, 3} urb_demo_hosts urb_demo5"
proof -
  have "us_reach {1, 2, 3} urb_demo_hosts urb_demo1"
    unfolding urb_demo1_def
    by (intro us_reach.step [OF us_reach.start] us_step.broadcast) (simp_all add: us_init_def)
  then show ?thesis
    using urb_demo_deliverable reach_run_receive
    unfolding urb_demo2_def urb_demo3_def urb_demo4_def urb_demo5_def by metis
qed

section \<open>Guarantees\<close>

text \<open>
  C7. Uniform agreement: as soon as one process has delivered a message, even one that crashes
  afterwards, every process of a majority has delivered it once the majority has exchanged its
  copies.
\<close>

theorem urb_uniform_agreement:
  assumes "us_reach P hosts \<sigma>" and "urb_network P hosts" and "majority_of P C"
    and "d \<in> P" and "x \<in> delivered_by \<sigma> d"
    and "\<forall>q\<in>C. \<forall>e\<in>C. copies \<sigma> q e x = 0"
  shows "\<forall>e\<in>C. x \<in> delivered_by \<sigma> e"
  using majority_follows [OF us_reach_inv [OF assms(1,2)] assms(3-6)] by blast

theorem urb_uniform_agreement_witness: "urb_demo_id \<in> delivered_by urb_demo5 1 \<and> urb_demo_id \<in> delivered_by urb_demo5 2"
proof -
  have "majority_of {1, 2, 3} {1, 2 :: PeerID}" by (simp add: majority_of_def)
  moreover have "urb_demo_id \<in> delivered_by urb_demo5 2" by (auto simp: delivered_by_def urb_demo_outcome)
  moreover have "\<forall>q\<in>{1, 2}. \<forall>e\<in>{1, 2}. copies urb_demo5 q e urb_demo_id = 0" by (simp add: copies_def urb_demo_outcome)
  ultimately show ?thesis
    using urb_uniform_agreement [OF urb_demo_reach urb_demo_network, of "{1, 2}" 2 urb_demo_id] by simp
qed


text \<open>
  Validity: a message broadcast by a process of a majority is delivered by the whole
  majority once the majority has exchanged its copies.
\<close>

lemma urb_validity:
  assumes "us_reach P hosts \<sigma>" and "urb_network P hosts" and "majority_of P C"
    and "idf_peer x \<in> C" and "content \<sigma> x = Some b"
    and "\<forall>q\<in>C. \<forall>e\<in>C. copies \<sigma> q e x = 0"
  shows "\<forall>e\<in>C. x \<in> delivered_by \<sigma> e"
proof -
  have inv: "us_inv P \<sigma>" by (rule us_reach_inv [OF assms(1,2)])
  have "idf_peer x \<in> uh_joined \<sigma> x" using inv assms(5) by (simp add: us_inv_def inv_contents_def)
  then show ?thesis using majority_delivers [OF inv assms(3,4)] assms(6) by blast
qed

lemma urb_validity_witness: "urb_demo_id \<in> delivered_by urb_demo5 1 \<and> urb_demo_id \<in> delivered_by urb_demo5 2"
proof -
  have "majority_of {1, 2, 3} {1, 2 :: PeerID}" by (simp add: majority_of_def)
  moreover have "idf_peer urb_demo_id \<in> {1, 2}" by (simp add: urb_demo_id_def)
  moreover have "content urb_demo5 urb_demo_id = Some [65]" by (simp add: content_def urb_demo_id_def urb_demo_outcome)
  moreover have "\<forall>q\<in>{1, 2}. \<forall>e\<in>{1, 2}. copies urb_demo5 q e urb_demo_id = 0" by (simp add: copies_def urb_demo_outcome)
  ultimately show ?thesis
    using urb_validity [OF urb_demo_reach urb_demo_network, of "{1, 2}" urb_demo_id "[65]"] by simp
qed


text \<open>
  C8. Integrity: a process delivers a message at most once, and what it delivers is what the
  source broadcast under that identifier.
\<close>

theorem urb_integrity:
  assumes "us_reach P hosts \<sigma>" and "urb_network P hosts"
  shows "distinct (map (\<lambda>(d, x, b). (d, x)) (us_log \<sigma>)) \<and>
    (\<forall>(d, x, b)\<in>set (us_log \<sigma>). unat (idf_urb_id x) < length (us_sent \<sigma> (idf_peer x)) \<and>
       b = us_sent \<sigma> (idf_peer x) ! unat (idf_urb_id x))"
proof -
  have "inv_log \<sigma>" using us_reach_inv [OF assms] by (simp add: us_inv_def)
  then show ?thesis by (auto simp: inv_log_def content_def Let_def split: if_splits)
qed

theorem urb_integrity_witness:
  "distinct (map (\<lambda>(d, x, b). (d, x)) (us_log urb_demo5)) \<and>
   us_sent urb_demo5 (idf_peer urb_demo_id) ! unat (idf_urb_id urb_demo_id) = [65]"
proof -
  have "(2, urb_demo_id, [65]) \<in> set (us_log urb_demo5)" by (simp add: urb_demo_outcome)
  then show ?thesis using urb_integrity [OF urb_demo_reach urb_demo_network] by fastforce
qed


text \<open>
  C9. The callback always returns, and the count it keeps for an undelivered message is the
  number of distinct processes whose copies it was handed.
\<close>

theorem urb_callback_returns:
  assumes "us_reach P hosts \<sigma>" and "urb_network P hosts" and "(s, d, m) \<in># us_net \<sigma>"
  shows "\<exists>u es. URB_callback m (us_nodes \<sigma> d) = Some (u, es) \<and>
    (\<forall>x. \<not> WasDelivered x u \<longrightarrow>
       (case urb_acks u x of None \<Rightarrow> 0 | Some n \<Rightarrow> n) = card (uh_heard (us_receive (s, d, m) u es \<sigma>) d x))"
proof -
  have inv: "us_inv P \<sigma>" by (rule us_reach_inv [OF assms(1,2)])
  have d: "d \<in> P" using inv assms(3) by (auto simp: us_inv_def inv_contents_def)
  have "gc_ok (us_nodes \<sigma> d)" using inv d by (auto simp: us_inv_def inv_node_def)
  then obtain u es where cb: "URB_callback m (us_nodes \<sigma> d) = Some (u, es)"
    using URB_callback_step [of "us_nodes \<sigma> d" m] by blast
  let ?\<tau> = "us_receive (s, d, m) u es \<sigma>"
  have "inv_node P ?\<tau> d" using us_inv_receive [OF inv assms(3) cb] d by (simp add: us_inv_def)
  then have view: "msg_view u = expected_view P ?\<tau> d" by (simp add: inv_node_def us_receive_fields)
  have "\<not> WasDelivered x u \<longrightarrow>
      (case urb_acks u x of None \<Rightarrow> 0 | Some n \<Rightarrow> n) = card (uh_heard ?\<tau> d x)" for x
    using fun_cong [OF view, of x]
    by (auto simp: msg_view_def expected_view_def split: if_splits)
  then show ?thesis using cb by blast
qed


theorem urb_callback_returns_witness:
  "\<exists>u es. URB_callback urb_demo_msg (us_nodes urb_demo5 3) = Some (u, es) \<and>
    (\<forall>x. \<not> WasDelivered x u \<longrightarrow>
       (case urb_acks u x of None \<Rightarrow> 0 | Some n \<Rightarrow> n) =
         card (uh_heard (us_receive (1, 3, urb_demo_msg) u es urb_demo5) 3 x))"
  by (rule urb_callback_returns [OF urb_demo_reach urb_demo_network urb_demo_deliverable(5)])

end
