(* ===== verification/FIFO_System.thy ===== *)
theory FIFO_System
  imports FIFO_Broadcast URB_System "HOL-Library.Sublist"
begin

text \<open>
  FIFO broadcast across processes: the transport callback of \<open>FIFO_Broadcast\<close> on the network
  of \<open>URB_System\<close>. Every step is a step of uniform reliable broadcast underneath, followed by
  the calls of \<open>CleanDeliveredPrefix\<close> that the deliveries make; the FIFO layer is shown to be
  a client that keeps the contract of those calls, so the guarantees of reliable broadcast carry
  over, with the order of the source on top.
\<close>

section \<open>The system\<close>

record fifo_system =
  fs_nodes :: "PeerID \<Rightarrow> FIFO"
  fs_net :: "(PeerID \<times> PeerID \<times> URBMessage) multiset"
  fs_sent :: "PeerID \<Rightarrow> Bytes list"
  fs_out :: "PeerID \<Rightarrow> PeerID \<Rightarrow> Bytes list"

definition fs_init :: "(PeerID \<Rightarrow> HostsTable) \<Rightarrow> fifo_system" where
  "fs_init hosts = \<lparr>fs_nodes = (\<lambda>p. FIFO_init (hosts p)), fs_net = {#}, fs_sent = (\<lambda>_. []),
     fs_out = (\<lambda>_ _. [])\<rparr>"

fun fifo_sends :: "PeerID \<Rightarrow> FIFOEffect list \<Rightarrow> (PeerID \<times> PeerID \<times> URBMessage) list" where
  "fifo_sends p [] = []"
| "fifo_sends p (FSend q m # es) = (p, q, m) # fifo_sends p es"
| "fifo_sends p (_ # es) = fifo_sends p es"

definition fs_apply :: "PeerID \<Rightarrow> FIFO \<Rightarrow> FIFOEffect list \<Rightarrow> fifo_system \<Rightarrow> fifo_system" where
  "fs_apply p f es \<sigma> = \<sigma>\<lparr>fs_nodes := (fs_nodes \<sigma>)(p := f), fs_net := fs_net \<sigma> + mset (fifo_sends p es),
     fs_out := (fs_out \<sigma>)(p := (\<lambda>s. fs_out \<sigma> p s @ deliveries_of s es))\<rparr>"

inductive fs_step :: "MessageID \<Rightarrow> PeerID set \<Rightarrow> fifo_system \<Rightarrow> fifo_system \<Rightarrow> bool" for end_key P where
  broadcast: "p \<in> P \<Longrightarrow> length (fs_sent \<sigma> p) < 4294967295 \<Longrightarrow> FIFO_Broadcast b (fs_nodes \<sigma> p) = (f, c, es) \<Longrightarrow>
     fs_step end_key P \<sigma> ((fs_apply p f es \<sigma>)\<lparr>fs_sent := (fs_sent \<sigma>)(p := fs_sent \<sigma> p @ [b])\<rparr>)"
| receive: "(s, d, m) \<in># fs_net \<sigma> \<Longrightarrow>
     FIFO_transport_callback end_key m (fs_nodes \<sigma> d) = Some (Inr (f, es)) \<Longrightarrow>
     fs_step end_key P \<sigma> (fs_apply d f es (\<sigma>\<lparr>fs_net := fs_net \<sigma> - {#(s, d, m)#}\<rparr>))"

inductive fs_reach :: "MessageID \<Rightarrow> PeerID set \<Rightarrow> (PeerID \<Rightarrow> HostsTable) \<Rightarrow> fifo_system \<Rightarrow> bool" for end_key P hosts where
  start: "fs_reach end_key P hosts (fs_init hosts)"
| step: "fs_reach end_key P hosts \<sigma> \<Longrightarrow> fs_step end_key P \<sigma> \<tau> \<Longrightarrow> fs_reach end_key P hosts \<tau>"

section \<open>Simulation\<close>

text \<open>What \<open>p\<close> has received from \<open>src\<close> through reliable broadcast, by id.\<close>

definition received :: "urb_system \<Rightarrow> PeerID \<Rightarrow> PeerID \<Rightarrow> nat \<Rightarrow> Bytes option" where
  "received h p src k =
     (if k < 4294967296 \<and> \<lparr>idf_peer = src, idf_urb_id = of_nat k\<rparr> \<in> delivered_by h p
      then content h \<lparr>idf_peer = src, idf_urb_id = of_nat k\<rparr> else None)"

definition in_step :: "fifo_system \<Rightarrow> urb_system \<Rightarrow> bool" where
  "in_step \<sigma> h \<longleftrightarrow> (\<forall>p. ff_urb (fs_nodes \<sigma> p) = us_nodes h p) \<and> fs_net \<sigma> = us_net h \<and> fs_sent \<sigma> = us_sent h"

definition in_order :: "fifo_system \<Rightarrow> urb_system \<Rightarrow> PeerID \<Rightarrow> PeerID \<Rightarrow> bool" where
  "in_order \<sigma> h p src \<longleftrightarrow> (\<exists>n. source_ok (received h p src) n src (fs_nodes \<sigma> p) \<and>
     fs_out \<sigma> p src = take n (us_sent h src))"

definition fs_sim :: "PeerID set \<Rightarrow> (PeerID \<Rightarrow> HostsTable) \<Rightarrow> fifo_system \<Rightarrow> urb_system \<Rightarrow> bool" where
  "fs_sim P hosts \<sigma> h \<longleftrightarrow> us_reach P hosts h \<and> in_step \<sigma> h \<and> (\<forall>p\<in>P. \<forall>src. in_order \<sigma> h p src)"

lemma received_eq:
  assumes "us_inv P h"
  shows "received h p src k = (if k < length (us_sent h src) \<and> \<lparr>idf_peer = src, idf_urb_id = of_nat k\<rparr> \<in> delivered_by h p
    then Some (us_sent h src ! k) else None)"
proof -
  have "length (us_sent h src) \<le> 4294967295" using assms by (simp add: us_inv_def)
  then show ?thesis by (auto simp: received_def content_def Let_def unat_of_nat_u32)
qed

lemma received_small:
  assumes "us_inv P h" and "received h p src k \<noteq> None"
  shows "k < 4294967295"
proof -
  have "length (us_sent h src) \<le> 4294967295" using assms by (simp add: us_inv_def)
  then show ?thesis using assms(2) by (simp add: received_eq [OF assms(1)] split: if_splits)
qed

lemma received_content:
  assumes inv: "us_inv P h" and "\<forall>i<n. received h p src i \<noteq> None"
  shows "map (\<lambda>j. the (received h p src j)) [m..<n] = drop m (take n (us_sent h src))" and "n \<le> length (us_sent h src)"
proof -
  show le: "n \<le> length (us_sent h src)"
  proof (rule ccontr)
    assume "\<not> n \<le> length (us_sent h src)"
    then have "received h p src (length (us_sent h src)) \<noteq> None" using assms(2) by simp
    then show False by (simp add: received_eq [OF inv])
  qed
  have "the (received h p src j) = us_sent h src ! j" if "j < n" for j
    using assms(2) that by (auto simp: received_eq [OF inv] split: if_splits)
  then show "map (\<lambda>j. the (received h p src j)) [m..<n] = drop m (take n (us_sent h src))"
    using le by (intro nth_equalityI) auto
qed

lemma source_ok_cong:
  assumes "source_ok R n src f" and "ff_pendings g src = ff_pendings f src" and "ff_next_ids g src = ff_next_ids f src"
  shows "source_ok R n src g"
  using assms by (simp add: source_ok_def)

lemma fs_sim_init:
  assumes "urb_network P hosts"
  shows "fs_sim P hosts (fs_init hosts) (us_init hosts)"
proof -
  have "received (us_init hosts) p src = Map.empty" for p src
    by (simp add: fun_eq_iff received_def delivered_by_def us_init_def)
  then show ?thesis
    using us_reach.start [of P hosts]
    by (auto simp: fs_sim_def in_step_def in_order_def fs_init_def us_init_def FIFO_init_def source_ok_def
        buffered_def)
qed

subsection \<open>Broadcasting\<close>

lemma fifo_sends_of_urb:
  "fifo_sends p (List.map_filter (\<lambda>e. case e of URBSend p m \<Rightarrow> Some (FSend p m) | URBDeliver i b \<Rightarrow> None) es) =
     urb_sends p es"
  "deliveries_of s (List.map_filter (\<lambda>e. case e of URBSend p m \<Rightarrow> Some (FSend p m) | URBDeliver i b \<Rightarrow> None) es) = []"
  by (induction p es rule: urb_sends.induct) (auto simp: List.map_filter_simps)

lemma FIFO_Broadcast_urb:
  assumes "FIFO_Broadcast b f = (g, c, es)"
  shows "\<exists>us. URB_Broadcast_next b (ff_urb f) = (ff_urb g, us) \<and> fifo_sends p es = urb_sends p us \<and>
    deliveries_of s es = [] \<and> ff_pendings g = ff_pendings f \<and> ff_next_ids g = ff_next_ids f"
  using assms
  by (cases "URB_GetNextID (ff_urb f)"; cases "URB_Broadcast b (fst (URB_GetNextID (ff_urb f))) (snd (URB_GetNextID (ff_urb f)))")
    (auto simp: FIFO_Broadcast_def URB_Broadcast_next_def Let_def fifo_sends_of_urb)

lemma received_broadcast:
  assumes inv: "us_inv P h" and "p \<in> P" and len: "length (us_sent h p) < 4294967295"
  shows "received (us_broadcast p b h) q src = received h q src"
    and "us_sent (us_broadcast p b h) = (us_sent h)(p := us_sent h p @ [b])"
proof -
  show sent: "us_sent (us_broadcast p b h) = (us_sent h)(p := us_sent h p @ [b])"
    by (simp add: us_broadcast_def us_apply_def case_prod_beta)
  have inv': "us_inv P (us_broadcast p b h)" by (rule us_inv_broadcast [OF inv assms(2,3)])
  obtain u where "us_log (us_broadcast p b h) = us_log h"
    using us_broadcast_fields(2) [OF inv assms(2,3), of b] by auto
  then have dels: "delivered_by (us_broadcast p b h) q = delivered_by h q" by (simp add: delivered_by_def)
  have "\<lparr>idf_peer = p, idf_urb_id = of_nat (length (us_sent h p))\<rparr> \<notin> delivered_by h q"
    by (rule unheard(3) [OF inv us_broadcast_fields(1) [OF inv assms(2,3)]])
  then show "received (us_broadcast p b h) q src = received h q src"
    by (auto simp: fun_eq_iff received_eq [OF inv] received_eq [OF inv'] dels sent nth_append less_Suc_eq)
qed

lemma fs_sim_broadcast:
  assumes sim: "fs_sim P hosts \<sigma> h" and net: "urb_network P hosts" and p: "p \<in> P"
    and len: "length (fs_sent \<sigma> p) < 4294967295" and fb: "FIFO_Broadcast b (fs_nodes \<sigma> p) = (f, c, es)"
  shows "fs_sim P hosts ((fs_apply p f es \<sigma>)\<lparr>fs_sent := (fs_sent \<sigma>)(p := fs_sent \<sigma> p @ [b])\<rparr>) (us_broadcast p b h)"
    (is "fs_sim P hosts ?\<tau> ?h")
proof -
  have reach: "us_reach P hosts h" and stp: "in_step \<sigma> h" using sim by (auto simp: fs_sim_def)
  have inv: "us_inv P h" by (rule us_reach_inv [OF reach net])
  have len': "length (us_sent h p) < 4294967295" using len stp by (simp add: in_step_def)
  note rec = received_broadcast [OF inv p len']
  obtain us where us: "URB_Broadcast_next b (us_nodes h p) = (ff_urb f, us)" "fifo_sends p es = urb_sends p us"
    and frame: "\<And>s. deliveries_of s es = []" "ff_pendings f = ff_pendings (fs_nodes \<sigma> p)"
      "ff_next_ids f = ff_next_ids (fs_nodes \<sigma> p)"
    using FIFO_Broadcast_urb [OF fb] stp unfolding in_step_def by metis
  have "us_reach P hosts ?h" by (rule us_reach.step [OF reach us_step.broadcast [OF p len']])
  moreover have "in_step ?\<tau> ?h"
    using stp us rec(2) by (simp add: in_step_def fs_apply_def us_broadcast_def us_apply_def)
  moreover have "in_order ?\<tau> ?h q src" if q: "q \<in> P" for q src
  proof -
    obtain n where n: "source_ok (received h q src) n src (fs_nodes \<sigma> q)" "fs_out \<sigma> q src = take n (us_sent h src)"
      using sim q by (auto simp: fs_sim_def in_order_def)
    have "n \<le> length (us_sent h src)"
      using n(1) by (intro received_content(2) [OF inv]) (auto simp: source_ok_def buffered_def)
    then have "take n (us_sent ?h src) = take n (us_sent h src)" by (auto simp: rec(2))
    moreover have "source_ok (received ?h q src) n src (fs_nodes ?\<tau> q)"
      using n(1) unfolding rec(1) by (rule source_ok_cong) (simp_all add: fs_apply_def frame)
    ultimately show ?thesis using n(2) frame(1) unfolding in_order_def
      by (intro exI [of _ n]) (simp add: fs_apply_def)
  qed
  ultimately show ?thesis by (simp add: fs_sim_def)
qed

subsection \<open>Receiving\<close>

lemma FIFO_effects_sends:
  "FIFO_effects ek (map (\<lambda>(q, m). URBSend q m) qs) f = Inr (f, map (\<lambda>(q, m). FSend q m) qs)"
  by (induction qs) (auto simp: case_prod_beta)

lemma fifo_sends_map:
  "fifo_sends p (map (\<lambda>(q, m). FSend q m) qs) = map (\<lambda>(q, m). (p, q, m)) qs"
  "deliveries_of s (map (\<lambda>(q, m). FSend q m) qs) = []"
  "urb_sends p (map (\<lambda>(q, m). URBSend q m) qs) = map (\<lambda>(q, m). (p, q, m)) qs"
  "urb_deliveries p (map (\<lambda>(q, m). URBSend q m) qs) = []"
  by (induction qs) auto

lemma fifo_sends_append: "fifo_sends p (xs @ ys) = fifo_sends p xs @ fifo_sends p ys"
  by (induction p xs rule: fifo_sends.induct) auto

lemma fifo_sends_Deliver: "Deliver src k b f = (g, es) \<Longrightarrow> fifo_sends p es = []"
  by (auto simp: Deliver_def Let_def Map_Take_def split: if_splits option.splits)

lemma fifo_sends_deliver_ready:
  "deliver_ready ek src pend f = Inr (g, es) \<Longrightarrow> fifo_sends p es = []"
proof (induction pend arbitrary: f es)
  case Nil
  then show ?case by (auto split: if_splits)
next
  case (Cons x rest)
  then show ?case
    by (cases x) (auto simp: Let_def fbind_eq_Inr fifo_sends_append dest!: fifo_sends_Deliver split: if_splits prod.splits)
qed

lemma fifo_sends_callback: "FIFO_callback ek i b f = Inr (g, es) \<Longrightarrow> fifo_sends p es = []"
  by (auto simp: FIFO_callback_def Let_def fbind_eq_Inr fifo_sends_append
      dest!: fifo_sends_Deliver fifo_sends_deliver_ready split: if_splits prod.splits)

lemma delivered_receive:
  assumes "us_inv P h" and "(s, d, m) \<in># us_net h" and "URB_callback m (us_nodes h d) = Some (u, us)"
  shows "delivered_by (us_receive (s, d, m) u us h) e =
    (if e = d \<and> fires P h d (identifier_of m) then insert (identifier_of m) (delivered_by h d) else delivered_by h e)"
  by (auto simp: delivered_by_def us_receive_fields receive_step(3) [OF assms])

lemma received_receive:
  assumes inv: "us_inv P h" and mem: "(s, d, m) \<in># us_net h" and cb: "URB_callback m (us_nodes h d) = Some (u, us)"
  shows "received (us_receive (s, d, m) u us h) q src =
    (if q = d \<and> src = um_source m \<and> fires P h d (identifier_of m)
     then (received h d src)(unat (um_urb_id m) \<mapsto> um_message m) else received h q src)"
proof
  fix k
  let ?i = "identifier_of m" and ?x = "\<lparr>idf_peer = src, idf_urb_id = of_nat k :: MessageID\<rparr>"
  have cont: "content (us_receive (s, d, m) u us h) = content h" "content h ?i = Some (um_message m)"
    using inv mem by (auto simp: fun_eq_iff content_def us_receive_fields us_inv_def inv_contents_def)
  have "?x = ?i \<and> k < 4294967296 \<longleftrightarrow> src = um_source m \<and> k = unat (um_urb_id m)"
    using unat_u32_bound [of "um_urb_id m"] unat_of_nat_u32 [of k] by (auto simp: identifier_of_def)
  then show "received (us_receive (s, d, m) u us h) q src k =
    (if q = d \<and> src = um_source m \<and> fires P h d ?i
     then (received h d src)(unat (um_urb_id m) \<mapsto> um_message m) else received h q src) k"
    using cont by (auto simp: received_def delivered_receive [OF inv mem cb])
qed

text \<open>After the deliveries, one more call of the client brings the reliable broadcast up to date.\<close>

lemma clean_reach:
  assumes reach: "us_reach P hosts h" and inv: "us_inv P h" and d: "d \<in> P" and le: "n \<le> n'"
    and all: "\<forall>k<n'. received h d src k \<noteq> None"
  shows "us_reach P hosts (h\<lparr>us_nodes := (us_nodes h)(d := cleaned_to src n n' (us_nodes h d))\<rparr>)"
proof (cases "n = n'")
  case True
  then show ?thesis using reach by (simp add: cleaned_to_def)
next
  case False
  have len: "n' \<le> length (us_sent h src)" using received_content(2) [OF inv all] .
  have "length (us_sent h src) \<le> 4294967295" using inv by (simp add: us_inv_def)
  then have small: "n' - 1 < 4294967296" using len by simp
  have "\<lparr>idf_peer = src, idf_urb_id = i\<rparr> \<in> delivered_by h d" if "i \<le> of_nat (n' - 1)" for i :: MessageID
  proof -
    have "unat i \<le> n' - 1" using that unat_of_nat_u32 [OF small] by (simp add: word_le_nat_alt)
    then have "received h d src (unat i) \<noteq> None" using all False le by simp
    then show ?thesis by (simp add: received_def split: if_splits)
  qed
  then have "us_step P h (h\<lparr>us_nodes := (us_nodes h)(d := CleanDeliveredPrefix src (of_nat (n' - 1)) (us_nodes h d))\<rparr>)"
    by (intro us_step.clean d) blast
  then show ?thesis using us_reach.step [OF reach] False by (simp add: cleaned_to_def)
qed

lemma received_nodes [simp]: "received (h\<lparr>us_nodes := N\<rparr>) = received h"
  by (auto simp: fun_eq_iff received_def delivered_by_def content_def)

lemma in_order_other:
  assumes "in_order \<sigma> h q src" and "received h' q src = received h q src" and "us_sent h' src = us_sent h src"
    and "ff_pendings (fs_nodes \<tau> q) src = ff_pendings (fs_nodes \<sigma> q) src"
    and "ff_next_ids (fs_nodes \<tau> q) src = ff_next_ids (fs_nodes \<sigma> q) src" and "fs_out \<tau> q src = fs_out \<sigma> q src"
  shows "in_order \<tau> h' q src"
  using assms unfolding in_order_def by (auto intro: source_ok_cong)

lemma in_step_receive:
  assumes "in_step \<sigma> h" and "fifo_sends d es = urb_sends d us"
  shows "in_step (fs_apply d f es (\<sigma>\<lparr>fs_net := fs_net \<sigma> - {#(s, d, m)#}\<rparr>))
    ((us_receive (s, d, m) u us h)\<lparr>us_nodes := (us_nodes (us_receive (s, d, m) u us h))(d := ff_urb f)\<rparr>)"
  using assms by (auto simp: in_step_def fs_apply_def us_receive_fields)

lemma in_order_drained:
  assumes inv: "us_inv P h" and out: "fs_out \<sigma> d src = take n (us_sent h src)"
    and run: "drained (received h d src) n n' src f g es"
  shows "in_order (fs_apply d g es (\<sigma>\<lparr>fs_net := N\<rparr>)) h d src"
proof -
  let ?S = "us_sent h src"
  have le: "n \<le> n'" and all: "\<forall>k<n'. received h d src k \<noteq> None" using run by (auto simp: drained_def buffered_def)
  have ok: "source_ok (received h d src) n' src g"
    by (rule drained_source_ok [OF run]) (use received_small [OF inv] in blast)
  have "take n ?S @ drop n (take n' ?S) = take n' ?S"
    using append_take_drop_id [of n "take n' ?S"] le by (simp add: min_absorb1)
  then show ?thesis
    using ok out run received_content(1) [OF inv all, of n] unfolding in_order_def
    by (intro exI [of _ n']) (simp add: fs_apply_def drained_def)
qed

text \<open>A copy that does not complete a quorum is only relayed.\<close>

lemma fs_receive_relays:
  assumes inv: "us_inv P h" and stp: "in_step \<sigma> h" and ord: "\<forall>p\<in>P. \<forall>src. in_order \<sigma> h p src"
    and mem: "(s, d, m) \<in># us_net h" and cb: "URB_callback m (us_nodes h d) = Some (u, us)"
    and quiet: "\<not> fires P h d (identifier_of m)"
  defines "f \<equiv> (fs_nodes \<sigma> d)\<lparr>ff_urb := u\<rparr>" and "h' \<equiv> us_receive (s, d, m) u us h"
  shows "\<exists>es. FIFO_effects 0 us f = Inr (f, es) \<and>
    in_step (fs_apply d f es (\<sigma>\<lparr>fs_net := fs_net \<sigma> - {#(s, d, m)#}\<rparr>)) h' \<and>
    (\<forall>p\<in>P. \<forall>src. in_order (fs_apply d f es (\<sigma>\<lparr>fs_net := fs_net \<sigma> - {#(s, d, m)#}\<rparr>)) h' p src)"
proof -
  obtain es where run: "FIFO_effects 0 us f = Inr (f, es)" "fifo_sends d es = urb_sends d us"
    "\<And>q. deliveries_of q es = []"
    using quiet receive_effects [OF inv mem cb]
      FIFO_effects_sends [of 0 "BEB_Broadcast (urb_hosts (us_nodes h d)) m" f]
    by (auto simp: sends_to_all_def fifo_sends_map split: if_splits)
  let ?\<tau> = "fs_apply d f es (\<sigma>\<lparr>fs_net := fs_net \<sigma> - {#(s, d, m)#}\<rparr>)"
  have "in_step ?\<tau> h'"
    using in_step_receive [OF stp run(2)] by (auto simp: in_step_def us_receive_fields f_def h'_def)
  moreover have "in_order ?\<tau> h' p src" if "p \<in> P" for p src
    by (rule in_order_other [of \<sigma> h])
      (use that ord quiet run(3) in \<open>simp_all add: received_receive [OF inv mem cb] fs_apply_def us_receive_fields f_def h'_def\<close>)
  ultimately show ?thesis using run(1) by blast
qed

text \<open>A copy that completes a quorum is handed over in the order of its source.\<close>

lemma fs_receive_fires:
  assumes reach: "us_reach P hosts (us_receive (s, d, m) u us h)" and inv: "us_inv P h"
    and inv': "us_inv P (us_receive (s, d, m) u us h)" and d: "d \<in> P" and stp: "in_step \<sigma> h"
    and ord: "\<forall>p\<in>P. \<forall>src. in_order \<sigma> h p src" and mem: "(s, d, m) \<in># us_net h"
    and cb: "URB_callback m (us_nodes h d) = Some (u, us)" and fires: "fires P h d (identifier_of m)"
  shows "\<exists>f es h'. FIFO_effects 0 us ((fs_nodes \<sigma> d)\<lparr>ff_urb := u\<rparr>) = Inr (f, es) \<and>
    fs_sim P hosts (fs_apply d f es (\<sigma>\<lparr>fs_net := fs_net \<sigma> - {#(s, d, m)#}\<rparr>)) h'"
proof -
  let ?h = "us_receive (s, d, m) u us h" and ?f = "(fs_nodes \<sigma> d)\<lparr>ff_urb := u\<rparr>" and ?i = "identifier_of m"
    and ?src = "um_source m" and ?N = "fs_net \<sigma> - {#(s, d, m)#}"
  note rec = received_receive [OF inv mem cb]
  have us: "us = [URBDeliver ?i (um_message m)]"
    using receive_effects [OF inv mem cb] fires by (auto simp: relays_def fires_def)
  obtain n where n: "source_ok (received h d ?src) n ?src (fs_nodes \<sigma> d)" "fs_out \<sigma> d ?src = take n (us_sent h ?src)"
    using ord d by (auto simp: in_order_def)
  have R: "received ?h d ?src = (received h d ?src)(unat (um_urb_id m) \<mapsto> um_message m)"
    using fires by (simp add: rec)
  have "source_ok (received h d ?src) n ?src ?f" by (rule source_ok_cong [OF n(1)]) simp_all
  moreover have "received h d ?src (unat (um_urb_id m)) = None"
    using fires by (simp add: received_def fires_def identifier_of_def)
  moreover have "unat (um_urb_id m) < 4294967295" using received_small [OF inv', of d ?src] R by simp
  ultimately obtain f es n' where run: "FIFO_callback 0 ?i (um_message m) ?f = Inr (f, es)"
      "drained (received ?h d ?src) n n' ?src ?f f es"
    using FIFO_callback_run [of "received h d ?src" n ?i ?f 0 "um_message m"] R by (auto simp: identifier_of_def)
  let ?h' = "?h\<lparr>us_nodes := (us_nodes ?h)(d := ff_urb f)\<rparr>" and ?\<tau> = "fs_apply d f es (\<sigma>\<lparr>fs_net := ?N\<rparr>)"
  have "n \<le> n'" "\<forall>k<n'. received ?h d ?src k \<noteq> None" "ff_urb f = cleaned_to ?src n n' u"
    using run(2) by (auto simp: drained_def buffered_def)
  then have reach': "us_reach P hosts ?h'"
    using clean_reach [OF reach inv' d, of n n' ?src] by (simp add: us_receive_fields)
  have "in_order ?\<tau> ?h' p src" if p: "p \<in> P" for p src
  proof (cases "p = d \<and> src = ?src")
    case True
    have "in_order ?\<tau> ?h d ?src"
      by (rule in_order_drained [OF inv' _ run(2)]) (simp add: n(2) us_receive_fields)
    with True show ?thesis by (simp add: in_order_def)
  next
    case False
    have old: "in_order \<sigma> h p src" using ord p by blast
    have "other_sources ?src ?f f" "\<forall>p. p \<noteq> ?src \<longrightarrow> deliveries_of p es = []"
      using run(2) by (simp_all add: drained_def)
    then show ?thesis
      using False by (intro in_order_other [OF old]) (auto simp: rec fs_apply_def us_receive_fields other_sources_def)
  qed
  moreover have "in_step ?\<tau> ?h'" by (rule in_step_receive [OF stp]) (simp add: us fifo_sends_callback [OF run(1)])
  ultimately show ?thesis using reach' run(1) us unfolding fs_sim_def by auto
qed

lemma fs_sim_receive:
  assumes sim: "fs_sim P hosts \<sigma> h" and net: "urb_network P hosts" and mem: "(s, d, m) \<in># fs_net \<sigma>"
  shows "\<exists>f es h'. FIFO_transport_callback 0 m (fs_nodes \<sigma> d) = Some (Inr (f, es)) \<and>
    fs_sim P hosts (fs_apply d f es (\<sigma>\<lparr>fs_net := fs_net \<sigma> - {#(s, d, m)#}\<rparr>)) h'"
proof -
  have reach: "us_reach P hosts h" and stp: "in_step \<sigma> h" and ord: "\<forall>p\<in>P. \<forall>src. in_order \<sigma> h p src"
    using sim by (auto simp: fs_sim_def)
  have inv: "us_inv P h" by (rule us_reach_inv [OF reach net])
  have mem': "(s, d, m) \<in># us_net h" using mem stp by (simp add: in_step_def)
  have d: "d \<in> P" using inv mem' by (auto simp: us_inv_def inv_contents_def)
  have "gc_ok (us_nodes h d)" using inv d by (auto simp: us_inv_def inv_node_def)
  then obtain u us where cb: "URB_callback m (us_nodes h d) = Some (u, us)"
    using URB_callback_step [of "us_nodes h d" m] by blast
  have reach': "us_reach P hosts (us_receive (s, d, m) u us h)"
    by (rule us_reach.step [OF reach us_step.receive [OF mem' cb]])
  have tc: "FIFO_transport_callback 0 m (fs_nodes \<sigma> d) = Some (FIFO_effects 0 us ((fs_nodes \<sigma> d)\<lparr>ff_urb := u\<rparr>))"
    using stp cb by (simp add: FIFO_transport_callback_def in_step_def)
  show ?thesis
  proof (cases "fires P h d (identifier_of m)")
    case False
    then show ?thesis using fs_receive_relays [OF inv stp ord mem' cb] tc reach' unfolding fs_sim_def by fastforce
  next
    case True
    then show ?thesis
      using fs_receive_fires [OF reach' inv us_reach_inv [OF reach' net] d stp ord mem' cb] tc by auto
  qed
qed
lemma fs_reach_sim:
  assumes "fs_reach 0 P hosts \<sigma>" and "urb_network P hosts"
  shows "\<exists>h. fs_sim P hosts \<sigma> h"
  using assms
proof (induction rule: fs_reach.induct)
  case start
  then show ?case using fs_sim_init by blast
next
  case (step \<sigma> \<tau>)
  then obtain h where sim: "fs_sim P hosts \<sigma> h" by blast
  from step(2) show ?case
  proof cases
    case (broadcast p b f c es)
    then show ?thesis using fs_sim_broadcast [OF sim step(4)] by blast
  next
    case (receive s d m f es)
    then show ?thesis using fs_sim_receive [OF sim step(4) receive(2)] by auto
  qed
qed

text \<open>
  If everything that \<open>d\<close> has received from a source was received by \<open>e\<close> too, then
  \<open>e\<close> has delivered at least as much.
\<close>

lemma out_grows:
  assumes sim: "fs_sim P hosts \<sigma> h" and "d \<in> P" and "e \<in> P"
    and sub: "\<And>k. received h d src k \<noteq> None \<Longrightarrow> received h e src k \<noteq> None"
  shows "prefix (fs_out \<sigma> d src) (fs_out \<sigma> e src)"
proof -
  obtain n where n: "source_ok (received h d src) n src (fs_nodes \<sigma> d)" "fs_out \<sigma> d src = take n (us_sent h src)"
    using sim assms(2) by (auto simp: fs_sim_def in_order_def)
  obtain k where k: "source_ok (received h e src) k src (fs_nodes \<sigma> e)" "fs_out \<sigma> e src = take k (us_sent h src)"
    using sim assms(3) by (auto simp: fs_sim_def in_order_def)
  have "n \<le> k"
  proof (rule ccontr)
    assume "\<not> n \<le> k"
    then have "received h d src k \<noteq> None" using n(1) by (auto simp: source_ok_def buffered_def)
    then show False using sub [of k] k(1) by (simp add: source_ok_def)
  qed
  then show ?thesis using n(2) k(2) by (metis prefix_def take_add le_iff_add)
qed

lemma quiet_copies:
  assumes "in_step \<sigma> h" and "\<forall>q e m. (q, e, m) \<in># fs_net \<sigma> \<longrightarrow> um_source m = src \<longrightarrow> \<not> (q \<in> C \<and> e \<in> C)"
    and "idf_peer x = src" and "q \<in> C" and "e \<in> C"
  shows "copies h q e x = 0"
proof -
  have "{#y \<in># us_net h. fst y = q \<and> fst (snd y) = e \<and> identifier_of (snd (snd y)) = x#} = {#}"
    using assms unfolding set_mset_eq_empty_iff [symmetric] by (auto simp: in_step_def identifier_of_def)
  then show ?thesis unfolding copies_def by (metis size_empty)
qed

section \<open>A demonstration run\<close>

text \<open>
  Process 1 broadcasts two messages; the copies of the second one overtake those of the
  first at process 2, which delivers both in order once the first is there.
\<close>

definition run_fbroadcast :: "PeerID \<Rightarrow> Bytes \<Rightarrow> fifo_system \<Rightarrow> fifo_system" where
  "run_fbroadcast p b \<sigma> = (case FIFO_Broadcast b (fs_nodes \<sigma> p) of (f, c, es) \<Rightarrow>
     (fs_apply p f es \<sigma>)\<lparr>fs_sent := (fs_sent \<sigma>)(p := fs_sent \<sigma> p @ [b])\<rparr>)"

definition run_freceive :: "PeerID \<times> PeerID \<times> URBMessage \<Rightarrow> fifo_system \<Rightarrow> fifo_system" where
  "run_freceive x \<sigma> = (case x of (s, d, m) \<Rightarrow> case FIFO_transport_callback 0 m (fs_nodes \<sigma> d) of
     Some (Inr (f, es)) \<Rightarrow> fs_apply d f es (\<sigma>\<lparr>fs_net := fs_net \<sigma> - {#(s, d, m)#}\<rparr>) | _ \<Rightarrow> \<sigma>)"

lemma reach_run_fbroadcast:
  assumes "fs_reach 0 P hosts \<sigma>" and "p \<in> P" and "length (fs_sent \<sigma> p) < 4294967295"
  shows "fs_reach 0 P hosts (run_fbroadcast p b \<sigma>)"
  using assms unfolding run_fbroadcast_def
  by (cases "FIFO_Broadcast b (fs_nodes \<sigma> p)") (auto intro: fs_reach.step fs_step.broadcast)

lemma reach_run_freceive:
  assumes "fs_reach 0 P hosts \<sigma>" and "x \<in># fs_net \<sigma>"
  shows "fs_reach 0 P hosts (run_freceive x \<sigma>)"
  using assms by (cases x)
    (auto simp: run_freceive_def split: option.split sum.split intro: fs_reach.step fs_step.receive)

definition fifo_demo_hosts :: "PeerID \<Rightarrow> HostsTable" where
  "fifo_demo_hosts = HostsTable_init [\<lparr>host_id = 1, host_ip = 0, host_port = 1\<rparr>,
     \<lparr>host_id = 2, host_ip = 0, host_port = 2\<rparr>]"

definition fifo_demo_msg :: "MessageID \<Rightarrow> URBMessage" where
  "fifo_demo_msg i = \<lparr>um_source = 1, um_urb_id = i, um_message = [65 + ucast i]\<rparr>"

definition fifo_demo0 :: fifo_system where
  "fifo_demo0 = run_fbroadcast 1 [66] (run_fbroadcast 1 [65] (fs_init fifo_demo_hosts))"
definition fifo_demo1 :: fifo_system where "fifo_demo1 = run_freceive (1, 2, fifo_demo_msg 1) fifo_demo0"
definition fifo_demo2 :: fifo_system where "fifo_demo2 = run_freceive (2, 2, fifo_demo_msg 1) fifo_demo1"
definition fifo_demo3 :: fifo_system where "fifo_demo3 = run_freceive (1, 2, fifo_demo_msg 0) fifo_demo2"
definition fifo_demo4 :: fifo_system where "fifo_demo4 = run_freceive (2, 2, fifo_demo_msg 0) fifo_demo3"
definition fifo_demo5 :: fifo_system where "fifo_demo5 = run_freceive (1, 1, fifo_demo_msg 1) fifo_demo4"
definition fifo_demo6 :: fifo_system where "fifo_demo6 = run_freceive (2, 1, fifo_demo_msg 1) fifo_demo5"
definition fifo_demo7 :: fifo_system where "fifo_demo7 = run_freceive (1, 1, fifo_demo_msg 0) fifo_demo6"
definition fifo_demo8 :: fifo_system where "fifo_demo8 = run_freceive (2, 1, fifo_demo_msg 0) fifo_demo7"

lemmas fifo_demo_defs = fifo_demo0_def fifo_demo1_def fifo_demo2_def fifo_demo3_def fifo_demo4_def
  fifo_demo5_def fifo_demo6_def fifo_demo7_def fifo_demo8_def run_freceive_def run_fbroadcast_def fifo_demo_msg_def fs_init_def fs_apply_def fifo_demo_hosts_def FIFO_init_def
  FIFO_Broadcast_def FIFO_transport_callback_def FIFO_callback_def Deliver_def CleanDeliveredPrefix_def map_erase_def
  HostsTable_init_def URB_init_def GetNetworkSize_def LocalID_def GetPeers_def URB_GetNextID_def UniqueID_Get_def
  URB_Broadcast_def BEB_Broadcast_def Map_Set_def Map_Has_def Map_Take_def URB_callback_def identifier_of_def
  WasDelivered_def DeliveredGarbageCollection_def CanDeliver_def Let_def List.map_filter_simps

lemma fifo_demo_network: "urb_network {1, 2} fifo_demo_hosts"
  by (auto simp: urb_network_def fifo_demo_hosts_def enumerates_def peers_eq)

lemma fifo_demo_deliverable:
  "(1, 2, fifo_demo_msg 1) \<in># fs_net fifo_demo0"
  "(2, 2, fifo_demo_msg 1) \<in># fs_net fifo_demo1"
  "(1, 2, fifo_demo_msg 0) \<in># fs_net fifo_demo2"
  "(2, 2, fifo_demo_msg 0) \<in># fs_net fifo_demo3"
  "(1, 1, fifo_demo_msg 1) \<in># fs_net fifo_demo4"
  "(2, 1, fifo_demo_msg 1) \<in># fs_net fifo_demo5"
  "(1, 1, fifo_demo_msg 0) \<in># fs_net fifo_demo6"
  "(2, 1, fifo_demo_msg 0) \<in># fs_net fifo_demo7"
  by (simp_all add: fifo_demo_defs)

lemma fifo_demo_outcome: "fs_out fifo_demo2 2 1 = []" "fs_out fifo_demo4 2 1 = [[65], [66]]"
  "fs_net fifo_demo8 = {#}"
  by (simp_all add: fifo_demo_defs)

lemma fifo_demo_reach: "fs_reach 0 {1, 2} fifo_demo_hosts fifo_demo4" "fs_reach 0 {1, 2} fifo_demo_hosts fifo_demo8"
proof -
  have "fs_reach 0 {1, 2} fifo_demo_hosts fifo_demo0"
    unfolding fifo_demo0_def
    by (intro reach_run_fbroadcast fs_reach.start)
      (simp_all add: run_fbroadcast_def FIFO_Broadcast_def Let_def case_prod_beta fs_apply_def fs_init_def)
  then show "fs_reach 0 {1, 2} fifo_demo_hosts fifo_demo4"
    using fifo_demo_deliverable(1-4) reach_run_freceive
    unfolding fifo_demo1_def fifo_demo2_def fifo_demo3_def fifo_demo4_def by metis
  then show "fs_reach 0 {1, 2} fifo_demo_hosts fifo_demo8"
    using fifo_demo_deliverable(5-8) reach_run_freceive
    unfolding fifo_demo5_def fifo_demo6_def fifo_demo7_def fifo_demo8_def by metis
qed

section \<open>Guarantees\<close>

lemma fifo_prefix:
  assumes "fs_reach 0 P hosts \<sigma>" and "urb_network P hosts" and "p \<in> P"
  shows "prefix (fs_out \<sigma> p src) (fs_sent \<sigma> src)"
proof -
  obtain h where sim: "fs_sim P hosts \<sigma> h" using fs_reach_sim [OF assms(1,2)] by blast
  then obtain n where "fs_out \<sigma> p src = take n (us_sent h src)"
    using assms(3) by (auto simp: fs_sim_def in_order_def)
  moreover have "us_sent h = fs_sent \<sigma>" using sim by (simp add: fs_sim_def in_step_def)
  ultimately show ?thesis by (simp add: take_is_prefix)
qed

text \<open>
  C10. FIFO order: what a process delivers from a source is a prefix of what the source
  broadcast, in the order of the broadcasts, without gaps, repetitions or foreign messages.
\<close>

theorem fifo_order:
  assumes "fs_reach 0 P hosts \<sigma>" and "urb_network P hosts" and "p \<in> P"
  shows "prefix (fs_out \<sigma> p src) (fs_sent \<sigma> src)"
  using assms by (rule fifo_prefix)

theorem fifo_order_witness: "prefix (fs_out fifo_demo4 2 1) (fs_sent fifo_demo4 1)"
  by (rule fifo_order [OF fifo_demo_reach(1) fifo_demo_network]) simp

text \<open>
  C11. Uniform agreement: once the processes of a majority have exchanged their copies of the
  messages of a source, each of them has delivered everything from that source that any process
  has delivered.
\<close>

theorem fifo_uniform_agreement:
  assumes "fs_reach 0 P hosts \<sigma>" and "urb_network P hosts" and "majority_of P C" and "d \<in> P" and "e \<in> C"
    and "\<forall>q r m. (q, r, m) \<in># fs_net \<sigma> \<longrightarrow> um_source m = src \<longrightarrow> \<not> (q \<in> C \<and> r \<in> C)"
  shows "prefix (fs_out \<sigma> d src) (fs_out \<sigma> e src)"
proof -
  obtain h where sim: "fs_sim P hosts \<sigma> h" using fs_reach_sim [OF assms(1,2)] by blast
  have inv: "us_inv P h" using us_reach_inv sim assms(2) by (auto simp: fs_sim_def)
  have stp: "in_step \<sigma> h" using sim by (simp add: fs_sim_def)
  show ?thesis
  proof (rule out_grows [OF sim assms(4)])
    show "e \<in> P" using assms(3,5) by (auto simp: majority_of_def)
    fix k assume rec: "received h d src k \<noteq> None"
    let ?x = "\<lparr>idf_peer = src, idf_urb_id = of_nat k :: MessageID\<rparr>"
    have "?x \<in> delivered_by h d" using rec by (auto simp: received_def split: if_splits)
    then have "?x \<in> delivered_by h e"
      using quiet_copies [OF stp assms(6), of ?x] by (intro majority_follows [OF inv assms(3,4) _ _ assms(5)]) auto
    then show "received h e src k \<noteq> None" using rec by (auto simp: received_def split: if_splits)
  qed
qed

theorem fifo_uniform_agreement_witness: "prefix (fs_out fifo_demo8 2 1) (fs_out fifo_demo8 1 1)"
proof (rule fifo_uniform_agreement [OF fifo_demo_reach(2) fifo_demo_network])
  show "majority_of {1, 2} {1, 2 :: PeerID}" by (simp add: majority_of_def)
  show "\<forall>q r m. (q, r, m) \<in># fs_net fifo_demo8 \<longrightarrow> um_source m = 1 \<longrightarrow> \<not> (q \<in> {1, 2} \<and> r \<in> {1, 2})"
    by (simp add: fifo_demo_outcome)
qed simp_all

text \<open>
  Validity: once a majority has exchanged its copies of the messages of one of its members,
  every process of the majority has delivered all broadcasts of that member.
\<close>

lemma fifo_validity:
  assumes "fs_reach 0 P hosts \<sigma>" and "urb_network P hosts" and "majority_of P C" and "src \<in> C" and "e \<in> C"
    and "\<forall>q r m. (q, r, m) \<in># fs_net \<sigma> \<longrightarrow> um_source m = src \<longrightarrow> \<not> (q \<in> C \<and> r \<in> C)"
  shows "fs_out \<sigma> e src = fs_sent \<sigma> src"
proof -
  obtain h where sim: "fs_sim P hosts \<sigma> h" using fs_reach_sim [OF assms(1,2)] by blast
  have inv: "us_inv P h" using us_reach_inv sim assms(2) by (auto simp: fs_sim_def)
  have stp: "in_step \<sigma> h" using sim by (simp add: fs_sim_def)
  have "e \<in> P" using assms(3,5) by (auto simp: majority_of_def)
  then obtain n where n: "source_ok (received h e src) n src (fs_nodes \<sigma> e)" "fs_out \<sigma> e src = take n (us_sent h src)"
    using sim by (auto simp: fs_sim_def in_order_def)
  have "length (us_sent h src) \<le> n"
  proof (rule ccontr)
    assume "\<not> length (us_sent h src) \<le> n"
    moreover have "length (us_sent h src) \<le> 4294967295" using inv by (simp add: us_inv_def)
    ultimately have small: "n < length (us_sent h src)" "n < 4294967296" by auto
    let ?x = "\<lparr>idf_peer = src, idf_urb_id = of_nat n :: MessageID\<rparr>"
    have "content h ?x \<noteq> None" using small by (simp add: content_def unat_of_nat_u32)
    then have "idf_peer ?x \<in> uh_joined h ?x"
      using inv unfolding us_inv_def inv_contents_def by blast
    then have "?x \<in> delivered_by h e"
      using quiet_copies [OF stp assms(6), of ?x] assms(4)
      by (intro majority_delivers [OF inv assms(3) _ _ _ assms(5)]) auto
    then show False using n(1) small by (simp add: source_ok_def received_eq [OF inv])
  qed
  then show ?thesis using n(2) stp by (simp add: in_step_def)
qed

lemma fifo_validity_witness: "fs_out fifo_demo8 2 1 = fs_sent fifo_demo8 1"
proof (rule fifo_validity [OF fifo_demo_reach(2) fifo_demo_network])
  show "majority_of {1, 2} {1, 2 :: PeerID}" by (simp add: majority_of_def)
  show "\<forall>q r m. (q, r, m) \<in># fs_net fifo_demo8 \<longrightarrow> um_source m = 1 \<longrightarrow> \<not> (q \<in> {1, 2} \<and> r \<in> {1, 2})"
    by (simp add: fifo_demo_outcome)
qed simp_all



end
