(* ===== verification/FIFO_Stack.thy ===== *)
theory FIFO_Stack
  imports Protocol_Stack FIFO_System
begin

text \<open>
  FIFO broadcast on the transport: the protocol of \<open>FIFO_System\<close> with its messages as bytes,
  on top of the transports of \<open>Reliable_System\<close>. A node carries the list of what its
  application broadcast so far.
\<close>

section \<open>The protocol on the wire\<close>

fun wire_effects :: "FIFOEffect list \<Rightarrow> ((PeerID \<times> Bytes) list \<times> (PeerID \<times> Bytes) list) option" where
  "wire_effects [] = Some ([], [])"
| "wire_effects (FSend q m # es) = do {
     b \<leftarrow> marshal_fresh URBMessage_Size URBMessage_MarshalExtract m;
     (sends, outs) \<leftarrow> wire_effects es;
     Some ((q, b) # sends, outs)
   }"
| "wire_effects (FFulfil c # es) = wire_effects es"
| "wire_effects (FDeliver s b # es) = do {
     (sends, outs) \<leftarrow> wire_effects es;
     Some (sends, (s, b) # outs)
   }"

definition fifo_invoke :: "PeerID set \<Rightarrow> PeerID \<Rightarrow> Bytes \<Rightarrow> FIFO \<times> Bytes list \<Rightarrow> (FIFO \<times> Bytes list, PeerID \<times> Bytes) reaction" where
  "fifo_invoke P p b n = (case n of (f, sent) \<Rightarrow>
     if p \<in> P \<and> length sent < 4294967295 then
       let (f, c, es) = FIFO_Broadcast b f
       in map_option (\<lambda>(sends, outs). ((f, sent @ [b]), sends, outs)) (wire_effects es)
     else None)"

definition fifo_handle :: "PeerID \<Rightarrow> PeerID \<Rightarrow> Bytes \<Rightarrow> FIFO \<times> Bytes list \<Rightarrow> (FIFO \<times> Bytes list, PeerID \<times> Bytes) reaction" where
  "fifo_handle d s bytes n = (case n of (f, sent) \<Rightarrow> do {
     m \<leftarrow> URBMessage_Unmarshal bytes;
     r \<leftarrow> FIFO_transport_callback 0 m f;
     case r of
       Inl e \<Rightarrow> None
     | Inr (f, es) \<Rightarrow> map_option (\<lambda>(sends, outs). ((f, sent), sends, outs)) (wire_effects es)
   })"

definition fifo_start :: "(PeerID \<Rightarrow> HostsTable) \<Rightarrow> PeerID \<Rightarrow> FIFO \<times> Bytes list" where
  "fifo_start hosts p = (FIFO_init (hosts p), [])"

text \<open>What process \<open>d\<close> was handed from \<open>src\<close>.\<close>

definition delivered_from :: "(PeerID \<times> PeerID \<times> Bytes) list \<Rightarrow> PeerID \<Rightarrow> PeerID \<Rightarrow> Bytes list" where
  "delivered_from L d src = map (snd \<circ> snd) (filter (\<lambda>(d', src', b). d' = d \<and> src' = src) L)"

section \<open>Serialisation is transparent\<close>

definition on_wire :: "PeerID \<times> PeerID \<times> URBMessage \<Rightarrow> PeerID \<times> PeerID \<times> Bytes" where
  "on_wire x = (case x of (s, d, m) \<Rightarrow> (s, d, URBMessage_image m))"

lemma urb_marshal: "marshal_fresh URBMessage_Size URBMessage_MarshalExtract m = Some (URBMessage_image m)"
  using urb_message.fresh_image [of m] by (simp add: URBMessage_MarshalExtract_eq)

lemma urb_unmarshal: "URBMessage_Unmarshal (URBMessage_image m) = Some m"
  using urb_message.fresh_roundtrip [of m] urb_marshal [of m] by (auto simp: URBMessage_MarshalExtract_eq)

lemma delivered_from_append [simp]: "delivered_from (L @ K) d src = delivered_from L d src @ delivered_from K d src"
  by (simp add: delivered_from_def)

lemma wire_effects_eq:
  "\<exists>outs. wire_effects es = Some (map (\<lambda>x. snd (on_wire x)) (fifo_sends p es), outs) \<and>
     (\<forall>d src. delivered_from (map (Pair p) outs) d src = (if d = p then deliveries_of src es else []))"
proof (induction es rule: wire_effects.induct)
  case (2 q m es)
  then show ?case by (auto simp: urb_marshal on_wire_def)
next
  case (3 c es)
  then show ?case by (simp only: wire_effects.simps fifo_sends.simps deliveries_of.simps)
next
  case (4 s b es)
  then obtain outs where o: "wire_effects es = Some (map (\<lambda>x. snd (on_wire x)) (fifo_sends p es), outs)"
    "\<forall>d src. delivered_from (map (Pair p) outs) d src = (if d = p then deliveries_of src es else [])" by blast
  have "delivered_from (map (Pair p) ((s, b) # outs)) d src = (if d = p then deliveries_of src (FDeliver s b # es) else [])" for d src
    using o(2) by (simp add: delivered_from_def)
  with o(1) show ?case by simp
qed (simp_all add: delivered_from_def)

lemma fifo_sends_source: "x \<in> set (fifo_sends p es) \<Longrightarrow> fst x = p"
  by (induction p es rule: fifo_sends.induct) auto

lemma sends_on_wire:
  "sent_by p (image_mset (\<lambda>x. snd (on_wire x)) (mset (fifo_sends p es))) = image_mset on_wire (mset (fifo_sends p es))"
proof -
  have "(p, snd (on_wire x)) = on_wire x" if "x \<in> set (fifo_sends p es)" for x
    using fifo_sends_source [OF that] by (cases x) (simp add: on_wire_def)
  then have "image_mset (\<lambda>x. (p, snd (on_wire x))) (mset (fifo_sends p es)) = image_mset on_wire (mset (fifo_sends p es))"
    by (intro image_mset_cong) simp
  then show ?thesis by (simp add: sent_by_def multiset.map_comp comp_def)
qed

section \<open>The transport carries FIFO broadcast\<close>

definition fifo_rel ::
    "(PeerID \<Rightarrow> FIFO \<times> Bytes list) \<Rightarrow> (PeerID \<times> PeerID \<times> Bytes) multiset \<Rightarrow> (PeerID \<times> PeerID \<times> Bytes) list \<Rightarrow> fifo_system \<Rightarrow> bool" where
  "fifo_rel N M L \<sigma> \<longleftrightarrow> N = (\<lambda>p. (fs_nodes \<sigma> p, fs_sent \<sigma> p)) \<and> M = image_mset on_wire (fs_net \<sigma>) \<and>
     (\<forall>d src. fs_out \<sigma> d src = delivered_from L d src)"

lemma fifo_rel_apply:
  assumes "fifo_rel N (image_mset on_wire K) L (\<sigma>\<lparr>fs_net := K\<rparr>)" and "wire_effects es = Some (sends, outs)"
  shows "fifo_rel (N(p := (f, fs_sent \<sigma> p))) (image_mset on_wire K + sent_by p (mset sends)) (L @ map (Pair p) outs)
    (fs_apply p f es (\<sigma>\<lparr>fs_net := K\<rparr>))"
proof -
  have sends: "sends = map (\<lambda>x. snd (on_wire x)) (fifo_sends p es)"
    and outs: "\<And>d src. delivered_from (map (Pair p) outs) d src = (if d = p then deliveries_of src es else [])"
    using wire_effects_eq [of es p] assms(2) by auto
  show ?thesis
    using assms(1) by (auto simp: fifo_rel_def fs_apply_def sends sends_on_wire outs fun_eq_iff)
qed

interpretation fifo_wire: wire_protocol "fifo_invoke P" fifo_handle "fifo_start hosts" "fs_reach 0 P hosts" fifo_rel
  for P hosts
proof
  show "\<exists>\<sigma>. fs_reach 0 P hosts \<sigma> \<and> fifo_rel (fifo_start hosts) {#} [] \<sigma>"
    by (intro exI [of _ "fs_init hosts"] conjI fs_reach.start)
      (simp add: fifo_rel_def fifo_start_def fs_init_def fun_eq_iff delivered_from_def)
next
  fix \<sigma> N M L p b n sends outs
  assume reach: "fs_reach 0 P hosts \<sigma>" and rel: "fifo_rel N M L \<sigma>" and inv: "fifo_invoke P p b (N p) = Some (n, sends, outs)"
  have np: "N p = (fs_nodes \<sigma> p, fs_sent \<sigma> p)" and M: "M = image_mset on_wire (fs_net \<sigma>)" using rel by (simp_all add: fifo_rel_def)
  obtain f c es where fb: "FIFO_Broadcast b (fs_nodes \<sigma> p) = (f, c, es)" by (cases "FIFO_Broadcast b (fs_nodes \<sigma> p)") auto
  have p: "p \<in> P" "length (fs_sent \<sigma> p) < 4294967295" and n: "n = (f, fs_sent \<sigma> p @ [b])" "wire_effects es = Some (sends, outs)"
    using inv by (auto simp: fifo_invoke_def np fb split: if_splits)
  let ?\<tau> = "(fs_apply p f es \<sigma>)\<lparr>fs_sent := (fs_sent \<sigma>)(p := fs_sent \<sigma> p @ [b])\<rparr>"
  have "fs_reach 0 P hosts ?\<tau>" by (rule fs_reach.step [OF reach fs_step.broadcast [OF p fb]])
  moreover have "fifo_rel (N(p := n)) (M + sent_by p (mset sends)) (L @ map (Pair p) outs) ?\<tau>"
    using fifo_rel_apply [of N "fs_net \<sigma>" L \<sigma> es sends outs p f] rel n
    by (auto simp: M fifo_rel_def fs_apply_def fun_eq_iff split: if_splits)
  ultimately show "\<exists>\<tau>. fs_reach 0 P hosts \<tau> \<and> fifo_rel (N(p := n)) (M + sent_by p (mset sends)) (L @ map (Pair p) outs) \<tau>"
    by blast
next
  fix \<sigma> N s d b M L n sends outs
  assume reach: "fs_reach 0 P hosts \<sigma>" and rel: "fifo_rel N (add_mset (s, d, b) M) L \<sigma>"
    and h: "fifo_handle d s b (N d) = Some (n, sends, outs)"
  have nd: "N d = (fs_nodes \<sigma> d, fs_sent \<sigma> d)" and net: "add_mset (s, d, b) M = image_mset on_wire (fs_net \<sigma>)"
    using rel by (simp_all add: fifo_rel_def)
  obtain x K where K: "fs_net \<sigma> = add_mset x K" "on_wire x = (s, d, b)" "M = image_mset on_wire K"
    using msed_map_invR [of on_wire "fs_net \<sigma>" "(s, d, b)" M] net by auto
  obtain m where x: "x = (s, d, m)" and b: "b = URBMessage_image m" using K(2) by (cases x) (auto simp: on_wire_def)
  obtain f es where cb: "FIFO_transport_callback 0 m (fs_nodes \<sigma> d) = Some (Inr (f, es))"
    and n: "n = (f, fs_sent \<sigma> d)" "wire_effects es = Some (sends, outs)"
    using h by (auto simp: fifo_handle_def nd b urb_unmarshal split: bind_splits sum.splits)
  let ?\<tau> = "fs_apply d f es (\<sigma>\<lparr>fs_net := fs_net \<sigma> - {#(s, d, m)#}\<rparr>)"
  have "fs_reach 0 P hosts ?\<tau>" by (rule fs_reach.step [OF reach fs_step.receive [OF _ cb]]) (simp add: K(1) x)
  moreover have "fifo_rel (N(d := n)) (M + sent_by d (mset sends)) (L @ map (Pair d) outs) ?\<tau>"
    using fifo_rel_apply [of N K L \<sigma> es sends outs d f] rel n K(1) x by (simp add: K(3) fifo_rel_def)
  ultimately show "\<exists>\<tau>. fs_reach 0 P hosts \<tau> \<and> fifo_rel (N(d := n)) (M + sent_by d (mset sends)) (L @ map (Pair d) outs) \<tau>"
    by blast
qed

section \<open>Example\<close>

text \<open>
  Process 1 broadcasts; its message reaches process 2 in a datagram; process 2 relays it, to
  itself too, and delivers it when it has heard of two processes.
\<close>

definition stack_demo_copy :: "Bytes \<Rightarrow> Bytes" where
  "stack_demo_copy b = URBMessage_image \<lparr>um_source = 1, um_urb_id = 0, um_message = b\<rparr>"

definition stack_demo_actions :: "Bytes \<Rightarrow> Bytes action list" where
  "stack_demo_actions b = [AInvoke 1 b, ASend 1 2 (stack_demo_copy b), AWrite 1 2,
     ARead 1 2 (Packet_image \<lparr>pkt_type = kPayloadMessage, pkt_id = 0, pkt_source = 1, pkt_message = stack_demo_copy b\<rparr>),
     ABatch 2, ACallback 2, ASend 2 2 (stack_demo_copy b), ABatch 2, ACallback 2]"

definition stack_demo :: "Bytes \<Rightarrow> (FIFO \<times> Bytes list, PeerID \<times> Bytes) stack" where
  "stack_demo b = act_run (fifo_invoke {1, 2}) fifo_handle (stack_demo_actions b)
     (stack_init (fifo_start rel_demo_hosts) rel_demo_nodes)"

lemmas stack_demo_defs = stack_demo_def stack_demo_actions_def stack_init_def fifo_start_def fifo_invoke_def fifo_handle_def
  urb_marshal urb_unmarshal stack_demo_copy_def react_def act_send_def act_batch_def Transport_Batch_def ProcessBatch_eq SendLocal_def
  act_run_def

lemma stack_demo_reach: "st_reach (fifo_invoke {1, 2}) fifo_handle (fifo_start rel_demo_hosts) (stack_demo b)"
  unfolding stack_demo_def by (intro act_run_reach st_reach.start rel_demo_started)

lemma stack_demo_network: "urb_network {1, 2} rel_demo_hosts"
  by (auto simp: urb_network_def rel_demo_hosts_def enumerates_def peers_eq)

lemma stack_demo_outcome: "st_log (stack_demo b) = [(2, 1, b)]" "snd (st_nodes (stack_demo b) 1) = [b]"
  by (simp_all add: stack_demo_defs rel_demo_defs fifo_demo_defs rel_demo_hosts_def)

text \<open>The rest of the copies: process 1 hears from itself and from process 2.\<close>

definition stack_demo_done :: "Bytes \<Rightarrow> (FIFO \<times> Bytes list, PeerID \<times> Bytes) stack" where
  "stack_demo_done b = act_run (fifo_invoke {1, 2}) fifo_handle
     [ASend 1 1 (stack_demo_copy b), ABatch 1, ACallback 1, ASend 2 1 (stack_demo_copy b), AWrite 2 1,
      ARead 2 1 (Packet_image \<lparr>pkt_type = kPayloadMessage, pkt_id = 1, pkt_source = 2, pkt_message = stack_demo_copy b\<rparr>),
      ABatch 1, ACallback 1] (stack_demo b)"

lemma stack_demo_done_reach: "st_reach (fifo_invoke {1, 2}) fifo_handle (fifo_start rel_demo_hosts) (stack_demo_done b)"
  unfolding stack_demo_done_def by (intro act_run_reach stack_demo_reach)

lemma stack_demo_done_outcome:
  "st_log (stack_demo_done b) = [(2, 1, b), (1, 1, b)]" "snd (st_nodes (stack_demo_done b) 1) = [b]"
  "st_sends (stack_demo_done b) p = {#}" "st_calls (stack_demo_done b) p = []"
  "rs_sent (st_rel (stack_demo_done b)) s d i \<noteq> None \<longleftrightarrow> s = 1 \<and> d = 2 \<and> i = 0 \<or> s = 2 \<and> d = 1 \<and> i = 1"
  "rs_delivered (st_rel (stack_demo_done b)) = [(2, 1, 0, stack_demo_copy b), (1, 2, 1, stack_demo_copy b)]"
  "rt_batch (rs_nodes (st_rel (stack_demo_done b)) p) = []"
  by (simp_all add: stack_demo_done_def stack_demo_defs rel_demo_defs fifo_demo_defs rel_demo_hosts_def started_batch [OF rel_demo_started])

lemma stack_demo_done_quiet: "st_net (stack_demo_done b) = {#}"
  by (rule st_net_quiet) (auto simp: stack_demo_done_outcome simp del: not_None_eq)

section \<open>Order from application to application\<close>

text \<open>FIFO order over the whole stack, from the application to the datagrams: however
  datagrams are lost, duplicated and reordered and however the processes interleave, what a
  process hands to its application from a source is a prefix of what the application of the
  source broadcast.\<close>

lemma fifo_stack_prefix:
  assumes "st_reach (fifo_invoke P) fifo_handle (fifo_start hosts) st" and "urb_network P hosts" and "d \<in> P"
  shows "prefix (delivered_from (st_log st) d src) (snd (st_nodes st src))"
proof -
  obtain \<sigma> where "fs_reach 0 P hosts \<sigma>" "fifo_rel (st_nodes st) (st_net st) (st_log st) \<sigma>"
    using fifo_wire.stack_follows [OF assms(1)] by blast
  then show ?thesis using fifo_prefix [OF _ assms(2,3), of \<sigma> src] by (auto simp: fifo_rel_def)
qed

lemma fifo_stack_prefix_witness:
  "prefix (delivered_from (st_log (stack_demo [65])) 2 1) (snd (st_nodes (stack_demo [65]) 1)) \<and>
   delivered_from (st_log (stack_demo [65])) 2 1 = [[65]]"
  using fifo_stack_prefix [OF stack_demo_reach [of "[65]"] stack_demo_network, of 2 1]
  by (simp add: stack_demo_outcome delivered_from_def)

end
