(* ===== verification/Set_Operation.thy ===== *)
theory Set_Operation
  imports Broadcast_Prelude
begin

text \<open>
  Sets represented by vectors (\<open>include/util/set_operation.hpp\<close>). The hash set of the
  left operand is built once, before the loop, and is not updated by it: an element that
  occurs twice in the right operand and not in the left one is appended twice.
\<close>

text \<open>The body of the loop over \<open>rhs_set\<close>.\<close>

primrec append_missing :: "'a set \<Rightarrow> 'a list \<Rightarrow> 'a list \<Rightarrow> 'a list" where
  "append_missing hashes lhs [] = lhs"
| "append_missing hashes lhs (item # rhs) =
     append_missing hashes (if item \<notin> hashes then lhs @ [item] else lhs) rhs"

definition VectorSetUnion :: "'a list \<Rightarrow> 'a list \<Rightarrow> 'a list" where
  "VectorSetUnion lhs_set rhs_set = append_missing (set lhs_set) lhs_set rhs_set"

primrec SetUnion_loop :: "'a set \<Rightarrow> 'a list \<Rightarrow> 'a set" where
  "SetUnion_loop lhs [] = lhs"
| "SetUnion_loop lhs (item # rhs) = SetUnion_loop (insert item lhs) rhs"

primrec all_in :: "'a set \<Rightarrow> 'a list \<Rightarrow> bool" where
  "all_in hashes [] = True"
| "all_in hashes (item # lhs) = (if item \<notin> hashes then False else all_in hashes lhs)"

definition VectorSetLessOrEquals :: "'a list \<Rightarrow> 'a list \<Rightarrow> bool" where
  "VectorSetLessOrEquals lhs_set rhs_set = all_in (set rhs_set) lhs_set"

text \<open>The elements of the left set in the order of its iterator.\<close>

definition SetLessOrEquals :: "'a list \<Rightarrow> 'a set \<Rightarrow> bool" where
  "SetLessOrEquals lhs_set rhs_set = all_in rhs_set lhs_set"

lemma append_missing_eq: "append_missing h lhs rhs = lhs @ filter (\<lambda>x. x \<notin> h) rhs"
  by (induction rhs arbitrary: lhs) auto

lemma VectorSetUnion_eq: "VectorSetUnion xs ys = xs @ filter (\<lambda>y. y \<notin> set xs) ys"
  by (simp add: VectorSetUnion_def append_missing_eq)

lemma set_VectorSetUnion [simp]: "set (VectorSetUnion xs ys) = set xs \<union> set ys"
  by (auto simp: VectorSetUnion_eq)

lemma distinct_VectorSetUnion [simp]:
  "distinct xs \<Longrightarrow> distinct ys \<Longrightarrow> distinct (VectorSetUnion xs ys)"
  by (auto simp: VectorSetUnion_eq)

lemma SetUnion_loop_eq: "SetUnion_loop a xs = a \<union> set xs"
  by (induction xs arbitrary: a) auto

lemma all_in_iff: "all_in h xs \<longleftrightarrow> set xs \<subseteq> h"
  by (induction xs) auto

lemma VectorSetLessOrEquals_iff [simp]: "VectorSetLessOrEquals xs ys \<longleftrightarrow> set xs \<subseteq> set ys"
  by (simp add: VectorSetLessOrEquals_def all_in_iff)

lemma SetLessOrEquals_iff: "SetLessOrEquals xs h \<longleftrightarrow> set xs \<subseteq> h"
  by (simp add: SetLessOrEquals_def all_in_iff)

text \<open>
  The size test of the acceptor: the union is as long as the proposal exactly when what was
  accepted before is contained in the proposal, provided neither vector repeats an element.
\<close>

lemma union_same_size_iff:
  assumes "distinct xs" and "distinct ys"
  shows "length (VectorSetUnion xs ys) = length ys \<longleftrightarrow> set xs \<subseteq> set ys"
proof
  assume "length (VectorSetUnion xs ys) = length ys"
  then have "set ys = set (VectorSetUnion xs ys)"
    using assms by (intro distinct_same_length_subset) auto
  then show "set xs \<subseteq> set ys" by auto
next
  assume "set xs \<subseteq> set ys"
  then have "set (VectorSetUnion xs ys) = set ys" by auto
  then show "length (VectorSetUnion xs ys) = length ys"
    using assms by (metis distinct_VectorSetUnion distinct_card)
qed

end
