(* ===== verification/Lattice_Messages.thy ===== *)
theory Lattice_Messages
  imports Payload
begin

text \<open>
  The messages of lattice agreement (\<open>include/primitives/lattice_agreement.hpp\<close>): the
  envelope \<open>LAMessage\<close>, batches of proposals, batches of answers and decisions, with
  their binary form. Each class is an instance of the locale \<open>serializable\<close>; the side
  conditions of the instances are the sizes that fit the length fields.
\<close>

type_synonym RoundID = u32
type_synonym ProposeValueT = u32
type_synonym ProposalT = "ProposeValueT list"
type_synonym LAMessageType = u8
type_synonym AcceptStatus = u8

definition kProposal :: LAMessageType where "kProposal = 0"
definition kAccept :: LAMessageType where "kAccept = 1"
definition kDecide :: LAMessageType where "kDecide = 2"

definition kAck :: AcceptStatus where "kAck = 0"
definition kNack :: AcceptStatus where "kNack = 1"

lemmas la_enum_defs = kProposal_def kAccept_def kDecide_def kAck_def kNack_def

section \<open>The envelope\<close>

record LAMessage =
  la_type :: LAMessageType
  la_message :: Bytes

definition LAMessage_HeaderSize :: nat where
  "LAMessage_HeaderSize = size_of TYPE(8)"

definition LAMessage_Size :: "LAMessage \<Rightarrow> nat" where
  "LAMessage_Size m = LAMessage_HeaderSize + length (la_message m)"

definition LAMessage_Marshal :: "LAMessage \<Rightarrow> Bytes \<Rightarrow> Bytes option" where
  "LAMessage_Marshal m bytes = do {
     check (length bytes \<ge> LAMessage_Size m);
     data \<leftarrow> BinaryMarshalPrimitiveType (la_type m) ([], bytes);
     data \<leftarrow> copy_bytes (la_message m) data;
     Some (buffer_of data)
   }"

definition LAMessage_MarshalExtract :: "LAMessage \<Rightarrow> Bytes \<Rightarrow> Bytes option" where
  "LAMessage_MarshalExtract m bytes = do {
     check (length bytes \<ge> LAMessage_Size m);
     data \<leftarrow> BinaryMarshalPrimitiveType (la_type m) ([], bytes);
     data \<leftarrow> copy_bytes (la_message m) data;
     Some (buffer_of data)
   }"

definition LAMessage_Unmarshal :: "Bytes \<Rightarrow> LAMessage option" where
  "LAMessage_Unmarshal bytes = do {
     check (length bytes \<ge> LAMessage_HeaderSize);
     t \<leftarrow> BinaryUnmarshalPrimitiveType bytes;
     Some \<lparr>la_type = t, la_message = drop LAMessage_HeaderSize bytes\<rparr>
   }"

definition LAMessage_image :: "LAMessage \<Rightarrow> Bytes" where
  "LAMessage_image m = object_bytes (la_type m) @ la_message m"

lemma LAMessage_MarshalExtract_eq: "LAMessage_MarshalExtract = LAMessage_Marshal"
  by (intro ext) (simp only: LAMessage_MarshalExtract_def LAMessage_Marshal_def)

interpretation la_envelope: serializable LAMessage_Size LAMessage_Marshal LAMessage_Unmarshal
  LAMessage_image "\<lambda>_. True"
  by unfold_locales
    (simp_all add: LAMessage_Marshal_def LAMessage_Unmarshal_def LAMessage_image_def
      LAMessage_Size_def LAMessage_HeaderSize_def buffer_of_def wire)

section \<open>Batches of proposals\<close>

record Proposal =
  proposed_value :: ProposalT
  active_proposal_number :: u32

record ProposalMessage =
  pm_first_round_id :: RoundID
  proposals :: "Proposal list"

definition ProposalMessage_HeaderSize :: nat where
  "ProposalMessage_HeaderSize = size_of TYPE(32) + size_of TYPE(8)"

definition ProposalMessage_Size :: "ProposalMessage \<Rightarrow> nat" where
  "ProposalMessage_Size m = ProposalMessage_HeaderSize +
     (\<Sum>p\<leftarrow>proposals m. size_of TYPE(32) + size_of TYPE(32) * length (proposed_value p) + size_of TYPE(32))"

primrec marshal_proposals :: "Proposal list \<Rightarrow> cursor \<Rightarrow> cursor option" where
  "marshal_proposals [] data = Some data"
| "marshal_proposals (p # ps) data = do {
     let num_elements = (of_nat (length (proposed_value p)) :: u32);
     data \<leftarrow> BinaryMarshalPrimitiveType num_elements data;
     let proposal_buffer = proposed_value p;
     data \<leftarrow> BinaryMarshalArrayType proposal_buffer (length proposal_buffer) data;
     data \<leftarrow> BinaryMarshalPrimitiveType (active_proposal_number p) data;
     marshal_proposals ps data
   }"

definition ProposalMessage_Marshal :: "ProposalMessage \<Rightarrow> Bytes \<Rightarrow> Bytes option" where
  "ProposalMessage_Marshal m bytes = do {
     check (length bytes \<ge> ProposalMessage_Size m);
     data \<leftarrow> BinaryMarshalPrimitiveType (pm_first_round_id m) ([], bytes);
     let num_proposals = (of_nat (length (proposals m)) :: u8);
     data \<leftarrow> BinaryMarshalPrimitiveType num_proposals data;
     data \<leftarrow> marshal_proposals (proposals m) data;
     Some (buffer_of data)
   }"

primrec unmarshal_proposals :: "nat \<Rightarrow> Bytes \<Rightarrow> Proposal list option" where
  "unmarshal_proposals 0 data = Some []"
| "unmarshal_proposals (Suc n) data = do {
     num_elements \<leftarrow> (BinaryUnmarshalPrimitiveType data :: u32 option);
     let data = drop (size_of TYPE(32)) data;
     v \<leftarrow> BinaryUnmarshalArrayType (unat num_elements) data;
     let data = drop (size_of TYPE(32) * unat num_elements) data;
     k \<leftarrow> BinaryUnmarshalPrimitiveType data;
     let data = drop (size_of TYPE(32)) data;
     ps \<leftarrow> unmarshal_proposals n data;
     Some (\<lparr>proposed_value = v, active_proposal_number = k\<rparr> # ps)
   }"

definition ProposalMessage_Unmarshal :: "Bytes \<Rightarrow> ProposalMessage option" where
  "ProposalMessage_Unmarshal bytes = do {
     check (length bytes \<ge> ProposalMessage_HeaderSize);
     r \<leftarrow> BinaryUnmarshalPrimitiveType bytes;
     let data = drop (size_of TYPE(32)) bytes;
     num_proposals \<leftarrow> (BinaryUnmarshalPrimitiveType data :: u8 option);
     let data = drop (size_of TYPE(8)) data;
     ps \<leftarrow> unmarshal_proposals (unat num_proposals) data;
     Some \<lparr>pm_first_round_id = r, proposals = ps\<rparr>
   }"

definition Proposal_image :: "Proposal \<Rightarrow> Bytes" where
  "Proposal_image p = object_bytes (of_nat (length (proposed_value p)) :: u32) @
     array_bytes (proposed_value p) @ object_bytes (active_proposal_number p)"

definition ProposalMessage_image :: "ProposalMessage \<Rightarrow> Bytes" where
  "ProposalMessage_image m = object_bytes (pm_first_round_id m) @
     object_bytes (of_nat (length (proposals m)) :: u8) @ concat (map Proposal_image (proposals m))"

definition Proposal_fits :: "Proposal \<Rightarrow> bool" where
  "Proposal_fits p \<longleftrightarrow> length (proposed_value p) < 4294967296"

definition ProposalMessage_fits :: "ProposalMessage \<Rightarrow> bool" where
  "ProposalMessage_fits m \<longleftrightarrow> length (proposals m) < 256 \<and> list_all Proposal_fits (proposals m)"

lemma length_Proposal_image [simp]:
  "length (Proposal_image p) = 8 + 4 * length (proposed_value p)"
  by (simp add: Proposal_image_def)

lemma length_proposal_images:
  "length (concat (map Proposal_image ps)) = (\<Sum>p\<leftarrow>ps. 8 + 4 * length (proposed_value p))"
  by (induction ps) auto

lemma marshal_proposals_image:
  "length (concat (map Proposal_image ps)) \<le> length r \<Longrightarrow>
     marshal_proposals ps (d, r) =
       Some (d @ concat (map Proposal_image ps), drop (length (concat (map Proposal_image ps))) r)"
proof (induction ps arbitrary: d r)
  case Nil
  then show ?case by simp
next
  case (Cons p ps)
  let ?r = "drop (8 + 4 * length (proposed_value p)) r"
  have "length (concat (map Proposal_image ps)) \<le> length ?r"
    using Cons.prems by simp
  from Cons.IH [OF this, of "d @ Proposal_image p"] Cons.prems show ?case
    by (auto simp: Let_def wire Proposal_image_def [of p] mult.commute [of _ 4] add.commute add.left_commute)
qed

lemma unmarshal_proposals_image:
  "list_all Proposal_fits ps \<Longrightarrow>
     unmarshal_proposals (length ps) (concat (map Proposal_image ps) @ r) = Some ps"
  by (induction ps)
    (simp_all add: wire Proposal_image_def Proposal_fits_def unat_of_nat_u32)

interpretation proposal_message: serializable ProposalMessage_Size ProposalMessage_Marshal
  ProposalMessage_Unmarshal ProposalMessage_image ProposalMessage_fits
proof unfold_locales
  fix m :: ProposalMessage and buf :: Bytes
  assume "length buf = ProposalMessage_Size m"
  then show "ProposalMessage_Marshal m buf =
      Some (ProposalMessage_image m @ drop (length (ProposalMessage_image m)) buf)"
    by (simp add: ProposalMessage_Marshal_def ProposalMessage_image_def ProposalMessage_Size_def
        ProposalMessage_HeaderSize_def wire buffer_of_def marshal_proposals_image
        length_proposal_images add.commute)
next
  fix m :: ProposalMessage
  show "length (ProposalMessage_image m) \<le> ProposalMessage_Size m"
    by (simp add: ProposalMessage_image_def ProposalMessage_Size_def ProposalMessage_HeaderSize_def
        length_proposal_images add.commute)
next
  fix m :: ProposalMessage and r :: Bytes
  assume "ProposalMessage_fits m"
  then show "ProposalMessage_Unmarshal (ProposalMessage_image m @ r) = Some m"
    by (simp add: ProposalMessage_Unmarshal_def ProposalMessage_image_def ProposalMessage_fits_def
        ProposalMessage_HeaderSize_def wire unmarshal_proposals_image unat_of_nat_u8)
qed

section \<open>Batches of answers\<close>

record Accept =
  acc_status :: AcceptStatus
  acc_proposal_number :: u32
  acc_accepted_value :: ProposalT

record AcceptMessage =
  am_first_round_id :: RoundID
  accepts :: "Accept list"

definition AcceptMessage_HeaderSize :: nat where
  "AcceptMessage_HeaderSize = size_of TYPE(32) + size_of TYPE(8)"

definition AcceptMessage_Size :: "AcceptMessage \<Rightarrow> nat" where
  "AcceptMessage_Size m = AcceptMessage_HeaderSize +
     (\<Sum>a\<leftarrow>accepts m. size_of TYPE(8) + size_of TYPE(32) +
        (if acc_status a = kNack
         then size_of TYPE(32) + size_of TYPE(32) * length (acc_accepted_value a) else 0))"

primrec marshal_accepts :: "Accept list \<Rightarrow> cursor \<Rightarrow> cursor option" where
  "marshal_accepts [] data = Some data"
| "marshal_accepts (a # rest) data = do {
     data \<leftarrow> BinaryMarshalPrimitiveType (acc_status a) data;
     data \<leftarrow> BinaryMarshalPrimitiveType (acc_proposal_number a) data;
     data \<leftarrow> (if acc_status a = kNack then do {
         let accepted_value_size = (of_nat (length (acc_accepted_value a)) :: u32);
         data \<leftarrow> BinaryMarshalPrimitiveType accepted_value_size data;
         BinaryMarshalArrayType (acc_accepted_value a) (unat accepted_value_size) data
       } else Some data);
     marshal_accepts rest data
   }"

definition AcceptMessage_Marshal :: "AcceptMessage \<Rightarrow> Bytes \<Rightarrow> Bytes option" where
  "AcceptMessage_Marshal m bytes = do {
     check (length bytes \<ge> AcceptMessage_Size m);
     data \<leftarrow> BinaryMarshalPrimitiveType (am_first_round_id m) ([], bytes);
     let num_accepts = (of_nat (length (accepts m)) :: u8);
     data \<leftarrow> BinaryMarshalPrimitiveType num_accepts data;
     data \<leftarrow> marshal_accepts (accepts m) data;
     Some (buffer_of data)
   }"

primrec unmarshal_accepts :: "nat \<Rightarrow> Bytes \<Rightarrow> Accept list option" where
  "unmarshal_accepts 0 data = Some []"
| "unmarshal_accepts (Suc n) data = do {
     s \<leftarrow> (BinaryUnmarshalPrimitiveType data :: AcceptStatus option);
     let data = drop (size_of TYPE(8)) data;
     k \<leftarrow> BinaryUnmarshalPrimitiveType data;
     let data = drop (size_of TYPE(32)) data;
     (v, data) \<leftarrow> (if s = kNack then do {
         accepted_value_size \<leftarrow> (BinaryUnmarshalPrimitiveType data :: u32 option);
         let data = drop (size_of TYPE(32)) data;
         v \<leftarrow> BinaryUnmarshalArrayType (unat accepted_value_size) data;
         Some (v, drop (size_of TYPE(32) * unat accepted_value_size) data)
       } else Some ([], data));
     rest \<leftarrow> unmarshal_accepts n data;
     Some (\<lparr>acc_status = s, acc_proposal_number = k, acc_accepted_value = v\<rparr> # rest)
   }"

definition AcceptMessage_Unmarshal :: "Bytes \<Rightarrow> AcceptMessage option" where
  "AcceptMessage_Unmarshal bytes = do {
     check (length bytes \<ge> AcceptMessage_HeaderSize);
     r \<leftarrow> BinaryUnmarshalPrimitiveType bytes;
     let data = drop (size_of TYPE(32)) bytes;
     num_accepts \<leftarrow> (BinaryUnmarshalPrimitiveType data :: u8 option);
     let data = drop (size_of TYPE(8)) data;
     rest \<leftarrow> unmarshal_accepts (unat num_accepts) data;
     Some \<lparr>am_first_round_id = r, accepts = rest\<rparr>
   }"

definition Accept_image :: "Accept \<Rightarrow> Bytes" where
  "Accept_image a = object_bytes (acc_status a) @ object_bytes (acc_proposal_number a) @
     (if acc_status a = kNack
      then object_bytes (of_nat (length (acc_accepted_value a)) :: u32) @ array_bytes (acc_accepted_value a)
      else [])"

definition AcceptMessage_image :: "AcceptMessage \<Rightarrow> Bytes" where
  "AcceptMessage_image m = object_bytes (am_first_round_id m) @
     object_bytes (of_nat (length (accepts m)) :: u8) @ concat (map Accept_image (accepts m))"

text \<open>An answer other than a rejection carries no value: the field stays the empty vector.\<close>

definition Accept_fits :: "Accept \<Rightarrow> bool" where
  "Accept_fits a \<longleftrightarrow> length (acc_accepted_value a) < 4294967296 \<and>
     (acc_status a \<noteq> kNack \<longrightarrow> acc_accepted_value a = [])"

definition AcceptMessage_fits :: "AcceptMessage \<Rightarrow> bool" where
  "AcceptMessage_fits m \<longleftrightarrow> length (accepts m) < 256 \<and> list_all Accept_fits (accepts m)"

lemma length_Accept_image [simp]:
  "length (Accept_image a) =
     5 + (if acc_status a = kNack then 4 + 4 * length (acc_accepted_value a) else 0)"
  by (simp add: Accept_image_def)

lemma length_accept_images:
  "length (concat (map Accept_image as)) =
     (\<Sum>a\<leftarrow>as. 5 + (if acc_status a = kNack then 4 + 4 * length (acc_accepted_value a) else 0))"
  by (induction as) auto

lemma marshal_accepts_image:
  "list_all Accept_fits as \<Longrightarrow> length (concat (map Accept_image as)) \<le> length r \<Longrightarrow>
     marshal_accepts as (d, r) =
       Some (d @ concat (map Accept_image as), drop (length (concat (map Accept_image as))) r)"
proof (induction as arbitrary: d r)
  case Nil
  then show ?case by simp
next
  case (Cons a as)
  let ?r = "drop (length (Accept_image a)) r"
  have "length (concat (map Accept_image as)) \<le> length ?r"
    using Cons.prems by simp
  from Cons.IH [OF _ this, of "d @ Accept_image a"] Cons.prems show ?case
    by (cases "acc_status a = kNack")
      (auto simp: Let_def wire Accept_image_def [of a] Accept_fits_def unat_of_nat_u32
        mult.commute [of _ 4] add.commute add.left_commute)
qed

lemma unmarshal_accepts_image:
  "list_all Accept_fits as \<Longrightarrow>
     unmarshal_accepts (length as) (concat (map Accept_image as) @ r) = Some as"
proof (induction as)
  case Nil
  then show ?case by simp
next
  case (Cons a as)
  then show ?case
    by (cases "acc_status a = kNack")
      (simp_all add: wire Accept_image_def Accept_fits_def unat_of_nat_u32)
qed

interpretation accept_message: serializable AcceptMessage_Size AcceptMessage_Marshal
  AcceptMessage_Unmarshal AcceptMessage_image AcceptMessage_fits
proof unfold_locales
  fix m :: AcceptMessage and buf :: Bytes
  assume "AcceptMessage_fits m" "length buf = AcceptMessage_Size m"
  then show "AcceptMessage_Marshal m buf =
      Some (AcceptMessage_image m @ drop (length (AcceptMessage_image m)) buf)"
    by (simp add: AcceptMessage_Marshal_def AcceptMessage_image_def AcceptMessage_Size_def
        AcceptMessage_HeaderSize_def wire buffer_of_def marshal_accepts_image
        length_accept_images AcceptMessage_fits_def add.commute cong: if_cong)
next
  fix m :: AcceptMessage
  show "length (AcceptMessage_image m) \<le> AcceptMessage_Size m"
    by (simp add: AcceptMessage_image_def AcceptMessage_Size_def AcceptMessage_HeaderSize_def
        length_accept_images add.commute cong: if_cong)
next
  fix m :: AcceptMessage and r :: Bytes
  assume "AcceptMessage_fits m"
  then show "AcceptMessage_Unmarshal (AcceptMessage_image m @ r) = Some m"
    by (simp add: AcceptMessage_Unmarshal_def AcceptMessage_image_def AcceptMessage_fits_def
        AcceptMessage_HeaderSize_def wire unmarshal_accepts_image unat_of_nat_u8)
qed

section \<open>Decisions\<close>

record DecideMessage =
  dm_round_id :: RoundID

definition DecideMessage_HeaderSize :: nat where
  "DecideMessage_HeaderSize = size_of TYPE(32)"

definition DecideMessage_Size :: "DecideMessage \<Rightarrow> nat" where
  "DecideMessage_Size m = DecideMessage_HeaderSize"

definition DecideMessage_Marshal :: "DecideMessage \<Rightarrow> Bytes \<Rightarrow> Bytes option" where
  "DecideMessage_Marshal m bytes = do {
     check (length bytes \<ge> DecideMessage_Size m);
     data \<leftarrow> BinaryMarshalPrimitiveType (dm_round_id m) ([], bytes);
     Some (buffer_of data)
   }"

definition DecideMessage_Unmarshal :: "Bytes \<Rightarrow> DecideMessage option" where
  "DecideMessage_Unmarshal bytes = do {
     check (length bytes \<ge> DecideMessage_HeaderSize);
     r \<leftarrow> BinaryUnmarshalPrimitiveType bytes;
     Some \<lparr>dm_round_id = r\<rparr>
   }"

interpretation decide_message: serializable DecideMessage_Size DecideMessage_Marshal
  DecideMessage_Unmarshal "\<lambda>m. object_bytes (dm_round_id m)" "\<lambda>_. True"
  by unfold_locales
    (simp_all add: DecideMessage_Marshal_def DecideMessage_Unmarshal_def DecideMessage_Size_def
      DecideMessage_HeaderSize_def buffer_of_def wire)

end
