(* ===== verification/Lattice_Agreement.thy ===== *)
theory Lattice_Agreement
  imports Hosts Set_Operation Lattice_Messages
begin

text \<open>
  Lattice agreement at one process (\<open>include/primitives/lattice_agreement.hpp\<close>, class
  \<open>LatticeAgreement\<close>): the per-round state, \<open>Propose\<close>, the handlers of incoming
  messages and their composition in the transport callback. A handler returns the new
  state and the list of its effects in the order of the code: messages handed to the
  transport, promises fulfilled and calls of the decision callback. The handlers work on
  decoded messages; \<open>encode_effects\<close> and \<open>LatticeAgreement_callback\<close> add the
  serialisation around them. Logging and the counters of \<open>Statistics\<close> are left out.
\<close>

section \<open>State\<close>

text \<open>
  A contract is the shared state of a future and its promise, named by the order of its
  allocation. A promise or future holds a pointer to it, \<open>None\<close> once it was moved away.
\<close>

type_synonym contract = nat

record RoundState =
  rs_active_proposal_number :: u32
  rs_acks :: u32
  rs_nacks :: u32
  rs_decisions :: u32
  rs_proposed_value :: ProposalT
  rs_accepted_value :: ProposalT
  rs_completed :: bool
  rs_promise :: "contract option"
  rs_preliminary_future :: "contract option option"

definition RoundState_init :: "ProposalT \<Rightarrow> contract option \<Rightarrow> RoundState" where
  "RoundState_init v p =
     \<lparr>rs_active_proposal_number = 0, rs_acks = 0, rs_nacks = 0, rs_decisions = 0,
      rs_proposed_value = v, rs_accepted_value = [], rs_completed = False, rs_promise = p,
      rs_preliminary_future = None\<rparr>"

record LatticeAgreement =
  la_hosts :: HostsTable
  la_localID :: PeerID
  la_network_size :: nat
  la_round_states :: "RoundState list"
  la_next_contract :: contract

definition LatticeAgreement_init :: "HostsTable \<Rightarrow> LatticeAgreement" where
  "LatticeAgreement_init hosts =
     \<lparr>la_hosts = hosts, la_localID = LocalID hosts, la_network_size = GetNetworkSize hosts True,
      la_round_states = [], la_next_contract = 0\<rparr>"

datatype LAPayload =
    ProposalPayload ProposalMessage
  | AcceptPayload AcceptMessage
  | DecidePayload DecideMessage

datatype 'm LAEffect =
    LASend PeerID 'm
  | LAFulfil contract
  | LACallback RoundID ProposalT

section \<open>Round states\<close>

text \<open>\<open>MakeContract\<close> allocates a shared state; both ends point to it.\<close>

definition MakeContract :: "LatticeAgreement \<Rightarrow> LatticeAgreement \<times> contract" where
  "MakeContract la = (la\<lparr>la_next_contract := Suc (la_next_contract la)\<rparr>, la_next_contract la)"

definition emplace_round :: "RoundState \<Rightarrow> LatticeAgreement \<Rightarrow> LatticeAgreement" where
  "emplace_round s la = la\<lparr>la_round_states := la_round_states la @ [s]\<rparr>"

function InitializeEmptyRoundStates :: "RoundID \<Rightarrow> LatticeAgreement \<Rightarrow> LatticeAgreement" where
  "InitializeEmptyRoundStates round la =
     (if unat round \<ge> length (la_round_states la) then
        let (la, p) = MakeContract la in
        InitializeEmptyRoundStates round
          (emplace_round ((RoundState_init [] (Some p))\<lparr>rs_preliminary_future := Some (Some p)\<rparr>) la)
      else la)"
  by pat_completeness auto
termination
  by (relation "measure (\<lambda>(round, la). Suc (unat round) - length (la_round_states la))")
    (auto simp: MakeContract_def emplace_round_def)

declare InitializeEmptyRoundStates.simps [simp del]

definition GetRoundState :: "RoundID \<Rightarrow> LatticeAgreement \<Rightarrow> LatticeAgreement" where
  "GetRoundState round la =
     (if unat round \<ge> length (la_round_states la) then InitializeEmptyRoundStates round la else la)"

definition round_state :: "RoundID \<Rightarrow> LatticeAgreement \<Rightarrow> RoundState" where
  "round_state round la = la_round_states la ! unat round"

definition set_round_state :: "RoundID \<Rightarrow> RoundState \<Rightarrow> LatticeAgreement \<Rightarrow> LatticeAgreement" where
  "set_round_state round s la = la\<lparr>la_round_states := (la_round_states la)[unat round := s]\<rparr>"

definition InitializeNextRoundState ::
    "RoundID \<Rightarrow> ProposalT \<Rightarrow> LatticeAgreement \<Rightarrow> fault + (LatticeAgreement \<times> contract option)" where
  "InitializeNextRoundState round proposal la =
     (if unat round < length (la_round_states la) then
        let state = (round_state round la)\<lparr>rs_proposed_value := proposal\<rparr> in
        (case rs_preliminary_future state of
           None \<Rightarrow> Inl AssertFailed
         | Some f \<Rightarrow> Inr (set_round_state round (state\<lparr>rs_preliminary_future := Some None\<rparr>) la, f))
      else if unat round \<noteq> length (la_round_states la) then Inl AssertFailed
      else let (la, p) = MakeContract la in
        Inr (emplace_round (RoundState_init proposal (Some p)) la, Some p))"

section \<open>Sending\<close>

definition BestEffortBroadcast :: "LatticeAgreement \<Rightarrow> 'm \<Rightarrow> 'm LAEffect list" where
  "BestEffortBroadcast la message =
     map (\<lambda>peer. LASend peer message) (GetPeers (la_hosts la)) @
     [LASend (LocalID (la_hosts la)) message]"

definition Majority :: "LatticeAgreement \<Rightarrow> nat" where
  "Majority la = la_network_size la div 2 + 1"

section \<open>Proposing\<close>

fun Propose_rounds :: "RoundID \<Rightarrow> Proposal list \<Rightarrow> LatticeAgreement \<Rightarrow>
    fault + (LatticeAgreement \<times> contract option list)" where
  "Propose_rounds current_round_id [] la = Inr (la, [])"
| "Propose_rounds current_round_id (proposal # ps) la =
     fbind (InitializeNextRoundState current_round_id (proposed_value proposal) la) (\<lambda>(la, f).
     fbind (Propose_rounds (current_round_id + 1) ps la) (\<lambda>(la, fs). Inr (la, f # fs)))"

definition Propose :: "ProposalMessage \<Rightarrow> LatticeAgreement \<Rightarrow>
    fault + (LatticeAgreement \<times> contract option list \<times> LAPayload LAEffect list)" where
  "Propose proposal_message la =
     fbind (Propose_rounds (pm_first_round_id proposal_message) (proposals proposal_message) la)
       (\<lambda>(la, futures). Inr (la, futures, BestEffortBroadcast la (ProposalPayload proposal_message)))"

section \<open>Acceptor\<close>

definition HandlePropose :: "RoundID \<Rightarrow> Proposal \<Rightarrow> LatticeAgreement \<Rightarrow> LatticeAgreement \<times> Accept" where
  "HandlePropose round proposal la =
     (let la = GetRoundState round la;
          state = round_state round la;
          state = state\<lparr>rs_accepted_value :=
                    VectorSetUnion (rs_accepted_value state) (proposed_value proposal)\<rparr>
      in if length (rs_accepted_value state) = length (proposed_value proposal) then
           (set_round_state round (state\<lparr>rs_accepted_value := proposed_value proposal\<rparr>) la,
            \<lparr>acc_status = kAck, acc_proposal_number = active_proposal_number proposal,
             acc_accepted_value = []\<rparr>)
         else
           (set_round_state round state la,
            \<lparr>acc_status = kNack, acc_proposal_number = active_proposal_number proposal,
             acc_accepted_value = rs_accepted_value state\<rparr>))"

fun HandleProposals :: "RoundID \<Rightarrow> Proposal list \<Rightarrow> LatticeAgreement \<Rightarrow> LatticeAgreement \<times> Accept list" where
  "HandleProposals current_round_id [] la = (la, [])"
| "HandleProposals current_round_id (proposal # ps) la =
     (let (la, accept) = HandlePropose current_round_id proposal la;
          (la, rest) = HandleProposals (current_round_id + 1) ps la
      in (la, accept # rest))"

definition HandleProposalMessage ::
    "PeerID \<Rightarrow> ProposalMessage \<Rightarrow> LatticeAgreement \<Rightarrow> LatticeAgreement \<times> LAPayload LAEffect list" where
  "HandleProposalMessage src message la =
     (let (la, answers) = HandleProposals (pm_first_round_id message) (proposals message) la
      in (la, [LASend src (AcceptPayload \<lparr>am_first_round_id = pm_first_round_id message,
                                           accepts = answers\<rparr>)]))"

section \<open>Proposer\<close>

definition Decide :: "RoundID \<Rightarrow> LatticeAgreement \<Rightarrow> LatticeAgreement \<times> LAPayload LAEffect list" where
  "Decide round la =
     (let state = round_state round la in
      (set_round_state round (state\<lparr>rs_completed := True, rs_promise := None\<rparr>) la,
       (case rs_promise state of Some c \<Rightarrow> [LAFulfil c] | None \<Rightarrow> []) @
       [LACallback round (rs_proposed_value state)]))"

definition MoveToNextProposalNumber ::
    "RoundID \<Rightarrow> LatticeAgreement \<Rightarrow> LatticeAgreement \<times> LAPayload LAEffect list" where
  "MoveToNextProposalNumber round la =
     (let state = round_state round la;
          state = state\<lparr>rs_active_proposal_number := rs_active_proposal_number state + 1,
                        rs_acks := 0, rs_nacks := 0\<rparr>;
          proposal = \<lparr>proposed_value = rs_proposed_value state,
                      active_proposal_number = rs_active_proposal_number state\<rparr>
      in (set_round_state round state la,
          BestEffortBroadcast la
            (ProposalPayload \<lparr>pm_first_round_id = round, proposals = [proposal]\<rparr>)))"

definition CheckAckNackConditions ::
    "RoundID \<Rightarrow> LatticeAgreement \<Rightarrow> LatticeAgreement \<times> LAPayload LAEffect list" where
  "CheckAckNackConditions round la =
     (let state = round_state round la; majority = Majority la in
      if unat (rs_acks state) \<ge> majority then Decide round la
      else if rs_nacks state > 0 \<and> unat (rs_acks state + rs_nacks state) \<ge> majority
        then MoveToNextProposalNumber round la
      else (la, []))"

definition HandleAck ::
    "RoundID \<Rightarrow> Accept \<Rightarrow> LatticeAgreement \<Rightarrow> LatticeAgreement \<times> LAPayload LAEffect list" where
  "HandleAck round accept la =
     (let la = GetRoundState round la; state = round_state round la in
      if rs_completed state then (la, [])
      else if rs_active_proposal_number state = acc_proposal_number accept then
        CheckAckNackConditions round
          (set_round_state round (state\<lparr>rs_acks := rs_acks state + 1\<rparr>) la)
      else (la, []))"

definition HandleNack ::
    "RoundID \<Rightarrow> Accept \<Rightarrow> LatticeAgreement \<Rightarrow> LatticeAgreement \<times> LAPayload LAEffect list" where
  "HandleNack round accept la =
     (let la = GetRoundState round la; state = round_state round la in
      if rs_completed state then (la, [])
      else if rs_active_proposal_number state = acc_proposal_number accept then
        CheckAckNackConditions round
          (set_round_state round
            (state\<lparr>rs_nacks := rs_nacks state + 1,
                   rs_proposed_value :=
                     VectorSetUnion (rs_proposed_value state) (acc_accepted_value accept)\<rparr>) la)
      else (la, []))"

text \<open>One iteration of the loop: the \<open>switch\<close> on the status, \<open>default: break\<close> included.\<close>

definition HandleAccept ::
    "RoundID \<Rightarrow> Accept \<Rightarrow> LatticeAgreement \<Rightarrow> LatticeAgreement \<times> LAPayload LAEffect list" where
  "HandleAccept round accept la =
     (if acc_status accept = kAck then HandleAck round accept la
      else if acc_status accept = kNack then HandleNack round accept la
      else (la, []))"

fun HandleAccepts ::
    "RoundID \<Rightarrow> Accept list \<Rightarrow> LatticeAgreement \<Rightarrow> LatticeAgreement \<times> LAPayload LAEffect list" where
  "HandleAccepts current_round_id [] la = (la, [])"
| "HandleAccepts current_round_id (accept # rest) la =
     (let (la, es) = HandleAccept current_round_id accept la;
          (la, es') = HandleAccepts (current_round_id + 1) rest la
      in (la, es @ es'))"

definition HandleAcceptMessage ::
    "PeerID \<Rightarrow> AcceptMessage \<Rightarrow> LatticeAgreement \<Rightarrow> LatticeAgreement \<times> LAPayload LAEffect list" where
  "HandleAcceptMessage src message la = HandleAccepts (am_first_round_id message) (accepts message) la"

text \<open>Not called by the transport callback, which decodes a decision and drops it.\<close>

definition HandleDecideMessage :: "DecideMessage \<Rightarrow> LatticeAgreement \<Rightarrow> LatticeAgreement" where
  "HandleDecideMessage message la =
     (let round = dm_round_id message;
          la = GetRoundState round la;
          state = round_state round la;
          state = state\<lparr>rs_decisions := rs_decisions state + 1\<rparr>
      in set_round_state round
           (if unat (rs_decisions state) = la_network_size la
            then state\<lparr>rs_proposed_value := [], rs_accepted_value := []\<rparr> else state) la)"

definition HandlePayload ::
    "PeerID \<Rightarrow> LAPayload \<Rightarrow> LatticeAgreement \<Rightarrow> LatticeAgreement \<times> LAPayload LAEffect list" where
  "HandlePayload peer payload la =
     (case payload of
        ProposalPayload m \<Rightarrow> HandleProposalMessage peer m la
      | AcceptPayload m \<Rightarrow> HandleAcceptMessage peer m la
      | DecidePayload m \<Rightarrow> (la, []))"

section \<open>Serialisation around the handlers\<close>

definition WrapProposalMessage :: "ProposalMessage \<Rightarrow> LAMessage option" where
  "WrapProposalMessage m =
     map_option (LAMessage.make kProposal) (marshal_fresh ProposalMessage_Size ProposalMessage_Marshal m)"

definition WrapAcceptMessage :: "AcceptMessage \<Rightarrow> LAMessage option" where
  "WrapAcceptMessage m =
     map_option (LAMessage.make kAccept) (marshal_fresh AcceptMessage_Size AcceptMessage_Marshal m)"

text \<open>\<open>WrapMessage\<close> takes any serialisable message, given by its size and its \<open>MarshalExtract\<close>.\<close>

definition WrapMessage ::
    "('m \<Rightarrow> nat) \<Rightarrow> ('m \<Rightarrow> Bytes \<Rightarrow> Bytes option) \<Rightarrow> 'm \<Rightarrow> LAMessageType \<Rightarrow> LAMessage option" where
  "WrapMessage message_size marshal_extract input_message t =
     map_option (LAMessage.make t) (marshal_fresh message_size marshal_extract input_message)"

definition WrapDecideMessage :: "DecideMessage \<Rightarrow> LAMessage option" where
  "WrapDecideMessage m = WrapMessage DecideMessage_Size DecideMessage_Marshal m kDecide"

definition encode :: "LAPayload \<Rightarrow> Bytes option" where
  "encode payload = do {
     m \<leftarrow> (case payload of
        ProposalPayload m \<Rightarrow> WrapProposalMessage m
      | AcceptPayload m \<Rightarrow> WrapAcceptMessage m
      | DecidePayload m \<Rightarrow> WrapDecideMessage m);
     marshal_fresh LAMessage_Size LAMessage_MarshalExtract m
   }"

text \<open>The decoding half of the callback; a message of unknown type is \<open>Some None\<close>.\<close>

definition decode :: "Bytes \<Rightarrow> LAPayload option option" where
  "decode message = do {
     m \<leftarrow> LAMessage_Unmarshal message;
     if la_type m = kProposal then
       map_option (Some \<circ> ProposalPayload) (ProposalMessage_Unmarshal (la_message m))
     else if la_type m = kAccept then
       map_option (Some \<circ> AcceptPayload) (AcceptMessage_Unmarshal (la_message m))
     else if la_type m = kDecide then
       map_option (Some \<circ> DecidePayload) (DecideMessage_Unmarshal (la_message m))
     else Some None
   }"

fun encode_effect :: "LAPayload LAEffect \<Rightarrow> Bytes LAEffect option" where
  "encode_effect (LASend p m) = map_option (LASend p) (encode m)"
| "encode_effect (LAFulfil c) = Some (LAFulfil c)"
| "encode_effect (LACallback r v) = Some (LACallback r v)"

definition encode_effects :: "LAPayload LAEffect list \<Rightarrow> Bytes LAEffect list option" where
  "encode_effects es = those (map encode_effect es)"

definition LatticeAgreement_callback ::
    "PeerID \<Rightarrow> Bytes \<Rightarrow> LatticeAgreement \<Rightarrow> (LatticeAgreement \<times> Bytes LAEffect list) option" where
  "LatticeAgreement_callback peer message la = do {
     decoded \<leftarrow> decode message;
     case decoded of
       None \<Rightarrow> Some (la, [])
     | Some payload \<Rightarrow> do {
         let (la, es) = HandlePayload peer payload la;
         es \<leftarrow> encode_effects es;
         Some (la, es)
       }
   }"

section \<open>Serialisation is transparent\<close>

fun payload_fits :: "LAPayload \<Rightarrow> bool" where
  "payload_fits (ProposalPayload m) = ProposalMessage_fits m"
| "payload_fits (AcceptPayload m) = AcceptMessage_fits m"
| "payload_fits (DecidePayload m) = True"

fun payload_type :: "LAPayload \<Rightarrow> LAMessageType" where
  "payload_type (ProposalPayload m) = kProposal"
| "payload_type (AcceptPayload m) = kAccept"
| "payload_type (DecidePayload m) = kDecide"

lemma decode_encode:
  assumes "payload_fits p"
  shows "\<exists>bs. encode p = Some bs \<and> decode bs = Some (Some p)"
proof -
  have envelope: "\<exists>bs. marshal_fresh LAMessage_Size LAMessage_MarshalExtract m = Some bs \<and>
      LAMessage_Unmarshal bs = Some m" for m
    using la_envelope.fresh_roundtrip [of m] by (auto simp: LAMessage_MarshalExtract_eq)
  show ?thesis
  proof (cases p)
    case (ProposalPayload m)
    then obtain b where "marshal_fresh ProposalMessage_Size ProposalMessage_Marshal m = Some b"
      "ProposalMessage_Unmarshal b = Some m"
      using proposal_message.fresh_roundtrip [of m] assms by auto
    with ProposalPayload envelope [of "LAMessage.make kProposal b"] show ?thesis
      by (auto simp: encode_def decode_def WrapProposalMessage_def LAMessage.make_def)
  next
    case (AcceptPayload m)
    then obtain b where "marshal_fresh AcceptMessage_Size AcceptMessage_Marshal m = Some b"
      "AcceptMessage_Unmarshal b = Some m"
      using accept_message.fresh_roundtrip [of m] assms by auto
    with AcceptPayload envelope [of "LAMessage.make kAccept b"] show ?thesis
      by (auto simp: encode_def decode_def WrapAcceptMessage_def LAMessage.make_def la_enum_defs)
  next
    case (DecidePayload m)
    then obtain b where "marshal_fresh DecideMessage_Size DecideMessage_Marshal m = Some b"
      "DecideMessage_Unmarshal b = Some m"
      using decide_message.fresh_roundtrip [of m] by auto
    with DecidePayload envelope [of "LAMessage.make kDecide b"] show ?thesis
      by (auto simp: encode_def decode_def WrapDecideMessage_def WrapMessage_def LAMessage.make_def la_enum_defs)
  qed
qed

section \<open>What a round looks like\<close>

text \<open>
  The state of round \<open>r\<close> without its contract. A round that was not created yet looks like
  the empty state that the first message for it creates.
\<close>

definition erase :: "RoundState \<Rightarrow> RoundState" where
  "erase s = s\<lparr>rs_promise := None, rs_preliminary_future := None\<rparr>"

definition round_view :: "LatticeAgreement \<Rightarrow> nat \<Rightarrow> RoundState" where
  "round_view la r =
     (if r < length (la_round_states la) then erase (la_round_states la ! r) else RoundState_init [] None)"

definition config :: "LatticeAgreement \<Rightarrow> HostsTable \<times> PeerID \<times> nat" where
  "config la = (la_hosts la, la_localID la, la_network_size la)"

lemma config_eqD:
  assumes "config la = config la'"
  shows "la_hosts la = la_hosts la'" "la_localID la = la_localID la'"
    "la_network_size la = la_network_size la'"
  using assms by (simp_all add: config_def)

lemma erase_simps [simp]:
  "rs_active_proposal_number (erase s) = rs_active_proposal_number s"
  "rs_acks (erase s) = rs_acks s"
  "rs_nacks (erase s) = rs_nacks s"
  "rs_proposed_value (erase s) = rs_proposed_value s"
  "rs_accepted_value (erase s) = rs_accepted_value s"
  "rs_completed (erase s) = rs_completed s"
  by (simp_all add: erase_def)

lemma RoundState_init_simps [simp]:
  "rs_active_proposal_number (RoundState_init v c) = 0"
  "rs_acks (RoundState_init v c) = 0"
  "rs_nacks (RoundState_init v c) = 0"
  "rs_proposed_value (RoundState_init v c) = v"
  "rs_accepted_value (RoundState_init v c) = []"
  "rs_completed (RoundState_init v c) = False"
  "rs_preliminary_future (RoundState_init v c) = None"
  by (simp_all add: RoundState_init_def)

lemma view_emplace:
  "round_view (emplace_round s la) r =
     (if r = length (la_round_states la) then erase s else round_view la r)"
  by (auto simp: round_view_def emplace_round_def nth_append)

lemma view_set_round_state:
  "unat round < length (la_round_states la) \<Longrightarrow>
     round_view (set_round_state round s la) r = (if r = unat round then erase s else round_view la r)"
  by (auto simp: round_view_def set_round_state_def)

lemma view_of_round_state:
  "unat round < length (la_round_states la) \<Longrightarrow> round_view la (unat round) = erase (round_state round la)"
  by (simp add: round_view_def round_state_def)

lemma set_round_state_frame [simp]:
  "config (set_round_state round s la) = config la"
  "length (la_round_states (set_round_state round s la)) = length (la_round_states la)"
  by (simp_all add: set_round_state_def config_def)

lemma round_state_set [simp]:
  "unat round < length (la_round_states la) \<Longrightarrow> round_state round (set_round_state round s la) = s"
  by (simp add: round_state_def set_round_state_def)

lemma InitializeEmptyRoundStates_props:
  "(\<forall>r. round_view (InitializeEmptyRoundStates round la) r = round_view la r) \<and>
   config (InitializeEmptyRoundStates round la) = config la \<and>
   unat round < length (la_round_states (InitializeEmptyRoundStates round la))"
proof (induction round la rule: InitializeEmptyRoundStates.induct)
  case (1 round la)
  show ?case
  proof (cases "unat round \<ge> length (la_round_states la)")
    case True
    obtain la' p where mk: "MakeContract la = (la', p)" by (cases "MakeContract la")
    let ?s = "(RoundState_init [] (Some p))\<lparr>rs_preliminary_future := Some (Some p)\<rparr>"
    have la': "la_round_states la' = la_round_states la" "config la' = config la"
      using mk by (auto simp: MakeContract_def config_def)
    have "round_view (emplace_round ?s la') r = round_view la r" for r
      using la'(1) by (auto simp: emplace_round_def nth_append round_view_def erase_def RoundState_init_def)
    moreover have "config (emplace_round ?s la') = config la"
      using la'(2) by (simp add: emplace_round_def config_def)
    ultimately show ?thesis
      using "1.IH" [OF True mk [symmetric] refl] True mk
      by (simp add: InitializeEmptyRoundStates.simps [of round la])
  next
    case False
    then show ?thesis by (simp add: InitializeEmptyRoundStates.simps [of round la])
  qed
qed

lemma GetRoundState_props [simp]:
  "round_view (GetRoundState round la) r = round_view la r"
  "config (GetRoundState round la) = config la"
  "unat round < length (la_round_states (GetRoundState round la))"
  using InitializeEmptyRoundStates_props [of round la] by (auto simp: GetRoundState_def)

lemma view_of_GetRoundState [simp]:
  "erase (round_state round (GetRoundState round la)) = round_view la (unat round)"
  using view_of_round_state [of round "GetRoundState round la"] by simp

lemma Majority_config: "config la = config la' \<Longrightarrow> Majority la = Majority la'"
  by (auto simp: Majority_def dest: config_eqD)

lemma broadcast_config:
  "config la = config la' \<Longrightarrow> BestEffortBroadcast la m = BestEffortBroadcast la' m"
  by (auto simp: BestEffortBroadcast_def dest: config_eqD)

section \<open>Effect of the handlers on a round\<close>

definition accept_update :: "ProposalT \<Rightarrow> ProposalT \<Rightarrow> ProposalT" where
  "accept_update accepted v =
     (let u = VectorSetUnion accepted v in if length u = length v then v else u)"

definition answer_to :: "Proposal \<Rightarrow> ProposalT \<Rightarrow> Accept" where
  "answer_to p accepted =
     (let u = VectorSetUnion accepted (proposed_value p) in
      if length u = length (proposed_value p)
      then \<lparr>acc_status = kAck, acc_proposal_number = active_proposal_number p, acc_accepted_value = []\<rparr>
      else \<lparr>acc_status = kNack, acc_proposal_number = active_proposal_number p, acc_accepted_value = u\<rparr>)"

lemma erase_accepted [simp]:
  "erase (s\<lparr>rs_accepted_value := v\<rparr>) = (erase s)\<lparr>rs_accepted_value := v\<rparr>"
  by (simp add: erase_def)

lemma HandlePropose_view:
  "round_view (fst (HandlePropose round p la)) r =
     (if r = unat round
      then (round_view la r)\<lparr>rs_accepted_value :=
             accept_update (rs_accepted_value (round_view la r)) (proposed_value p)\<rparr>
      else round_view la r)"
  "config (fst (HandlePropose round p la)) = config la"
  "snd (HandlePropose round p la) = answer_to p (rs_accepted_value (round_view la (unat round)))"
proof -
  have acc: "rs_accepted_value (round_state round (GetRoundState round la)) =
      rs_accepted_value (round_view la (unat round))"
    by (metis erase_simps(5) view_of_GetRoundState)
  show "round_view (fst (HandlePropose round p la)) r =
     (if r = unat round
      then (round_view la r)\<lparr>rs_accepted_value :=
             accept_update (rs_accepted_value (round_view la r)) (proposed_value p)\<rparr>
      else round_view la r)"
    by (simp add: HandlePropose_def Let_def view_set_round_state accept_update_def acc)
  show "config (fst (HandlePropose round p la)) = config la"
    by (simp add: HandlePropose_def Let_def)
  show "snd (HandlePropose round p la) = answer_to p (rs_accepted_value (round_view la (unat round)))"
    by (simp add: HandlePropose_def Let_def answer_to_def acc)
qed

text \<open>
  C31. The acceptor compares the lengths of two vectors; as long as neither what it accepted
  before nor the proposal repeats a value this is the test of the protocol: it acknowledges
  exactly the proposals that contain what it accepted before, and it accepts the union in
  either case. A refusal carries that union.
\<close>

theorem acceptor_equivalence:
  assumes "distinct (rs_accepted_value (round_view la (unat round)))" and "distinct (proposed_value p)"
    and "HandlePropose round p la = (la', answer)"
  shows "(acc_status answer = kAck \<longleftrightarrow> set (rs_accepted_value (round_view la (unat round))) \<subseteq> set (proposed_value p)) \<and>
    set (rs_accepted_value (round_view la' (unat round))) =
      set (rs_accepted_value (round_view la (unat round))) \<union> set (proposed_value p) \<and>
    (acc_status answer = kNack \<longrightarrow> set (acc_accepted_value answer) = set (rs_accepted_value (round_view la' (unat round))))"
  using HandlePropose_view(1,3) [of round p la] assms(3) union_same_size_iff [OF assms(1,2)]
  by (auto simp: accept_update_def answer_to_def Let_def kAck_def kNack_def)

theorem acceptor_equivalence_witness:
  "acc_status (snd (HandlePropose 0 \<lparr>proposed_value = [7], active_proposal_number = 0\<rparr>
     (LatticeAgreement_init (HostsTable_init [] 1)))) = kAck"
proof -
  let ?la = "LatticeAgreement_init (HostsTable_init [] 1)"
  let ?p = "\<lparr>proposed_value = [7], active_proposal_number = 0\<rparr>"
  have "rs_accepted_value (round_view ?la (unat 0)) = []"
    by (simp add: LatticeAgreement_init_def round_view_def erase_def RoundState_init_def)
  then show ?thesis
    using acceptor_equivalence [of ?la 0 ?p "fst (HandlePropose 0 ?p ?la)" "snd (HandlePropose 0 ?p ?la)"] by simp
qed

definition relevant :: "Accept \<Rightarrow> RoundState \<Rightarrow> bool" where
  "relevant a s \<longleftrightarrow> (acc_status a = kAck \<or> acc_status a = kNack) \<and> \<not> rs_completed s \<and>
     rs_active_proposal_number s = acc_proposal_number a"

definition counted :: "Accept \<Rightarrow> RoundState \<Rightarrow> RoundState" where
  "counted a s = (if acc_status a = kAck then s\<lparr>rs_acks := rs_acks s + 1\<rparr>
     else s\<lparr>rs_nacks := rs_nacks s + 1,
            rs_proposed_value := VectorSetUnion (rs_proposed_value s) (acc_accepted_value a)\<rparr>)"

definition decides :: "nat \<Rightarrow> RoundState \<Rightarrow> bool" where
  "decides maj s \<longleftrightarrow> maj \<le> unat (rs_acks s)"

definition moves :: "nat \<Rightarrow> RoundState \<Rightarrow> bool" where
  "moves maj s \<longleftrightarrow> \<not> decides maj s \<and> rs_nacks s > 0 \<and> maj \<le> unat (rs_acks s + rs_nacks s)"

definition checked :: "nat \<Rightarrow> RoundState \<Rightarrow> RoundState" where
  "checked maj s =
     (if decides maj s then s\<lparr>rs_completed := True\<rparr>
      else if moves maj s then
        s\<lparr>rs_active_proposal_number := rs_active_proposal_number s + 1, rs_acks := 0, rs_nacks := 0\<rparr>
      else s)"

fun is_fulfil :: "'m LAEffect \<Rightarrow> bool" where
  "is_fulfil (LAFulfil c) = True"
| "is_fulfil e = False"

definition check_effects :: "LatticeAgreement \<Rightarrow> RoundID \<Rightarrow> RoundState \<Rightarrow> LAPayload LAEffect list" where
  "check_effects la round s =
     (if decides (Majority la) s then [LACallback round (rs_proposed_value s)]
      else if moves (Majority la) s then
        BestEffortBroadcast la (ProposalPayload \<lparr>pm_first_round_id = round,
          proposals = [\<lparr>proposed_value = rs_proposed_value s,
                        active_proposal_number = rs_active_proposal_number s + 1\<rparr>]\<rparr>)
      else [])"

lemma erase_updates:
  "erase (s\<lparr>rs_completed := b\<rparr>) = (erase s)\<lparr>rs_completed := b\<rparr>"
  "erase (s\<lparr>rs_promise := c\<rparr>) = erase s"
  "erase (s\<lparr>rs_acks := x\<rparr>) = (erase s)\<lparr>rs_acks := x\<rparr>"
  "erase (s\<lparr>rs_nacks := x\<rparr>) = (erase s)\<lparr>rs_nacks := x\<rparr>"
  "erase (s\<lparr>rs_active_proposal_number := x\<rparr>) = (erase s)\<lparr>rs_active_proposal_number := x\<rparr>"
  "erase (s\<lparr>rs_proposed_value := v\<rparr>) = (erase s)\<lparr>rs_proposed_value := v\<rparr>"
  by (simp_all add: erase_def)

lemma decides_erase [simp]: "decides maj (erase s) = decides maj s"
  by (simp add: decides_def)

lemma moves_erase [simp]: "moves maj (erase s) = moves maj s"
  by (simp add: moves_def)

lemma check_effects_erase [simp]: "check_effects la round (erase s) = check_effects la round s"
  by (simp add: check_effects_def)

lemma filter_broadcast [simp]:
  "filter (\<lambda>e. \<not> is_fulfil e) (BestEffortBroadcast la m) = BestEffortBroadcast la m"
  by (auto simp: BestEffortBroadcast_def filter_id_conv)

lemma CheckAckNackConditions_view:
  assumes "unat round < length (la_round_states la)"
  shows "round_view (fst (CheckAckNackConditions round la)) r =
      (if r = unat round then checked (Majority la) (round_view la r) else round_view la r)"
    and "config (fst (CheckAckNackConditions round la)) = config la"
    and "filter (\<lambda>e. \<not> is_fulfil e) (snd (CheckAckNackConditions round la)) =
      check_effects la round (round_view la (unat round))"
  using assms
  by (auto simp: CheckAckNackConditions_def Let_def Decide_def MoveToNextProposalNumber_def
      checked_def check_effects_def decides_def moves_def view_set_round_state view_of_round_state
      erase_updates split: option.split)

lemma erase_counted: "erase (counted a s) = counted a (erase s)"
  by (simp add: counted_def erase_updates)

lemma HandleAccept_eq:
  "HandleAccept round a la =
     (if acc_status a = kAck \<or> acc_status a = kNack then
        let la = GetRoundState round la; s = round_state round la in
        if relevant a s then CheckAckNackConditions round (set_round_state round (counted a s) la)
        else (la, [])
      else (la, []))"
  by (auto simp: HandleAccept_def HandleAck_def HandleNack_def Let_def relevant_def counted_def
      la_enum_defs)

lemma relevant_erase [simp]: "relevant a (erase s) = relevant a s"
  by (simp add: relevant_def)

lemma HandleAccept_view:
  "round_view (fst (HandleAccept round a la)) r =
     (if r = unat round \<and> relevant a (round_view la r)
      then checked (Majority la) (counted a (round_view la r)) else round_view la r)"
  "config (fst (HandleAccept round a la)) = config la"
  "filter (\<lambda>e. \<not> is_fulfil e) (snd (HandleAccept round a la)) =
     (if relevant a (round_view la (unat round))
      then check_effects la round (counted a (round_view la (unat round))) else [])"
proof -
  let ?la = "GetRoundState round la" and ?s = "round_state round (GetRoundState round la)"
  let ?lb = "set_round_state round (counted a ?s) ?la"
  have rel: "relevant a ?s \<longleftrightarrow> relevant a (round_view la (unat round))"
    by (metis relevant_erase view_of_GetRoundState)
  have cfg: "config ?lb = config la" by simp
  note maj = Majority_config [OF cfg]
  have eff: "check_effects ?lb = check_effects la"
    by (intro ext) (simp add: check_effects_def maj broadcast_config [OF cfg])
  have view: "round_view ?lb r = (if r = unat round then counted a (round_view la r) else round_view la r)" for r
    by (simp add: view_set_round_state erase_counted)
  have len: "unat round < length (la_round_states ?lb)" by simp
  note chk = CheckAckNackConditions_view [OF len]
  show "round_view (fst (HandleAccept round a la)) r =
     (if r = unat round \<and> relevant a (round_view la r)
      then checked (Majority la) (counted a (round_view la r)) else round_view la r)"
    using rel by (auto simp: HandleAccept_eq Let_def chk maj view relevant_def)
  show "config (fst (HandleAccept round a la)) = config la"
    by (simp add: HandleAccept_eq Let_def chk)
  show "filter (\<lambda>e. \<not> is_fulfil e) (snd (HandleAccept round a la)) =
     (if relevant a (round_view la (unat round))
      then check_effects la round (counted a (round_view la (unat round))) else [])"
    using rel by (auto simp: HandleAccept_eq Let_def chk eff view relevant_def)
qed

end
