(* ===== verification/Lattice_Spec.thy ===== *)
theory Lattice_Spec
  imports Broadcast_Prelude "HOL-Library.Multiset"
begin

text \<open>
  Single-shot lattice agreement as an abstract protocol: values are sets, proposal numbers
  are natural numbers, the network is a multiset of messages of which each is delivered at
  most once, and every process takes its steps one at a time. It states what one round of
  the implementation promises. Decided values are comparable, contain the proposal of the
  process that decides and contain nothing that was not proposed. The history fields
  (prefix \<open>g_\<close>) record what was broadcast, accepted and heard; no step reads them.
\<close>

section \<open>State and steps\<close>

record 'v anode =
  an_started :: bool
  an_number :: nat
  an_acks :: nat
  an_nacks :: nat
  an_proposed :: "'v set"
  an_accepted :: "'v set"
  an_completed :: bool

definition anode_init :: "'v anode" where
  "anode_init = \<lparr>an_started = False, an_number = 0, an_acks = 0, an_nacks = 0,
     an_proposed = {}, an_accepted = {}, an_completed = False\<rparr>"

datatype 'v amsg = AProp nat "'v set" | AAck nat | ANack nat "'v set"

record ('p, 'v) asys =
  s_nodes :: "'p \<Rightarrow> 'v anode"
  s_net :: "('p \<times> 'p \<times> 'v amsg) multiset"
  s_decided :: "('p \<times> 'v set) set"
  g_initial :: "'p \<Rightarrow> 'v set"
  g_bcast :: "'p \<Rightarrow> nat \<Rightarrow> 'v set"
  g_acked :: "('p \<times> 'p \<times> nat) set"
  g_heard :: "'p \<Rightarrow> nat \<Rightarrow> 'p set"
  g_heard_ack :: "'p \<Rightarrow> nat \<Rightarrow> 'p set"

definition asys_init :: "('p, 'v) asys" where
  "asys_init = \<lparr>s_nodes = (\<lambda>_. anode_init), s_net = {#}, s_decided = {}, g_initial = (\<lambda>_. {}),
     g_bcast = (\<lambda>_ _. {}), g_acked = {}, g_heard = (\<lambda>_ _. {}), g_heard_ack = (\<lambda>_ _. {})\<rparr>"

definition to_all :: "'p set \<Rightarrow> 'p \<Rightarrow> 'v amsg \<Rightarrow> ('p \<times> 'p \<times> 'v amsg) multiset" where
  "to_all P p m = image_mset (\<lambda>q. (p, q, m)) (mset_set P)"

definition amajority :: "'p set \<Rightarrow> nat" where
  "amajority P = card P div 2 + 1"

definition a_propose :: "'p set \<Rightarrow> 'p \<Rightarrow> 'v set \<Rightarrow> ('p, 'v) asys \<Rightarrow> ('p, 'v) asys" where
  "a_propose P p v \<sigma> = \<sigma>\<lparr>
     s_nodes := (s_nodes \<sigma>)(p := (s_nodes \<sigma> p)\<lparr>an_started := True, an_proposed := v\<rparr>),
     s_net := s_net \<sigma> + to_all P p (AProp 0 v),
     g_initial := (g_initial \<sigma>)(p := v),
     g_bcast := (g_bcast \<sigma>)(p := (g_bcast \<sigma> p)(0 := v))\<rparr>"

definition a_accept :: "'p \<Rightarrow> 'p \<Rightarrow> nat \<Rightarrow> 'v set \<Rightarrow> ('p, 'v) asys \<Rightarrow> ('p, 'v) asys" where
  "a_accept p a k v \<sigma> =
     (let n = s_nodes \<sigma> a; net = s_net \<sigma> - {#(p, a, AProp k v)#} in
      if an_accepted n \<subseteq> v then \<sigma>\<lparr>
        s_nodes := (s_nodes \<sigma>)(a := n\<lparr>an_accepted := v\<rparr>),
        s_net := net + {#(a, p, AAck k)#},
        g_acked := insert (a, p, k) (g_acked \<sigma>)\<rparr>
      else \<sigma>\<lparr>
        s_nodes := (s_nodes \<sigma>)(a := n\<lparr>an_accepted := an_accepted n \<union> v\<rparr>),
        s_net := net + {#(a, p, ANack k (an_accepted n \<union> v))#}\<rparr>)"

fun answer_number :: "'v amsg \<Rightarrow> nat" where
  "answer_number (AProp k v) = k"
| "answer_number (AAck k) = k"
| "answer_number (ANack k v) = k"

fun is_ack :: "'v amsg \<Rightarrow> bool" where
  "is_ack (AAck k) = True"
| "is_ack m = False"

fun is_prop :: "'v amsg \<Rightarrow> bool" where
  "is_prop (AProp k v) = True"
| "is_prop m = False"

fun count_answer :: "'v amsg \<Rightarrow> 'v anode \<Rightarrow> 'v anode" where
  "count_answer (AAck k) n = n\<lparr>an_acks := an_acks n + 1\<rparr>"
| "count_answer (ANack k w) n =
     n\<lparr>an_nacks := an_nacks n + 1, an_proposed := an_proposed n \<union> w\<rparr>"
| "count_answer (AProp k v) n = n"

definition a_drop :: "'p \<times> 'p \<times> 'v amsg \<Rightarrow> ('p, 'v) asys \<Rightarrow> ('p, 'v) asys" where
  "a_drop x \<sigma> = \<sigma>\<lparr>s_net := s_net \<sigma> - {#x#}\<rparr>"

definition a_count :: "'p \<Rightarrow> 'p \<Rightarrow> 'v amsg \<Rightarrow> ('p, 'v) asys \<Rightarrow> ('p, 'v) asys" where
  "a_count a p m \<sigma> =
     (let n = s_nodes \<sigma> p; k = an_number n in
      \<sigma>\<lparr>s_nodes := (s_nodes \<sigma>)(p := count_answer m n),
        s_net := s_net \<sigma> - {#(a, p, m)#},
        g_heard := (g_heard \<sigma>)(p := (g_heard \<sigma> p)(k := insert a (g_heard \<sigma> p k))),
        g_heard_ack := (g_heard_ack \<sigma>)(p := (g_heard_ack \<sigma> p)
          (k := if is_ack m then insert a (g_heard_ack \<sigma> p k) else g_heard_ack \<sigma> p k))\<rparr>)"

definition a_decide :: "'p \<Rightarrow> ('p, 'v) asys \<Rightarrow> ('p, 'v) asys" where
  "a_decide p \<sigma> = \<sigma>\<lparr>
     s_nodes := (s_nodes \<sigma>)(p := (s_nodes \<sigma> p)\<lparr>an_completed := True\<rparr>),
     s_decided := insert (p, an_proposed (s_nodes \<sigma> p)) (s_decided \<sigma>)\<rparr>"

definition a_move :: "'p set \<Rightarrow> 'p \<Rightarrow> ('p, 'v) asys \<Rightarrow> ('p, 'v) asys" where
  "a_move P p \<sigma> =
     (let n = s_nodes \<sigma> p; k = Suc (an_number n) in
      \<sigma>\<lparr>s_nodes := (s_nodes \<sigma>)(p := n\<lparr>an_number := k, an_acks := 0, an_nacks := 0\<rparr>),
        s_net := s_net \<sigma> + to_all P p (AProp k (an_proposed n)),
        g_bcast := (g_bcast \<sigma>)(p := (g_bcast \<sigma> p)(k := an_proposed n))\<rparr>)"

definition a_check :: "'p set \<Rightarrow> 'p \<Rightarrow> ('p, 'v) asys \<Rightarrow> ('p, 'v) asys" where
  "a_check P p \<sigma> =
     (let n = s_nodes \<sigma> p in
      if an_acks n \<ge> amajority P then a_decide p \<sigma>
      else if an_nacks n > 0 \<and> an_acks n + an_nacks n \<ge> amajority P then a_move P p \<sigma>
      else \<sigma>)"

definition a_answer :: "'p set \<Rightarrow> 'p \<Rightarrow> 'p \<Rightarrow> 'v amsg \<Rightarrow> ('p, 'v) asys \<Rightarrow> ('p, 'v) asys" where
  "a_answer P a p m \<sigma> =
     (if an_completed (s_nodes \<sigma> p) \<or> an_number (s_nodes \<sigma> p) \<noteq> answer_number m
      then a_drop (a, p, m) \<sigma>
      else a_check P p (a_count a p m \<sigma>))"

inductive a_step :: "'p set \<Rightarrow> ('p, 'v) asys \<Rightarrow> ('p, 'v) asys \<Rightarrow> bool" for P where
  propose: "p \<in> P \<Longrightarrow> \<not> an_started (s_nodes \<sigma> p) \<Longrightarrow> finite v \<Longrightarrow> v \<noteq> {} \<Longrightarrow>
     a_step P \<sigma> (a_propose P p v \<sigma>)"
| accept: "(p, a, AProp k v) \<in># s_net \<sigma> \<Longrightarrow> a_step P \<sigma> (a_accept p a k v \<sigma>)"
| answer: "(a, p, m) \<in># s_net \<sigma> \<Longrightarrow> \<not> is_prop m \<Longrightarrow> a_step P \<sigma> (a_answer P a p m \<sigma>)"

inductive a_reach :: "'p set \<Rightarrow> ('p, 'v) asys \<Rightarrow> bool" for P where
  start: "a_reach P asys_init"
| step: "a_reach P \<sigma> \<Longrightarrow> a_step P \<sigma> \<tau> \<Longrightarrow> a_reach P \<tau>"

section \<open>Invariant\<close>

text \<open>The messages that stand for the exchange of proposal \<open>k\<close> of \<open>p\<close> with \<open>a\<close>.\<close>

fun about :: "'p \<Rightarrow> 'p \<Rightarrow> nat \<Rightarrow> 'p \<times> 'p \<times> 'v amsg \<Rightarrow> bool" where
  "about p a k (s, d, AProp j v) \<longleftrightarrow> s = p \<and> d = a \<and> j = k"
| "about p a k (s, d, AAck j) \<longleftrightarrow> s = a \<and> d = p \<and> j = k"
| "about p a k (s, d, ANack j v) \<longleftrightarrow> s = a \<and> d = p \<and> j = k"

definition tok :: "('p \<times> 'p \<times> 'v amsg) multiset \<Rightarrow> 'p \<Rightarrow> 'p \<Rightarrow> nat \<Rightarrow> nat" where
  "tok M p a k = size (filter_mset (about p a k) M)"

definition issued :: "('p, 'v) asys \<Rightarrow> 'p \<Rightarrow> nat \<Rightarrow> bool" where
  "issued \<sigma> p k \<longleftrightarrow> an_started (s_nodes \<sigma> p) \<and> k \<le> an_number (s_nodes \<sigma> p)"

definition proposals_of :: "('p, 'v) asys \<Rightarrow> 'v set" where
  "proposals_of \<sigma> = (\<Union>q\<in>{q. an_started (s_nodes \<sigma> q)}. g_initial \<sigma> q)"

fun msg_ok :: "'p set \<Rightarrow> ('p, 'v) asys \<Rightarrow> 'p \<times> 'p \<times> 'v amsg \<Rightarrow> bool" where
  "msg_ok P \<sigma> (p, a, AProp k v) \<longleftrightarrow> p \<in> P \<and> a \<in> P \<and> issued \<sigma> p k \<and> v = g_bcast \<sigma> p k"
| "msg_ok P \<sigma> (a, p, AAck k) \<longleftrightarrow> p \<in> P \<and> a \<in> P \<and> issued \<sigma> p k \<and> (a, p, k) \<in> g_acked \<sigma>"
| "msg_ok P \<sigma> (a, p, ANack k w) \<longleftrightarrow> p \<in> P \<and> a \<in> P \<and> issued \<sigma> p k \<and>
     \<not> w \<subseteq> g_bcast \<sigma> p k \<and> w \<subseteq> proposals_of \<sigma> \<and> finite w"

definition inv_msgs :: "'p set \<Rightarrow> ('p, 'v) asys \<Rightarrow> bool" where
  "inv_msgs P \<sigma> \<longleftrightarrow> (\<forall>x\<in>#s_net \<sigma>. msg_ok P \<sigma> x)"

definition inv_acked :: "'p set \<Rightarrow> ('p, 'v) asys \<Rightarrow> bool" where
  "inv_acked P \<sigma> \<longleftrightarrow>
     (\<forall>a p k. (a, p, k) \<in> g_acked \<sigma> \<longrightarrow>
        a \<in> P \<and> issued \<sigma> p k \<and> g_bcast \<sigma> p k \<subseteq> an_accepted (s_nodes \<sigma> a)) \<and>
     (\<forall>a p k q j. (a, p, k) \<in> g_acked \<sigma> \<longrightarrow> (a, q, j) \<in> g_acked \<sigma> \<longrightarrow>
        g_bcast \<sigma> p k \<subseteq> g_bcast \<sigma> q j \<or> g_bcast \<sigma> q j \<subseteq> g_bcast \<sigma> p k)"

text \<open>
  Each exchange of a proposal with an acceptor happens at most once: it is one message under
  way or one answer heard.
\<close>

definition exch :: "('p, 'v) asys \<Rightarrow> 'p \<Rightarrow> 'p \<Rightarrow> nat \<Rightarrow> nat" where
  "exch \<sigma> p a k = tok (s_net \<sigma>) p a k + (if a \<in> g_heard \<sigma> p k then 1 else 0)"

definition inv_tok :: "('p, 'v) asys \<Rightarrow> bool" where
  "inv_tok \<sigma> \<longleftrightarrow> (\<forall>p a k. exch \<sigma> p a k \<le> (if issued \<sigma> p k then 1 else 0))"

definition inv_heard :: "'p set \<Rightarrow> ('p, 'v) asys \<Rightarrow> bool" where
  "inv_heard P \<sigma> \<longleftrightarrow> (\<forall>p k. g_heard_ack \<sigma> p k \<subseteq> g_heard \<sigma> p k \<and> g_heard \<sigma> p k \<subseteq> P \<and>
     (\<forall>a\<in>g_heard_ack \<sigma> p k. (a, p, k) \<in> g_acked \<sigma>))"

definition node_ok :: "'p set \<Rightarrow> ('p, 'v) asys \<Rightarrow> 'p \<Rightarrow> bool" where
  "node_ok P \<sigma> p \<longleftrightarrow>
     (let n = s_nodes \<sigma> p; k = an_number n; B = g_bcast \<sigma> p k in
      if an_started n then
        p \<in> P \<and> (\<not> an_completed n \<longrightarrow>
          an_acks n = card (g_heard_ack \<sigma> p k) \<and>
          an_acks n + an_nacks n = card (g_heard \<sigma> p k) \<and>
          B \<subseteq> an_proposed n \<and> an_proposed n \<subseteq> proposals_of \<sigma> \<and> finite (an_proposed n) \<and>
          (if an_nacks n = 0 then an_proposed n = B else an_proposed n \<noteq> B))
      else k = 0 \<and> an_acks n = 0 \<and> an_nacks n = 0 \<and> \<not> an_completed n)"

text \<open>Between steps, no condition of the proposer is enabled.\<close>

definition settled :: "'p set \<Rightarrow> ('p, 'v) asys \<Rightarrow> 'p \<Rightarrow> bool" where
  "settled P \<sigma> p \<longleftrightarrow> (let n = s_nodes \<sigma> p in
     \<not> an_completed n \<longrightarrow> an_acks n < amajority P \<and>
       (an_nacks n > 0 \<longrightarrow> an_acks n + an_nacks n < amajority P))"

definition inv_values :: "('p, 'v) asys \<Rightarrow> bool" where
  "inv_values \<sigma> \<longleftrightarrow>
     (\<forall>p k. issued \<sigma> p k \<longrightarrow> finite (g_bcast \<sigma> p k) \<and> k < card (g_bcast \<sigma> p k) \<and>
        g_initial \<sigma> p \<subseteq> g_bcast \<sigma> p k \<and> g_bcast \<sigma> p k \<subseteq> proposals_of \<sigma>) \<and>
     (\<forall>a. an_accepted (s_nodes \<sigma> a) \<subseteq> proposals_of \<sigma> \<and> finite (an_accepted (s_nodes \<sigma> a)))"

definition inv_decided :: "'p set \<Rightarrow> ('p, 'v) asys \<Rightarrow> bool" where
  "inv_decided P \<sigma> \<longleftrightarrow> (\<forall>p d. (p, d) \<in> s_decided \<sigma> \<longrightarrow>
     (let n = s_nodes \<sigma> p in an_started n \<and> an_completed n \<and> d = g_bcast \<sigma> p (an_number n) \<and>
        amajority P \<le> card (g_heard_ack \<sigma> p (an_number n))))"

text \<open>Everything but \<open>settled\<close>, which fails in the middle of the step that counts an answer.\<close>

definition core_inv :: "'p set \<Rightarrow> ('p, 'v) asys \<Rightarrow> bool" where
  "core_inv P \<sigma> \<longleftrightarrow> inv_msgs P \<sigma> \<and> inv_acked P \<sigma> \<and> inv_tok \<sigma> \<and> inv_heard P \<sigma> \<and>
     (\<forall>p. node_ok P \<sigma> p) \<and> inv_values \<sigma> \<and> inv_decided P \<sigma>"

definition a_inv :: "'p set \<Rightarrow> ('p, 'v) asys \<Rightarrow> bool" where
  "a_inv P \<sigma> \<longleftrightarrow> core_inv P \<sigma> \<and> (\<forall>p. settled P \<sigma> p)"

section \<open>Multisets of messages\<close>

lemma tok_plus [simp]: "tok (M + N) p a k = tok M p a k + tok N p a k"
  by (simp add: tok_def)

lemma tok_single [simp]: "tok {#x#} p a k = (if about p a k x then 1 else 0)"
  by (simp add: tok_def)

lemma tok_add_mset [simp]: "tok (add_mset x M) p a k = tok M p a k + (if about p a k x then 1 else 0)"
  by (simp add: tok_def)

lemma tok_remove:
  "x \<in># M \<Longrightarrow> tok (M - {#x#}) p a k + (if about p a k x then 1 else 0) = tok M p a k"
proof -
  assume "x \<in># M"
  then have "tok M p a k = tok (M - {#x#} + {#x#}) p a k" by simp
  then show ?thesis by (simp only: tok_plus tok_single)
qed

lemma tok_to_all:
  assumes "finite P"
  shows "tok (to_all P p (AProp j v)) q a k = (if q = p \<and> a \<in> P \<and> j = k then 1 else 0)"
proof -
  have "tok (to_all P p (AProp j v)) q a k =
      card {x \<in> P. p = q \<and> x = a \<and> j = k}"
    using assms by (simp add: tok_def to_all_def filter_mset_image_mset filter_mset_mset_set)
  moreover have "{x \<in> P. p = q \<and> x = a \<and> j = k} = (if q = p \<and> a \<in> P \<and> j = k then {a} else {})"
    by auto
  ultimately show ?thesis by simp
qed

lemma in_to_all: "finite P \<Longrightarrow> x \<in># to_all P p m \<longleftrightarrow> (\<exists>q\<in>P. x = (p, q, m))"
  by (auto simp: to_all_def)

section \<open>Histories only grow\<close>

definition extends :: "('p, 'v) asys \<Rightarrow> ('p, 'v) asys \<Rightarrow> bool" where
  "extends \<sigma> \<tau> \<longleftrightarrow>
     (\<forall>p k. issued \<sigma> p k \<longrightarrow> issued \<tau> p k \<and> g_bcast \<tau> p k = g_bcast \<sigma> p k) \<and>
     g_acked \<sigma> \<subseteq> g_acked \<tau> \<and> proposals_of \<sigma> \<subseteq> proposals_of \<tau>"

lemma extends_msg_ok: "extends \<sigma> \<tau> \<Longrightarrow> msg_ok P \<sigma> x \<Longrightarrow> msg_ok P \<tau> x"
  by (induction P \<sigma> x rule: msg_ok.induct) (auto simp: extends_def)

lemma inv_msgs_extend:
  assumes "inv_msgs P \<sigma>" and "extends \<sigma> \<tau>"
    and "\<And>x. x \<in># s_net \<tau> \<Longrightarrow> x \<in># s_net \<sigma> \<or> msg_ok P \<tau> x"
  shows "inv_msgs P \<tau>"
  using assms extends_msg_ok unfolding inv_msgs_def by blast

section \<open>Preservation\<close>

lemma a_drop_fields [simp]:
  "s_nodes (a_drop x \<sigma>) = s_nodes \<sigma>"
  "s_net (a_drop x \<sigma>) = s_net \<sigma> - {#x#}"
  "s_decided (a_drop x \<sigma>) = s_decided \<sigma>"
  "g_initial (a_drop x \<sigma>) = g_initial \<sigma>"
  "g_bcast (a_drop x \<sigma>) = g_bcast \<sigma>"
  "g_acked (a_drop x \<sigma>) = g_acked \<sigma>"
  "g_heard (a_drop x \<sigma>) = g_heard \<sigma>"
  "g_heard_ack (a_drop x \<sigma>) = g_heard_ack \<sigma>"
  by (simp_all add: a_drop_def)

lemma a_decide_fields [simp]:
  "s_nodes (a_decide p \<sigma>) = (s_nodes \<sigma>)(p := (s_nodes \<sigma> p)\<lparr>an_completed := True\<rparr>)"
  "s_net (a_decide p \<sigma>) = s_net \<sigma>"
  "s_decided (a_decide p \<sigma>) = insert (p, an_proposed (s_nodes \<sigma> p)) (s_decided \<sigma>)"
  "g_initial (a_decide p \<sigma>) = g_initial \<sigma>"
  "g_bcast (a_decide p \<sigma>) = g_bcast \<sigma>"
  "g_acked (a_decide p \<sigma>) = g_acked \<sigma>"
  "g_heard (a_decide p \<sigma>) = g_heard \<sigma>"
  "g_heard_ack (a_decide p \<sigma>) = g_heard_ack \<sigma>"
  by (simp_all add: a_decide_def)

lemma a_move_fields [simp]:
  "s_nodes (a_move P p \<sigma>) = (s_nodes \<sigma>)(p := (s_nodes \<sigma> p)
     \<lparr>an_number := Suc (an_number (s_nodes \<sigma> p)), an_acks := 0, an_nacks := 0\<rparr>)"
  "s_net (a_move P p \<sigma>) = s_net \<sigma> +
     to_all P p (AProp (Suc (an_number (s_nodes \<sigma> p))) (an_proposed (s_nodes \<sigma> p)))"
  "s_decided (a_move P p \<sigma>) = s_decided \<sigma>"
  "g_initial (a_move P p \<sigma>) = g_initial \<sigma>"
  "g_bcast (a_move P p \<sigma>) = (g_bcast \<sigma>)(p := (g_bcast \<sigma> p)
     (Suc (an_number (s_nodes \<sigma> p)) := an_proposed (s_nodes \<sigma> p)))"
  "g_acked (a_move P p \<sigma>) = g_acked \<sigma>"
  "g_heard (a_move P p \<sigma>) = g_heard \<sigma>"
  "g_heard_ack (a_move P p \<sigma>) = g_heard_ack \<sigma>"
  by (simp_all add: a_move_def Let_def)

lemma a_count_fields [simp]:
  "s_nodes (a_count a p m \<sigma>) = (s_nodes \<sigma>)(p := count_answer m (s_nodes \<sigma> p))"
  "s_net (a_count a p m \<sigma>) = s_net \<sigma> - {#(a, p, m)#}"
  "s_decided (a_count a p m \<sigma>) = s_decided \<sigma>"
  "g_initial (a_count a p m \<sigma>) = g_initial \<sigma>"
  "g_bcast (a_count a p m \<sigma>) = g_bcast \<sigma>"
  "g_acked (a_count a p m \<sigma>) = g_acked \<sigma>"
  "g_heard (a_count a p m \<sigma>) = (let k = an_number (s_nodes \<sigma> p) in
     (g_heard \<sigma>)(p := (g_heard \<sigma> p)(k := insert a (g_heard \<sigma> p k))))"
  "g_heard_ack (a_count a p m \<sigma>) = (let k = an_number (s_nodes \<sigma> p) in
     (g_heard_ack \<sigma>)(p := (g_heard_ack \<sigma> p)
       (k := if is_ack m then insert a (g_heard_ack \<sigma> p k) else g_heard_ack \<sigma> p k)))"
  by (simp_all add: a_count_def Let_def)

lemma a_propose_fields [simp]:
  "s_nodes (a_propose P p v \<sigma>) =
     (s_nodes \<sigma>)(p := (s_nodes \<sigma> p)\<lparr>an_started := True, an_proposed := v\<rparr>)"
  "s_net (a_propose P p v \<sigma>) = s_net \<sigma> + to_all P p (AProp 0 v)"
  "s_decided (a_propose P p v \<sigma>) = s_decided \<sigma>"
  "g_initial (a_propose P p v \<sigma>) = (g_initial \<sigma>)(p := v)"
  "g_bcast (a_propose P p v \<sigma>) = (g_bcast \<sigma>)(p := (g_bcast \<sigma> p)(0 := v))"
  "g_acked (a_propose P p v \<sigma>) = g_acked \<sigma>"
  "g_heard (a_propose P p v \<sigma>) = g_heard \<sigma>"
  "g_heard_ack (a_propose P p v \<sigma>) = g_heard_ack \<sigma>"
  by (simp_all add: a_propose_def)

lemma a_accept_fields [simp]:
  "s_nodes (a_accept p a k v \<sigma>) = (s_nodes \<sigma>)(a := (s_nodes \<sigma> a)
     \<lparr>an_accepted := an_accepted (s_nodes \<sigma> a) \<union> v\<rparr>)"
  "s_net (a_accept p a k v \<sigma>) = s_net \<sigma> - {#(p, a, AProp k v)#} +
     {#(a, p, if an_accepted (s_nodes \<sigma> a) \<subseteq> v then AAck k
             else ANack k (an_accepted (s_nodes \<sigma> a) \<union> v))#}"
  "s_decided (a_accept p a k v \<sigma>) = s_decided \<sigma>"
  "g_initial (a_accept p a k v \<sigma>) = g_initial \<sigma>"
  "g_bcast (a_accept p a k v \<sigma>) = g_bcast \<sigma>"
  "g_acked (a_accept p a k v \<sigma>) =
     (if an_accepted (s_nodes \<sigma> a) \<subseteq> v then insert (a, p, k) (g_acked \<sigma>) else g_acked \<sigma>)"
  "g_heard (a_accept p a k v \<sigma>) = g_heard \<sigma>"
  "g_heard_ack (a_accept p a k v \<sigma>) = g_heard_ack \<sigma>"
  by (auto simp: a_accept_def Let_def fun_eq_iff sup.absorb2)

lemma count_answer_frame [simp]:
  "an_started (count_answer m n) = an_started n"
  "an_number (count_answer m n) = an_number n"
  "an_accepted (count_answer m n) = an_accepted n"
  "an_completed (count_answer m n) = an_completed n"
  by (cases m; simp)+

lemma issued_simps [simp]:
  "issued (a_accept p a k v \<sigma>) = issued \<sigma>"
  "issued (a_drop x \<sigma>) = issued \<sigma>"
  "issued (a_count a p m \<sigma>) = issued \<sigma>"
  "issued (a_decide p \<sigma>) = issued \<sigma>"
  by (simp_all add: fun_eq_iff issued_def)

lemma proposals_of_simps [simp]:
  "proposals_of (a_accept p a k v \<sigma>) = proposals_of \<sigma>"
  "proposals_of (a_drop x \<sigma>) = proposals_of \<sigma>"
  "proposals_of (a_count a p m \<sigma>) = proposals_of \<sigma>"
  "proposals_of (a_decide p \<sigma>) = proposals_of \<sigma>"
  "proposals_of (a_move P p \<sigma>) = proposals_of \<sigma>"
  by (auto simp: proposals_of_def split: if_splits)

lemma issued_propose:
  "\<not> an_started (s_nodes \<sigma> p) \<Longrightarrow> an_number (s_nodes \<sigma> p) = 0 \<Longrightarrow>
     issued (a_propose P p v \<sigma>) q k \<longleftrightarrow> issued \<sigma> q k \<or> (q = p \<and> k = 0)"
  by (auto simp: issued_def)

lemma issued_move:
  "an_started (s_nodes \<sigma> p) \<Longrightarrow>
     issued (a_move P p \<sigma>) q k \<longleftrightarrow> issued \<sigma> q k \<or> (q = p \<and> k = Suc (an_number (s_nodes \<sigma> p)))"
  by (auto simp: issued_def)

lemma proposals_of_propose:
  "\<not> an_started (s_nodes \<sigma> p) \<Longrightarrow> proposals_of (a_propose P p v \<sigma>) = proposals_of \<sigma> \<union> v"
  by (auto simp: proposals_of_def split: if_splits)

lemma inv_tok_step:
  assumes "inv_tok \<sigma>" and "\<And>p k. issued \<sigma> p k \<Longrightarrow> issued \<tau> p k"
    and "\<And>p a k. exch \<tau> p a k \<le> exch \<sigma> p a k + (if issued \<tau> p k \<and> \<not> issued \<sigma> p k then 1 else 0)"
  shows "inv_tok \<tau>"
  unfolding inv_tok_def
proof (intro allI)
  fix p a k
  have "exch \<sigma> p a k \<le> (if issued \<sigma> p k then 1 else 0)"
    using assms(1) by (simp add: inv_tok_def)
  then show "exch \<tau> p a k \<le> (if issued \<tau> p k then 1 else 0)"
    using assms(3) [of p a k] assms(2) [of p k] by (auto split: if_splits)
qed

lemma unissued_unheard: "inv_tok \<sigma> \<Longrightarrow> \<not> issued \<sigma> p k \<Longrightarrow> g_heard \<sigma> p k = {}"
proof (rule ccontr)
  assume inv: "inv_tok \<sigma>" and no: "\<not> issued \<sigma> p k" and "g_heard \<sigma> p k \<noteq> {}"
  then obtain a where "a \<in> g_heard \<sigma> p k" by blast
  moreover have "exch \<sigma> p a k \<le> 0" using inv no by (metis inv_tok_def)
  ultimately show False by (simp add: exch_def)
qed

lemma node_ok_frame:
  assumes "node_ok P \<sigma> q" and "proposals_of \<sigma> \<subseteq> proposals_of \<tau>"
    and "s_nodes \<tau> q = (s_nodes \<sigma> q)\<lparr>an_accepted := A\<rparr>"
    and "g_bcast \<tau> q = g_bcast \<sigma> q" and "g_heard \<tau> q = g_heard \<sigma> q"
    and "g_heard_ack \<tau> q = g_heard_ack \<sigma> q"
  shows "node_ok P \<tau> q"
  using assms(1,2) unfolding node_ok_def Let_def assms(3-6)
  by (simp split: if_splits) (metis subset_trans)+

lemma core_invD:
  assumes "core_inv P \<sigma>"
  shows "inv_msgs P \<sigma>" "inv_acked P \<sigma>" "inv_tok \<sigma>" "inv_heard P \<sigma>" "node_ok P \<sigma> q"
    "inv_values \<sigma>" "inv_decided P \<sigma>"
  using assms by (simp_all add: core_inv_def)

subsection \<open>An ignored answer\<close>

lemma core_inv_drop:
  assumes inv: "core_inv P \<sigma>"
  shows "core_inv P (a_drop x \<sigma>)"
proof -
  note invs = core_invD [OF inv]
  have "tok (s_net \<sigma> - {#x#}) p a k \<le> tok (s_net \<sigma>) p a k" for p a k
    by (simp add: tok_def size_mset_mono multiset_filter_mono)
  then have "inv_tok (a_drop x \<sigma>)"
    by (intro inv_tok_step [OF invs(3)]) (simp_all add: exch_def)
  moreover have "inv_msgs P (a_drop x \<sigma>)"
    using invs(1) by (rule inv_msgs_extend) (auto simp: extends_def dest: in_diffD)
  moreover have "node_ok P (a_drop x \<sigma>) q" for q
    by (intro node_ok_frame [OF invs(5), where A = "an_accepted (s_nodes \<sigma> q)"]) simp_all
  ultimately show ?thesis
    using invs by (simp add: core_inv_def inv_acked_def inv_heard_def inv_values_def inv_decided_def)
qed

subsection \<open>Proposing\<close>

lemma core_inv_propose:
  assumes inv: "core_inv P \<sigma>" and fin: "finite P"
    and p: "p \<in> P" "\<not> an_started (s_nodes \<sigma> p)" and v: "finite v" "v \<noteq> {}"
  shows "core_inv P (a_propose P p v \<sigma>)"
proof -
  let ?\<tau> = "a_propose P p v \<sigma>"
  note invs = core_invD [OF inv]
  have node: "node_ok P \<sigma> p" by (rule invs)
  then have k0: "an_number (s_nodes \<sigma> p) = 0" using p by (simp add: node_ok_def Let_def)
  note iss = issued_propose [OF p(2) k0] and props = proposals_of_propose [OF p(2)]
  have niss: "\<not> issued \<sigma> p k" for k using p by (simp add: issued_def)
  have unheard: "g_heard \<sigma> p k = {}" for k using unissued_unheard [OF invs(3) niss] .
  have "g_heard_ack \<sigma> p k \<subseteq> g_heard \<sigma> p k" for k using invs(4) by (simp add: inv_heard_def)
  with unheard have unheard': "g_heard_ack \<sigma> p k = {}" for k by simp
  have ext: "extends \<sigma> ?\<tau>"
    using niss by (auto simp: extends_def iss props)
  have "inv_msgs P ?\<tau>"
    using invs(1) ext by (rule inv_msgs_extend) (use p fin in \<open>auto simp: in_to_all iss\<close>)
  moreover have "inv_tok ?\<tau>"
    using invs(3) by (rule inv_tok_step) (auto simp: exch_def iss tok_to_all [OF fin] niss)
  moreover have "inv_acked P ?\<tau>"
    using invs(2) niss by (auto simp: inv_acked_def iss)
  moreover have "inv_heard P ?\<tau>"
    using invs(4) by (simp add: inv_heard_def)
  moreover have "node_ok P ?\<tau> q" for q
  proof (cases "q = p")
    case True
    then show ?thesis
      using p v unheard unheard' node k0 by (simp add: node_ok_def Let_def props)
  next
    case False
    then show ?thesis
      by (intro node_ok_frame [OF invs(5), where A = "an_accepted (s_nodes \<sigma> q)"]) (simp_all add: props)
  qed
  moreover have "inv_values ?\<tau>"
    using invs(6) niss v by (auto simp: inv_values_def iss props card_gt_0_iff) blast+
  moreover have "inv_decided P ?\<tau>"
    using invs(7) p by (auto simp: inv_decided_def Let_def)
  ultimately show ?thesis by (simp add: core_inv_def)
qed

subsection \<open>Accepting\<close>

lemma core_inv_accept:
  assumes inv: "core_inv P \<sigma>" and x: "(p, a, AProp k v) \<in># s_net \<sigma>"
  shows "core_inv P (a_accept p a k v \<sigma>)"
proof -
  let ?\<tau> = "a_accept p a k v \<sigma>"
  note invs = core_invD [OF inv]
  have m: "p \<in> P" "a \<in> P" "issued \<sigma> p k" "v = g_bcast \<sigma> p k"
    using invs(1) x by (auto simp: inv_msgs_def)
  have ext: "extends \<sigma> ?\<tau>" by (auto simp: extends_def)
  have vals: "v \<subseteq> proposals_of \<sigma>" "finite v" "an_accepted (s_nodes \<sigma> a) \<subseteq> proposals_of \<sigma>"
    "finite (an_accepted (s_nodes \<sigma> a))"
    using invs(6) m by (auto simp: inv_values_def)
  have "msg_ok P ?\<tau> (a, p, if an_accepted (s_nodes \<sigma> a) \<subseteq> v then AAck k
             else ANack k (an_accepted (s_nodes \<sigma> a) \<union> v))"
    using m vals by simp
  then have "inv_msgs P ?\<tau>"
    by (intro inv_msgs_extend [OF invs(1) ext]) (auto dest: in_diffD simp del: msg_ok.simps)
  moreover have "inv_tok ?\<tau>"
  proof (rule inv_tok_step [OF invs(3)])
    fix q b j
    show "exch ?\<tau> q b j \<le> exch \<sigma> q b j + (if issued ?\<tau> q j \<and> \<not> issued \<sigma> q j then 1 else 0)"
      using tok_remove [OF x, of q b j] by (auto simp: exch_def split: if_splits)
  qed simp
  moreover have "inv_acked P ?\<tau>"
  proof (cases "an_accepted (s_nodes \<sigma> a) \<subseteq> v")
    case True
    then have "g_bcast \<sigma> q j \<subseteq> g_bcast \<sigma> p k" if "(a, q, j) \<in> g_acked \<sigma>" for q j
      using that invs(2) m(4) unfolding inv_acked_def by blast
    with True show ?thesis using invs(2) m unfolding inv_acked_def by auto
  next
    case False
    then show ?thesis using invs(2) unfolding inv_acked_def by auto
  qed
  moreover have "inv_heard P ?\<tau>"
    using invs(4) by (auto simp: inv_heard_def)
  moreover have "node_ok P ?\<tau> q" for q
    by (intro node_ok_frame [OF invs(5), where A = "an_accepted (s_nodes ?\<tau> q)"]) simp_all
  moreover have "inv_values ?\<tau>"
    using invs(6) vals by (auto simp: inv_values_def)
  moreover have "inv_decided P ?\<tau>"
    using invs(7) by (auto simp: inv_decided_def Let_def)
  ultimately show ?thesis by (simp add: core_inv_def)
qed

subsection \<open>Counting an answer, deciding, moving on\<close>

text \<open>The answer that is being counted was not heard before.\<close>

lemma answer_not_heard:
  assumes inv: "core_inv P \<sigma>" and x: "(a, p, m) \<in># s_net \<sigma>" and nprop: "\<not> is_prop m"
  shows "a \<notin> g_heard \<sigma> p (answer_number m)"
proof
  let ?k = "answer_number m"
  assume "a \<in> g_heard \<sigma> p ?k"
  moreover have "exch \<sigma> p a ?k \<le> 1"
    using core_invD(3) [OF inv] unfolding inv_tok_def by (metis le_zero_eq nle_le zero_le)
  ultimately have "tok (s_net \<sigma>) p a ?k = 0" by (simp add: exch_def)
  moreover have "about p a ?k (a, p, m)" using nprop by (cases m) auto
  ultimately show False using tok_remove [OF x, of p a ?k] by simp
qed

lemma node_ok_count:
  assumes inv: "core_inv P \<sigma>" and x: "(a, p, m) \<in># s_net \<sigma>" and nprop: "\<not> is_prop m"
    and open_round: "\<not> an_completed (s_nodes \<sigma> p)" and current: "an_number (s_nodes \<sigma> p) = answer_number m"
    and fin: "finite P"
  shows "node_ok P (a_count a p m \<sigma>) p"
proof -
  let ?k = "an_number (s_nodes \<sigma> p)"
  have ok: "msg_ok P \<sigma> (a, p, m)" using core_invD(1) [OF inv] x by (simp add: inv_msgs_def)
  then have m: "p \<in> P" "an_started (s_nodes \<sigma> p)" using nprop by (cases m; simp add: issued_def)+
  have node: "node_ok P \<sigma> p" by (rule core_invD [OF inv])
  have new: "a \<notin> g_heard \<sigma> p ?k" using answer_not_heard [OF inv x nprop] current by simp
  have heard: "g_heard_ack \<sigma> p ?k \<subseteq> g_heard \<sigma> p ?k" "finite (g_heard \<sigma> p ?k)"
    using core_invD(4) [OF inv] fin unfolding inv_heard_def by (simp, meson finite_subset)
  then have new': "a \<notin> g_heard_ack \<sigma> p ?k" "finite (g_heard_ack \<sigma> p ?k)"
    using new by (auto intro: finite_subset)
  show ?thesis
  proof (cases m)
    case (ANack j w)
    then have w: "\<not> w \<subseteq> g_bcast \<sigma> p ?k" "w \<subseteq> proposals_of \<sigma>" "finite w"
      using ok current by auto
    then have "an_proposed (s_nodes \<sigma> p) \<union> w \<noteq> g_bcast \<sigma> p ?k" by blast
    with ANack w node show ?thesis
      using m new heard open_round by (simp add: node_ok_def Let_def le_supI1)
  qed (use node m new new' heard open_round nprop in
      \<open>auto simp: node_ok_def Let_def split: if_splits\<close>)
qed

lemma core_inv_count:
  assumes inv: "core_inv P \<sigma>" and x: "(a, p, m) \<in># s_net \<sigma>" and nprop: "\<not> is_prop m"
    and open_round: "\<not> an_completed (s_nodes \<sigma> p)" and current: "an_number (s_nodes \<sigma> p) = answer_number m"
    and fin: "finite P"
  shows "core_inv P (a_count a p m \<sigma>)"
proof -
  let ?\<tau> = "a_count a p m \<sigma>" and ?k = "an_number (s_nodes \<sigma> p)"
  note invs = core_invD [OF inv]
  have ok: "msg_ok P \<sigma> (a, p, m)" using invs(1) x by (simp add: inv_msgs_def)
  then have m: "a \<in> P" using nprop by (cases m) simp_all
  have abt: "about q b j (a, p, m) \<longleftrightarrow> q = p \<and> b = a \<and> j = ?k" for q b j
    using nprop current by (cases m) auto
  have new: "a \<notin> g_heard \<sigma> p ?k" using answer_not_heard [OF inv x nprop] current by simp
  have "inv_msgs P ?\<tau>"
    using invs(1) by (rule inv_msgs_extend) (auto simp: extends_def dest: in_diffD)
  moreover have "inv_acked P ?\<tau>"
    using invs(2) by (simp add: inv_acked_def)
  moreover have "inv_tok ?\<tau>"
  proof (rule inv_tok_step [OF invs(3)])
    fix q b j
    show "exch ?\<tau> q b j \<le> exch \<sigma> q b j + (if issued ?\<tau> q j \<and> \<not> issued \<sigma> q j then 1 else 0)"
      using tok_remove [OF x, of q b j] new by (auto simp: exch_def abt Let_def split: if_splits)
  qed simp
  moreover have "inv_heard P ?\<tau>"
  proof -
    have "(a, p, ?k) \<in> g_acked \<sigma>" if "is_ack m" using that ok current by (cases m) auto
    then show ?thesis
      using invs(4) m unfolding inv_heard_def by (auto simp: Let_def split: if_splits) blast
  qed
  moreover have "node_ok P ?\<tau> q" for q
  proof (cases "q = p")
    case True
    then show ?thesis using node_ok_count [OF assms] by simp
  next
    case False
    then show ?thesis
      by (intro node_ok_frame [OF invs(5), where A = "an_accepted (s_nodes \<sigma> q)"]) (simp_all add: Let_def)
  qed
  moreover have "inv_values ?\<tau>"
    using invs(6) by (auto simp: inv_values_def)
  moreover have "inv_decided P ?\<tau>"
    using invs(7) open_round by (fastforce simp: inv_decided_def Let_def)
  ultimately show ?thesis by (simp add: core_inv_def)
qed
lemma core_inv_decide:
  assumes inv: "core_inv P \<sigma>" and started: "an_started (s_nodes \<sigma> p)"
    and open_round: "\<not> an_completed (s_nodes \<sigma> p)" and no_nack: "an_nacks (s_nodes \<sigma> p) = 0"
    and maj: "amajority P \<le> an_acks (s_nodes \<sigma> p)"
  shows "core_inv P (a_decide p \<sigma>)"
proof -
  let ?\<tau> = "a_decide p \<sigma>"
  note invs = core_invD [OF inv]
  have p: "an_proposed (s_nodes \<sigma> p) = g_bcast \<sigma> p (an_number (s_nodes \<sigma> p))"
    "an_acks (s_nodes \<sigma> p) = card (g_heard_ack \<sigma> p (an_number (s_nodes \<sigma> p)))" "p \<in> P"
    using invs(5) [of p] started open_round no_nack by (auto simp: node_ok_def Let_def)
  have "inv_msgs P ?\<tau>"
    using invs(1) by (rule inv_msgs_extend) (auto simp: extends_def)
  moreover have "inv_tok ?\<tau>"
    using invs(3) by (rule inv_tok_step) (auto simp: exch_def)
  moreover have "node_ok P ?\<tau> q" for q
  proof (cases "q = p")
    case True
    then show ?thesis using p started by (simp add: node_ok_def Let_def)
  next
    case False
    then show ?thesis
      by (intro node_ok_frame [OF invs(5), where A = "an_accepted (s_nodes \<sigma> q)"]) simp_all
  qed
  moreover have "inv_acked P ?\<tau>" "inv_heard P ?\<tau>" "inv_values ?\<tau>"
    using invs by (auto simp: inv_acked_def inv_heard_def inv_values_def)
  moreover have "inv_decided P ?\<tau>"
    using invs(7) p started maj by (auto simp: inv_decided_def Let_def)
  ultimately show ?thesis by (simp add: core_inv_def)
qed

lemma core_inv_move:
  assumes inv: "core_inv P \<sigma>" and fin: "finite P" and started: "an_started (s_nodes \<sigma> p)"
    and open_round: "\<not> an_completed (s_nodes \<sigma> p)" and nack: "an_nacks (s_nodes \<sigma> p) > 0"
  shows "core_inv P (a_move P p \<sigma>)"
proof -
  let ?\<tau> = "a_move P p \<sigma>" and ?k = "an_number (s_nodes \<sigma> p)" and ?V = "an_proposed (s_nodes \<sigma> p)"
  note invs = core_invD [OF inv]
  note iss = issued_move [OF started]
  have p: "p \<in> P" "g_bcast \<sigma> p ?k \<subset> ?V" "?V \<subseteq> proposals_of \<sigma>" "finite ?V"
    using invs(5) [of p] started open_round nack by (auto simp: node_ok_def Let_def)
  have B: "?k < card (g_bcast \<sigma> p ?k)" "g_initial \<sigma> p \<subseteq> g_bcast \<sigma> p ?k"
    using invs(6) started by (auto simp: inv_values_def issued_def)
  then have card: "Suc ?k < card ?V" using psubset_card_mono [OF p(4) p(2)] by simp
  have niss: "\<not> issued \<sigma> p (Suc ?k)" by (simp add: issued_def)
  have unheard: "g_heard \<sigma> p (Suc ?k) = {}" using unissued_unheard [OF invs(3) niss] .
  have "g_heard_ack \<sigma> p (Suc ?k) \<subseteq> g_heard \<sigma> p (Suc ?k)" using invs(4) by (simp add: inv_heard_def)
  with unheard have unheard': "g_heard_ack \<sigma> p (Suc ?k) = {}" by simp
  have ext: "extends \<sigma> ?\<tau>"
    using niss by (auto simp: extends_def iss)
  have "inv_msgs P ?\<tau>"
    using invs(1) ext by (rule inv_msgs_extend) (use p fin in \<open>auto simp: in_to_all iss\<close>)
  moreover have "inv_tok ?\<tau>"
    using invs(3) by (rule inv_tok_step) (auto simp: exch_def iss tok_to_all [OF fin] niss)
  moreover have "inv_acked P ?\<tau>"
    using invs(2) niss unfolding inv_acked_def by (auto simp: iss)
  moreover have "inv_heard P ?\<tau>"
    using invs(4) by (simp add: inv_heard_def)
  moreover have "node_ok P ?\<tau> q" for q
  proof (cases "q = p")
    case True
    then show ?thesis
      using p started unheard unheard' by (simp add: node_ok_def Let_def)
  next
    case False
    then show ?thesis
      by (intro node_ok_frame [OF invs(5), where A = "an_accepted (s_nodes \<sigma> q)"]) simp_all
  qed
  moreover have "inv_values ?\<tau>"
    using invs(6) niss p card B unfolding inv_values_def by (auto simp: iss)
  moreover have "inv_decided P ?\<tau>"
    using invs(7) open_round by (fastforce simp: inv_decided_def Let_def)
  ultimately show ?thesis by (simp add: core_inv_def)
qed

section \<open>Reachable states\<close>

lemma a_inv_check:
  assumes core: "core_inv P \<tau>" and fin: "finite P" and started: "an_started (s_nodes \<tau> p)"
    and open_round: "\<not> an_completed (s_nodes \<tau> p)" and others: "\<And>q. q \<noteq> p \<Longrightarrow> settled P \<tau> q"
    and first_majority: "amajority P \<le> an_acks (s_nodes \<tau> p) \<Longrightarrow> an_nacks (s_nodes \<tau> p) = 0"
  shows "a_inv P (a_check P p \<tau>)"
proof -
  consider (decide) "amajority P \<le> an_acks (s_nodes \<tau> p)"
    | (move) "an_acks (s_nodes \<tau> p) < amajority P" "an_nacks (s_nodes \<tau> p) > 0"
        "amajority P \<le> an_acks (s_nodes \<tau> p) + an_nacks (s_nodes \<tau> p)"
    | (wait) "an_acks (s_nodes \<tau> p) < amajority P"
        "an_nacks (s_nodes \<tau> p) > 0 \<longrightarrow> an_acks (s_nodes \<tau> p) + an_nacks (s_nodes \<tau> p) < amajority P"
    by linarith
  then show ?thesis
  proof cases
    case decide
    then have "core_inv P (a_decide p \<tau>)"
      using core_inv_decide [OF core started open_round first_majority] by simp
    then show ?thesis
      using decide others by (auto simp: a_check_def a_inv_def settled_def)
  next
    case move
    then have "core_inv P (a_move P p \<tau>)"
      using core_inv_move [OF core fin started open_round] by blast
    then show ?thesis
      using move others by (auto simp: a_check_def a_inv_def settled_def amajority_def)
  next
    case wait
    then have "settled P \<tau> p" "a_check P p \<tau> = \<tau>"
      by (auto simp: settled_def a_check_def Let_def)
    then show ?thesis using core others by (metis a_inv_def)
  qed
qed

lemma a_inv_answer:
  assumes inv: "a_inv P \<sigma>" and fin: "finite P" and x: "(a, p, m) \<in># s_net \<sigma>" and nprop: "\<not> is_prop m"
  shows "a_inv P (a_answer P a p m \<sigma>)"
proof (cases "an_completed (s_nodes \<sigma> p) \<or> an_number (s_nodes \<sigma> p) \<noteq> answer_number m")
  case True
  then show ?thesis
    using inv core_inv_drop [of P \<sigma>] by (simp add: a_answer_def a_inv_def settled_def)
next
  case False
  then have open_round: "\<not> an_completed (s_nodes \<sigma> p)"
    and current: "an_number (s_nodes \<sigma> p) = answer_number m" by simp_all
  let ?\<tau> = "a_count a p m \<sigma>"
  have core: "core_inv P ?\<tau>"
    using inv x nprop open_round current fin by (intro core_inv_count) (simp_all add: a_inv_def)
  have "msg_ok P \<sigma> (a, p, m)" using inv x by (simp add: a_inv_def core_inv_def inv_msgs_def)
  then have started: "an_started (s_nodes ?\<tau> p)" using nprop by (cases m) (auto simp: issued_def)
  have before: "settled P \<sigma> q" for q using inv by (simp add: a_inv_def)
  have others: "q \<noteq> p \<Longrightarrow> settled P ?\<tau> q" for q using before [of q] by (simp add: settled_def)
  have still_open: "\<not> an_completed (s_nodes ?\<tau> p)" using open_round by simp
  have "an_nacks (s_nodes ?\<tau> p) = 0" if "amajority P \<le> an_acks (s_nodes ?\<tau> p)"
    using that before [of p] open_round by (cases m) (auto simp: settled_def Let_def)
  note a_inv_check [OF core fin started still_open others this]
  with False show ?thesis by (simp add: a_answer_def)
qed

lemma a_inv_step:
  assumes "a_step P \<sigma> \<tau>" and "finite P" and "a_inv P \<sigma>"
  shows "a_inv P \<tau>"
  using assms
proof (induction rule: a_step.induct)
  case (propose p \<sigma> v)
  then have "node_ok P \<sigma> p" by (simp add: a_inv_def core_inv_def)
  then have "an_acks (s_nodes \<sigma> p) = 0" "an_nacks (s_nodes \<sigma> p) = 0"
    using propose by (auto simp: node_ok_def Let_def)
  with propose show ?case
    by (auto simp: a_inv_def settled_def amajority_def intro!: core_inv_propose)
next
  case (accept p a k v \<sigma>)
  then show ?case by (auto simp: a_inv_def settled_def Let_def intro!: core_inv_accept)
next
  case (answer a p m \<sigma>)
  then show ?case by (intro a_inv_answer)
qed

lemma a_inv_init: "a_inv P asys_init"
  by (simp add: a_inv_def core_inv_def inv_msgs_def inv_acked_def inv_tok_def inv_heard_def node_ok_def
      inv_values_def inv_decided_def settled_def asys_init_def anode_init_def exch_def tok_def
      issued_def amajority_def)

lemma a_reach_inv: "a_reach P \<sigma> \<Longrightarrow> finite P \<Longrightarrow> a_inv P \<sigma>"
  by (induction rule: a_reach.induct) (auto intro: a_inv_init a_inv_step)

section \<open>What one round promises\<close>

lemma a_decided_quorum:
  assumes "a_inv P \<sigma>" and "finite P" and "(p, d) \<in> s_decided \<sigma>"
  shows "\<exists>Q k. majority_of P Q \<and> issued \<sigma> p k \<and> d = g_bcast \<sigma> p k \<and> (\<forall>a\<in>Q. (a, p, k) \<in> g_acked \<sigma>)"
proof (intro exI conjI)
  let ?k = "an_number (s_nodes \<sigma> p)"
  have dec: "d = g_bcast \<sigma> p ?k" "an_started (s_nodes \<sigma> p)" "amajority P \<le> card (g_heard_ack \<sigma> p ?k)"
    using assms by (auto simp: a_inv_def core_inv_def inv_decided_def Let_def)
  have heard: "g_heard_ack \<sigma> p ?k \<subseteq> P" "\<forall>a\<in>g_heard_ack \<sigma> p ?k. (a, p, ?k) \<in> g_acked \<sigma>"
    using assms(1) unfolding a_inv_def core_inv_def inv_heard_def by blast+
  show "majority_of P (g_heard_ack \<sigma> p ?k)"
    using heard(1) dec(3) assms(2) by (simp add: majority_of_def amajority_def)
  show "issued \<sigma> p ?k" using dec(2) by (simp add: issued_def)
  show "d = g_bcast \<sigma> p ?k" by (rule dec)
  show "\<forall>a\<in>g_heard_ack \<sigma> p ?k. (a, p, ?k) \<in> g_acked \<sigma>" by (rule heard)
qed

lemma a_decided_comparable:
  assumes inv: "a_inv P \<sigma>" and fin: "finite P"
    and "(p, d) \<in> s_decided \<sigma>" and "(q, e) \<in> s_decided \<sigma>"
  shows "d \<subseteq> e \<or> e \<subseteq> d"
proof -
  obtain Q k where Q: "majority_of P Q" "d = g_bcast \<sigma> p k" "\<forall>a\<in>Q. (a, p, k) \<in> g_acked \<sigma>"
    using a_decided_quorum [OF inv fin assms(3)] by blast
  obtain R j where R: "majority_of P R" "e = g_bcast \<sigma> q j" "\<forall>a\<in>R. (a, q, j) \<in> g_acked \<sigma>"
    using a_decided_quorum [OF inv fin assms(4)] by blast
  have "g_bcast \<sigma> p k \<subseteq> g_bcast \<sigma> q j \<or> g_bcast \<sigma> q j \<subseteq> g_bcast \<sigma> p k"
    by (rule majority.vouchers_related [OF Q(1) R(1), of "\<lambda>a (r, i). (a, r, i) \<in> g_acked \<sigma>" "(p, k)"
          "(q, j)" "\<lambda>(r, i) (s, l). g_bcast \<sigma> r i \<subseteq> g_bcast \<sigma> s l \<or> g_bcast \<sigma> s l \<subseteq> g_bcast \<sigma> r i",
          simplified])
      (use Q(3) R(3) inv in \<open>auto simp: a_inv_def core_inv_def inv_acked_def\<close>)
  then show ?thesis using Q(2) R(2) by simp
qed

lemma a_decided_valid:
  assumes inv: "a_inv P \<sigma>" and "finite P" and "(p, d) \<in> s_decided \<sigma>"
  shows "g_initial \<sigma> p \<subseteq> d" and "d \<subseteq> proposals_of \<sigma>" and "an_started (s_nodes \<sigma> p)"
proof -
  obtain k where k: "issued \<sigma> p k" "d = g_bcast \<sigma> p k" using a_decided_quorum [OF assms] by blast
  have "inv_values \<sigma>" using inv by (simp add: a_inv_def core_inv_def)
  with k show "g_initial \<sigma> p \<subseteq> d" "d \<subseteq> proposals_of \<sigma>" by (auto simp: inv_values_def)
  show "an_started (s_nodes \<sigma> p)" using k(1) by (simp add: issued_def)
qed

lemma a_decided_unique:
  assumes "a_inv P \<sigma>" and "(p, d) \<in> s_decided \<sigma>" and "(p, e) \<in> s_decided \<sigma>"
  shows "d = e"
  using assms unfolding a_inv_def core_inv_def inv_decided_def Let_def by metis

end
