(* ===== verification/Lattice_System.thy ===== *)
theory Lattice_System
  imports Lattice_Agreement Lattice_Spec
begin

text \<open>
  Lattice agreement across processes. The processes run the handlers of
  \<open>Lattice_Agreement\<close> on a network that delivers every message at most once and in any
  order, which is what the reliable transport promises; every process proposes its rounds
  in order, as the application does. A step is one call of \<open>Propose\<close> or the delivery of
  one message. Each round of a run is simulated by the abstract protocol of
  \<open>Lattice_Spec\<close>, which carries its guarantees over to the decisions of the code.
\<close>

section \<open>The system\<close>

record la_system =
  ls_nodes :: "PeerID \<Rightarrow> LatticeAgreement"
  ls_net :: "(PeerID \<times> PeerID \<times> LAPayload) multiset"
  ls_decisions :: "(PeerID \<times> RoundID \<times> ProposalT) list"
  ls_proposed :: "PeerID \<Rightarrow> ProposalT list"

definition ls_init :: "(PeerID \<Rightarrow> HostsTable) \<Rightarrow> la_system" where
  "ls_init hosts = \<lparr>ls_nodes = (\<lambda>p. LatticeAgreement_init (hosts p)), ls_net = {#},
     ls_decisions = [], ls_proposed = (\<lambda>_. [])\<rparr>"

fun effect_sends :: "PeerID \<Rightarrow> LAPayload LAEffect list \<Rightarrow> (PeerID \<times> PeerID \<times> LAPayload) multiset" where
  "effect_sends p [] = {#}"
| "effect_sends p (LASend q m # es) = add_mset (p, q, m) (effect_sends p es)"
| "effect_sends p (_ # es) = effect_sends p es"

fun effect_decisions :: "PeerID \<Rightarrow> 'm LAEffect list \<Rightarrow> (PeerID \<times> RoundID \<times> ProposalT) list" where
  "effect_decisions p [] = []"
| "effect_decisions p (LACallback r v # es) = (p, r, v) # effect_decisions p es"
| "effect_decisions p (_ # es) = effect_decisions p es"

definition ls_apply :: "PeerID \<Rightarrow> LatticeAgreement \<Rightarrow> LAPayload LAEffect list \<Rightarrow> la_system \<Rightarrow> la_system" where
  "ls_apply p la es \<sigma> = \<sigma>\<lparr>ls_nodes := (ls_nodes \<sigma>)(p := la), ls_net := ls_net \<sigma> + effect_sends p es,
     ls_decisions := ls_decisions \<sigma> @ effect_decisions p es\<rparr>"

text \<open>
  What the application hands to \<open>Propose\<close>: fresh proposals (number 0) of the next rounds,
  each a non-empty set written without repetition.
\<close>

definition proposal_batch :: "la_system \<Rightarrow> PeerID \<Rightarrow> ProposalMessage \<Rightarrow> bool" where
  "proposal_batch \<sigma> p m \<longleftrightarrow>
     unat (pm_first_round_id m) = length (ls_proposed \<sigma> p) \<and>
     length (ls_proposed \<sigma> p) + length (proposals m) \<le> 4294967296 \<and>
     (\<forall>x\<in>set (proposals m). active_proposal_number x = 0 \<and> distinct (proposed_value x) \<and>
        proposed_value x \<noteq> [])"

inductive ls_step :: "PeerID set \<Rightarrow> la_system \<Rightarrow> la_system \<Rightarrow> bool" for P where
  propose: "p \<in> P \<Longrightarrow> proposal_batch \<sigma> p m \<Longrightarrow> Propose m (ls_nodes \<sigma> p) = Inr (la, fs, es) \<Longrightarrow>
     ls_step P \<sigma> ((ls_apply p la es \<sigma>)\<lparr>ls_proposed := (ls_proposed \<sigma>)
       (p := ls_proposed \<sigma> p @ map proposed_value (proposals m))\<rparr>)"
| deliver: "(s, d, m) \<in># ls_net \<sigma> \<Longrightarrow> HandlePayload s m (ls_nodes \<sigma> d) = (la, es) \<Longrightarrow>
     ls_step P \<sigma> (ls_apply d la es (\<sigma>\<lparr>ls_net := ls_net \<sigma> - {#(s, d, m)#}\<rparr>))"

inductive ls_reach :: "PeerID set \<Rightarrow> (PeerID \<Rightarrow> HostsTable) \<Rightarrow> la_system \<Rightarrow> bool" for P hosts where
  start: "ls_reach P hosts (ls_init hosts)"
| step: "ls_reach P hosts \<sigma> \<Longrightarrow> ls_step P \<sigma> \<tau> \<Longrightarrow> ls_reach P hosts \<tau>"

definition same_network :: "PeerID set \<Rightarrow> (PeerID \<Rightarrow> HostsTable) \<Rightarrow> bool" where
  "same_network P hosts \<longleftrightarrow> (\<forall>p\<in>P. enumerates (hosts p) P \<and> localID (hosts p) = p)"

section \<open>Batches\<close>

definition in_batch :: "nat \<Rightarrow> RoundID \<Rightarrow> 'a list \<Rightarrow> bool" where
  "in_batch r first xs \<longleftrightarrow> unat first \<le> r \<and> r < unat first + length xs"

definition batch_fits :: "RoundID \<Rightarrow> 'a list \<Rightarrow> bool" where
  "batch_fits first xs \<longleftrightarrow> unat first + length xs \<le> 4294967296"

lemma batch_fits_Cons:
  assumes "batch_fits first (x # xs)" and "xs \<noteq> []"
  shows "unat (first + 1) = Suc (unat first)" and "batch_fits (first + 1) xs"
proof -
  have "unat first + 1 < 4294967296" using assms by (cases xs) (auto simp: batch_fits_def)
  then show "unat (first + 1) = Suc (unat first)" by (simp add: unat_add_one_u32)
  then show "batch_fits (first + 1) xs" using assms(1) by (simp add: batch_fits_def)
qed

lemma batch_fits_tl:
  assumes "batch_fits first (x # xs)"
  shows "batch_fits (first + 1) xs"
proof (cases "xs = []")
  case True
  then show ?thesis using unat_u32_bound [of "first + 1"] by (simp add: batch_fits_def)
next
  case False
  then show ?thesis using batch_fits_Cons [OF assms] by simp
qed

lemma in_batch_Cons:
  assumes "batch_fits first (x # xs)"
  shows "in_batch r first (x # xs) \<longleftrightarrow> r = unat first \<or> in_batch r (first + 1) xs"
    and "in_batch r (first + 1) xs \<Longrightarrow> unat first < r \<and> r - unat first = Suc (r - unat (first + 1))"
  using batch_fits_Cons [OF assms] by (cases "xs = []"; auto simp: in_batch_def)+

lemma HandleProposals_view:
  assumes "batch_fits first ps"
  shows "round_view (fst (HandleProposals first ps la)) r =
      (if in_batch r first ps
       then (round_view la r)\<lparr>rs_accepted_value := accept_update (rs_accepted_value (round_view la r))
              (proposed_value (ps ! (r - unat first)))\<rparr>
       else round_view la r)"
    and "config (fst (HandleProposals first ps la)) = config la"
    and "length (snd (HandleProposals first ps la)) = length ps"
    and "in_batch r first ps \<Longrightarrow> snd (HandleProposals first ps la) ! (r - unat first) =
      answer_to (ps ! (r - unat first)) (rs_accepted_value (round_view la r))"
  using assms
proof (induction ps arbitrary: first la)
  case Nil
  {
    case 1
    then show ?case by (auto simp: in_batch_def)
  next
    case 2
    then show ?case by simp
  next
    case 3
    then show ?case by simp
  next
    case 4
    then show ?case by (auto simp: in_batch_def)
  }
next
  case (Cons p ps)
  {
    case 1
    note IH = Cons.IH(1) [OF batch_fits_tl [OF 1]]
    show ?case
      using in_batch_Cons [OF 1, of r]
      by (auto simp: case_prod_beta Let_def IH HandlePropose_view in_batch_def)
  next
    case 2
    note IH = Cons.IH(2) [OF batch_fits_tl [OF 2]]
    show ?case by (simp add: case_prod_beta Let_def IH HandlePropose_view)
  next
    case 3
    note IH = Cons.IH(3) [OF batch_fits_tl [OF 3]]
    show ?case by (simp add: case_prod_beta Let_def IH)
  next
    case 4
    note IH = Cons.IH(4) [OF _ batch_fits_tl [OF 4(2)]]
    show ?case
      using in_batch_Cons [OF 4(2), of r] 4(1)
      by (auto simp: case_prod_beta Let_def IH HandlePropose_view)
  }
qed

section \<open>Projection to one round\<close>

definition proj_accept :: "Accept \<Rightarrow> u32 amsg option" where
  "proj_accept a =
     (if acc_status a = kAck then Some (AAck (unat (acc_proposal_number a)))
      else if acc_status a = kNack then
        Some (ANack (unat (acc_proposal_number a)) (set (acc_accepted_value a)))
      else None)"

definition proj_proposal :: "Proposal \<Rightarrow> u32 amsg" where
  "proj_proposal p = AProp (unat (active_proposal_number p)) (set (proposed_value p))"

fun proj :: "nat \<Rightarrow> LAPayload \<Rightarrow> u32 amsg option" where
  "proj r (ProposalPayload m) =
     (if in_batch r (pm_first_round_id m) (proposals m)
      then Some (proj_proposal (proposals m ! (r - unat (pm_first_round_id m)))) else None)"
| "proj r (AcceptPayload m) =
     (if in_batch r (am_first_round_id m) (accepts m)
      then proj_accept (accepts m ! (r - unat (am_first_round_id m))) else None)"
| "proj r (DecidePayload m) = None"

fun proj1 :: "nat \<Rightarrow> PeerID \<times> PeerID \<times> LAPayload \<Rightarrow> (PeerID \<times> PeerID \<times> u32 amsg) multiset" where
  "proj1 r (s, d, m) = (case proj r m of None \<Rightarrow> {#} | Some a \<Rightarrow> {#(s, d, a)#})"

definition proj_net ::
    "nat \<Rightarrow> (PeerID \<times> PeerID \<times> LAPayload) multiset \<Rightarrow> (PeerID \<times> PeerID \<times> u32 amsg) multiset" where
  "proj_net r M = \<Sum>\<^sub># (image_mset (proj1 r) M)"

definition proj_sends :: "nat \<Rightarrow> PeerID \<Rightarrow> LAPayload LAEffect list \<Rightarrow> (PeerID \<times> PeerID \<times> u32 amsg) multiset" where
  "proj_sends r p es = proj_net r (effect_sends p es)"

definition in_round :: "nat \<Rightarrow> (PeerID \<times> RoundID \<times> ProposalT) list \<Rightarrow> (PeerID \<times> RoundID \<times> ProposalT) list" where
  "in_round r = filter (\<lambda>(p, round, v). unat round = r)"

lemma proj_net_simps [simp]:
  "proj_net r {#} = {#}"
  "proj_net r (add_mset x M) = proj1 r x + proj_net r M"
  "proj_net r (M + N) = proj_net r M + proj_net r N"
  by (simp_all add: proj_net_def)

lemma proj_net_remove: "x \<in># M \<Longrightarrow> proj_net r (M - {#x#}) = proj_net r M - proj1 r x"
  by (metis add_diff_cancel_left' insert_DiffM proj_net_simps(2))

lemma proj_net_member: "x \<in># M \<Longrightarrow> proj1 r x \<subseteq># proj_net r M"
  by (metis insert_DiffM mset_subset_eq_add_left proj_net_simps(2))

lemma effect_sends_append [simp]: "effect_sends p (es @ fs) = effect_sends p es + effect_sends p fs"
  by (induction p es rule: effect_sends.induct) auto

lemma effect_decisions_append [simp]:
  "effect_decisions p (es @ fs) = effect_decisions p es @ effect_decisions p fs"
  by (induction p es rule: effect_decisions.induct) auto

lemma effect_sends_unfulfilled:
  "effect_sends p es = effect_sends p (filter (\<lambda>e. \<not> is_fulfil e) es)"
  by (induction p es rule: effect_sends.induct) auto

lemma effect_decisions_unfulfilled:
  "effect_decisions p es = effect_decisions p (filter (\<lambda>e. \<not> is_fulfil e) es)"
  by (induction p es rule: effect_decisions.induct) auto

lemma proj_sends_append [simp]: "proj_sends r p (es @ fs) = proj_sends r p es + proj_sends r p fs"
  by (simp add: proj_sends_def)

lemma in_round_append [simp]: "in_round r (xs @ ys) = in_round r xs @ in_round r ys"
  by (simp add: in_round_def)

lemma in_round_Nil [simp]: "in_round r [] = []"
  by (simp add: in_round_def)

lemma effect_sends_map: "effect_sends p (map (\<lambda>q. LASend q m) qs) = image_mset (\<lambda>q. (p, q, m)) (mset qs)"
  by (induction qs) auto

lemma effect_decisions_map [simp]: "effect_decisions p (map (\<lambda>q. LASend q m) qs) = []"
  by (induction qs) auto

lemma effect_decisions_broadcast [simp]: "effect_decisions p (BestEffortBroadcast la m) = []"
  by (simp add: BestEffortBroadcast_def)

lemma effect_sends_broadcast:
  assumes "enumerates (la_hosts la) P"
  shows "effect_sends p (BestEffortBroadcast la m) = image_mset (\<lambda>q. (p, q, m)) (mset_set P)"
proof -
  let ?h = "la_hosts la"
  have "mset (localID ?h # peers ?h) = mset_set (set (localID ?h # peers ?h))"
    using assms by (intro mset_set_set [symmetric]) (simp add: enumerates_def)
  also have "set (localID ?h # peers ?h) = P" using assms by (simp add: enumerates_def)
  finally have "mset (peers ?h @ [localID ?h]) = mset_set P" by simp
  then show ?thesis
    by (simp add: BestEffortBroadcast_def effect_sends_map GetPeers_def LocalID_def flip: \<open>mset _ = mset_set P\<close>)
qed

lemma proj_sends_broadcast:
  assumes "enumerates (la_hosts la) P"
  shows "proj_sends r p (BestEffortBroadcast la m) =
    (case proj r m of None \<Rightarrow> {#} | Some a \<Rightarrow> to_all P p a)"
proof -
  have "proj_net r (image_mset (\<lambda>q. (p, q, m)) M) =
      (case proj r m of None \<Rightarrow> {#} | Some a \<Rightarrow> image_mset (\<lambda>q. (p, q, a)) M)" for M
    by (induction M) (auto split: option.splits)
  then show ?thesis
    using effect_sends_broadcast [OF assms] by (simp add: proj_sends_def to_all_def split: option.split)
qed

section \<open>What the loops do to one round\<close>

lemma in_batch_single [simp]: "in_batch r first [x] \<longleftrightarrow> r = unat first"
  by (auto simp: in_batch_def)


text \<open>The effects of counting an answer that concern round \<open>r\<close>.\<close>

definition round_sends :: "PeerID \<Rightarrow> nat \<Rightarrow> PeerID set \<Rightarrow> nat \<Rightarrow> RoundState \<Rightarrow>
    (PeerID \<times> PeerID \<times> u32 amsg) multiset" where
  "round_sends p r P maj s = (if moves maj s
     then to_all P p (AProp (unat (rs_active_proposal_number s + 1)) (set (rs_proposed_value s))) else {#})"

definition round_decisions :: "PeerID \<Rightarrow> nat \<Rightarrow> nat \<Rightarrow> RoundState \<Rightarrow> (PeerID \<times> RoundID \<times> ProposalT) list" where
  "round_decisions p r maj s = (if decides maj s then [(p, of_nat r, rs_proposed_value s)] else [])"

lemma check_effects_round:
  assumes "enumerates (la_hosts la) P"
  shows "proj_sends r p (check_effects la round s) =
      (if r = unat round then round_sends p r P (Majority la) s else {#})"
    and "in_round r (effect_decisions p (check_effects la round s)) =
      (if r = unat round then round_decisions p r (Majority la) s else [])"
  using proj_sends_broadcast [OF assms]
  by (auto simp: check_effects_def round_sends_def round_decisions_def moves_def proj_proposal_def
      in_round_def proj_sends_def)

lemma HandleAccept_round:
  assumes "enumerates (la_hosts la) P"
  shows "proj_sends r p (snd (HandleAccept round a la)) =
      (if r = unat round \<and> relevant a (round_view la r)
       then round_sends p r P (Majority la) (counted a (round_view la r)) else {#})"
    and "in_round r (effect_decisions p (snd (HandleAccept round a la))) =
      (if r = unat round \<and> relevant a (round_view la r)
       then round_decisions p r (Majority la) (counted a (round_view la r)) else [])"
  using check_effects_round [OF assms] HandleAccept_view(3) [of round a la]
    effect_sends_unfulfilled [of p "snd (HandleAccept round a la)"]
    effect_decisions_unfulfilled [of p "snd (HandleAccept round a la)"]
  by (auto simp: proj_sends_def)

lemma HandleAccepts_view:
  fixes first la r
  assumes "batch_fits first as" and "enumerates (la_hosts la) P"
  defines "a \<equiv> as ! (r - unat first)" and "s \<equiv> round_view la r"
  shows "round_view (fst (HandleAccepts first as la)) r =
      (if in_batch r first as \<and> relevant a s then checked (Majority la) (counted a s) else s)"
    and "config (fst (HandleAccepts first as la)) = config la"
    and "proj_sends r p (snd (HandleAccepts first as la)) =
      (if in_batch r first as \<and> relevant a s then round_sends p r P (Majority la) (counted a s) else {#})"
    and "in_round r (effect_decisions p (snd (HandleAccepts first as la))) =
      (if in_batch r first as \<and> relevant a s then round_decisions p r (Majority la) (counted a s) else [])"
  using assms(1,2) unfolding a_def s_def
proof (induction as arbitrary: first la)
  case Nil
  {
    case 1
    then show ?case by (auto simp: in_batch_def)
  next
    case 2
    then show ?case by simp
  next
    case 3
    then show ?case by (auto simp: in_batch_def proj_sends_def)
  next
    case 4
    then show ?case by (auto simp: in_batch_def)
  }
next
  case (Cons x xs)
  have cfg: "config (fst (HandleAccept first x la)) = config la" for first la
    by (rule HandleAccept_view)
  note maj = Majority_config [OF cfg]
  have en: "enumerates (la_hosts (fst (HandleAccept first x la))) P" if "enumerates (la_hosts la) P" for first la
    using that config_eqD(1) [OF cfg] by simp
  {
    case 1
    note IH = Cons.IH(1) [OF batch_fits_tl [OF 1(1)] en [OF 1(2)]]
    show ?case
      using in_batch_Cons [OF 1(1), of r]
      by (auto simp: case_prod_beta Let_def IH HandleAccept_view maj in_batch_def)
  next
    case 2
    note IH = Cons.IH(2) [OF batch_fits_tl [OF 2(1)] en [OF 2(2)]]
    show ?case by (simp add: case_prod_beta Let_def IH HandleAccept_view)
  next
    case 3
    note IH = Cons.IH(3) [OF batch_fits_tl [OF 3(1)] en [OF 3(2)]]
    show ?case
      using in_batch_Cons [OF 3(1), of r]
      by (auto simp: case_prod_beta Let_def IH HandleAccept_view HandleAccept_round [OF 3(2)] maj in_batch_def)
  next
    case 4
    note IH = Cons.IH(4) [OF batch_fits_tl [OF 4(1)] en [OF 4(2)]]
    show ?case
      using in_batch_Cons [OF 4(1), of r]
      by (auto simp: case_prod_beta Let_def IH HandleAccept_view HandleAccept_round [OF 4(2)] maj in_batch_def)
  }
qed

lemma InitializeNextRoundState_view:
  assumes "InitializeNextRoundState round v la = Inr (la', f)"
  shows "round_view la' r =
      (if r = unat round then (round_view la r)\<lparr>rs_proposed_value := v\<rparr> else round_view la r)"
    and "config la' = config la"
    and "unat round < length (la_round_states la')"
    and "length (la_round_states la) \<le> length (la_round_states la')"
proof -
  have "(erase s)\<lparr>rs_proposed_value := v\<rparr> = erase (s\<lparr>rs_proposed_value := v\<rparr>)" for s
    by (simp add: erase_def)
  moreover have "erase (s\<lparr>rs_preliminary_future := z\<rparr>) = erase s" for s z by (simp add: erase_def)
  ultimately show "round_view la' r =
      (if r = unat round then (round_view la r)\<lparr>rs_proposed_value := v\<rparr> else round_view la r)"
    using assms
    by (auto simp: InitializeNextRoundState_def Let_def view_set_round_state view_of_round_state
        MakeContract_def split: if_splits option.splits)
      (auto simp: round_view_def emplace_round_def nth_append erase_def RoundState_init_def)
  show "config la' = config la" "unat round < length (la_round_states la')"
    "length (la_round_states la) \<le> length (la_round_states la')"
    using assms by (auto simp: InitializeNextRoundState_def Let_def MakeContract_def emplace_round_def config_def
        split: if_splits option.splits) (auto simp: set_round_state_def)
qed

lemma Propose_rounds_view:
  assumes "batch_fits first ps" and "Propose_rounds first ps la = Inr (la', fs)"
  shows "round_view la' r = (if in_batch r first ps
      then (round_view la r)\<lparr>rs_proposed_value := proposed_value (ps ! (r - unat first))\<rparr>
      else round_view la r)" (is "?view la la' first ps")
    and "config la' = config la"
proof -
  have "?view la la' first ps \<and> config la' = config la" using assms
  proof (induction ps arbitrary: first la la' fs)
    case Nil
    then show ?case by (auto simp: in_batch_def)
  next
    case (Cons x xs)
    then obtain la1 f fs' where init: "InitializeNextRoundState first (proposed_value x) la = Inr (la1, f)"
      and rest: "Propose_rounds (first + 1) xs la1 = Inr (la', fs')"
      by (auto simp: fbind_eq_Inr)
    have IH: "?view la1 la' (first + 1) xs \<and> config la' = config la1"
      using Cons.IH [OF batch_fits_tl [OF Cons.prems(1)] rest] .
    then show ?case
      using in_batch_Cons [OF Cons.prems(1), of r] InitializeNextRoundState_view(1) [OF init, of r]
        InitializeNextRoundState_view(2) [OF init]
      by (auto simp: in_batch_def)
  qed
  then show "?view la la' first ps" "config la' = config la" by auto
qed

end
