(* ===== verification/Lattice_Simulation.thy ===== *)
theory Lattice_Simulation
  imports Lattice_System
begin

text \<open>
  Every round of a run of the system refines the abstract protocol: the relation \<open>sim\<close>
  reads the sets, numbers and counters of one round off the vectors and 32-bit words of the
  processes, and each step of the system is a step of the protocol for the rounds it touches
  and no step for the others. The relation is kept because vectors never repeat an element,
  the counters of a round are bounded by the number of processes and a proposal number by
  the size of the proposed value.
\<close>

section \<open>Well-formed systems\<close>

fun payload_ok :: "LAPayload \<Rightarrow> bool" where
  "payload_ok (ProposalPayload m) \<longleftrightarrow> batch_fits (pm_first_round_id m) (proposals m) \<and>
     (\<forall>x\<in>set (proposals m). distinct (proposed_value x))"
| "payload_ok (AcceptPayload m) \<longleftrightarrow> batch_fits (am_first_round_id m) (accepts m) \<and>
     (\<forall>x\<in>set (accepts m). distinct (acc_accepted_value x))"
| "payload_ok (DecidePayload m) \<longleftrightarrow> True"

definition values_ok :: "RoundState \<Rightarrow> bool" where
  "values_ok s \<longleftrightarrow> distinct (rs_proposed_value s) \<and> distinct (rs_accepted_value s)"

definition node_good :: "PeerID set \<Rightarrow> LatticeAgreement \<Rightarrow> bool" where
  "node_good P la \<longleftrightarrow> enumerates (la_hosts la) P \<and> la_network_size la = card P \<and>
     (\<forall>r. values_ok (round_view la r))"

definition sends_ok :: "PeerID set \<Rightarrow> LAPayload LAEffect list \<Rightarrow> bool" where
  "sends_ok P es \<longleftrightarrow> (\<forall>q m. LASend q m \<in> set es \<longrightarrow> q \<in> P \<and> payload_ok m)"

definition net_ok :: "PeerID set \<Rightarrow> (PeerID \<times> PeerID \<times> LAPayload) multiset \<Rightarrow> bool" where
  "net_ok P M \<longleftrightarrow> (\<forall>s d m. (s, d, m) \<in># M \<longrightarrow> s \<in> P \<and> d \<in> P \<and> payload_ok m)"

lemma node_good_transfer:
  "node_good P la \<Longrightarrow> config la' = config la \<Longrightarrow> (\<And>r. values_ok (round_view la' r)) \<Longrightarrow> node_good P la'"
  by (auto simp: node_good_def dest: config_eqD)

lemma sends_ok_simps [simp]:
  "sends_ok P []"
  "sends_ok P (es @ fs) \<longleftrightarrow> sends_ok P es \<and> sends_ok P fs"
  by (auto simp: sends_ok_def)

lemma sends_ok_unfulfilled: "sends_ok P (filter (\<lambda>e. \<not> is_fulfil e) es) = sends_ok P es"
  by (auto simp: sends_ok_def)

lemma sends_ok_broadcast:
  assumes "enumerates (la_hosts la) P" and "payload_ok m"
  shows "sends_ok P (BestEffortBroadcast la m)"
  using assms
  by (auto simp: sends_ok_def BestEffortBroadcast_def GetPeers_def LocalID_def enumerates_def)

lemma in_effect_sends: "(s, d, m) \<in># effect_sends p es \<longleftrightarrow> s = p \<and> LASend d m \<in> set es"
  by (induction p es rule: effect_sends.induct) auto

lemma net_ok_sends: "sends_ok P es \<Longrightarrow> p \<in> P \<Longrightarrow> net_ok P (effect_sends p es)"
  by (simp add: net_ok_def sends_ok_def in_effect_sends)

lemma net_ok_plus [simp]: "net_ok P (M + N) \<longleftrightarrow> net_ok P M \<and> net_ok P N"
  by (auto simp: net_ok_def)

lemma net_ok_remove: "net_ok P M \<Longrightarrow> net_ok P (M - N)"
  by (auto simp: net_ok_def dest: in_diffD)

subsection \<open>The handlers keep systems well-formed\<close>

lemma accept_update_ok:
  "distinct a \<Longrightarrow> distinct v \<Longrightarrow> distinct (accept_update a v)"
  by (auto simp: accept_update_def Let_def)

lemma HandleProposals_good:
  assumes "node_good P la" and "batch_fits first ps" and "\<forall>x\<in>set ps. distinct (proposed_value x)"
  shows "node_good P (fst (HandleProposals first ps la))"
    and "\<forall>x\<in>set (snd (HandleProposals first ps la)). distinct (acc_accepted_value x)"
proof -
  have nth: "distinct (proposed_value (ps ! (r - unat first)))" if "in_batch r first ps" for r
    using that assms(3) by (auto simp: in_batch_def)
  show "node_good P (fst (HandleProposals first ps la))"
  proof (rule node_good_transfer [OF assms(1) HandleProposals_view(2) [OF assms(2)]])
    fix r
    have "values_ok (round_view la r)" using assms(1) by (simp add: node_good_def)
    then show "values_ok (round_view (fst (HandleProposals first ps la)) r)"
      using nth by (auto simp: HandleProposals_view(1) [OF assms(2)] values_ok_def intro: accept_update_ok)
  qed
  show "\<forall>x\<in>set (snd (HandleProposals first ps la)). distinct (acc_accepted_value x)"
  proof
    fix x assume "x \<in> set (snd (HandleProposals first ps la))"
    then obtain i where i: "i < length ps" "x = snd (HandleProposals first ps la) ! i"
      by (metis in_set_conv_nth HandleProposals_view(3) [OF assms(2)])
    let ?r = "unat first + i"
    have "in_batch ?r first ps" using i(1) by (simp add: in_batch_def)
    then have "x = answer_to (ps ! i) (rs_accepted_value (round_view la ?r))"
      using HandleProposals_view(4) [OF assms(2), of ?r la] i(2) by simp
    then show "distinct (acc_accepted_value x)"
      using assms(1,3) i(1) by (simp add: answer_to_def Let_def node_good_def values_ok_def)
  qed
qed

lemma counted_ok: "values_ok s \<Longrightarrow> distinct (acc_accepted_value a) \<Longrightarrow> values_ok (checked maj (counted a s))"
  by (auto simp: values_ok_def counted_def checked_def)

lemma HandleAccept_good:
  assumes "node_good P la" and "distinct (acc_accepted_value a)"
  shows "node_good P (fst (HandleAccept round a la))" and "sends_ok P (snd (HandleAccept round a la))"
proof -
  show "node_good P (fst (HandleAccept round a la))"
    by (rule node_good_transfer [OF assms(1) HandleAccept_view(2)])
      (use assms in \<open>auto simp: HandleAccept_view node_good_def intro!: counted_ok\<close>)
  have "values_ok (counted a s)" if "values_ok s" for s
    using that assms(2) by (auto simp: values_ok_def counted_def)
  moreover have "values_ok (round_view la r)" for r using assms(1) by (simp add: node_good_def)
  ultimately have "sends_ok P (filter (\<lambda>e. \<not> is_fulfil e) (snd (HandleAccept round a la)))"
    using assms(1) unat_u32_bound [of round]
    by (auto simp: HandleAccept_view check_effects_def node_good_def batch_fits_def values_ok_def
        intro!: sends_ok_broadcast) (auto simp: sends_ok_def)
  then show "sends_ok P (snd (HandleAccept round a la))" by (simp add: sends_ok_unfulfilled)
qed

lemma HandleAccepts_good:
  assumes "node_good P la" and "\<forall>x\<in>set as. distinct (acc_accepted_value x)"
  shows "node_good P (fst (HandleAccepts first as la)) \<and> sends_ok P (snd (HandleAccepts first as la))"
  using assms
proof (induction as arbitrary: first la)
  case Nil
  then show ?case by simp
next
  case (Cons x xs)
  then show ?case
    using HandleAccept_good [of P la x first] by (simp add: case_prod_beta Let_def)
qed

lemma HandlePayload_good:
  assumes "node_good P la" and "payload_ok m" and "s \<in> P"
  shows "node_good P (fst (HandlePayload s m la))" and "sends_ok P (snd (HandlePayload s m la))"
proof -
  have "node_good P (fst (HandlePayload s m la)) \<and> sends_ok P (snd (HandlePayload s m la))"
  proof (cases m)
    case (ProposalPayload pm)
    then show ?thesis
      using assms HandleProposals_good [OF assms(1), of "pm_first_round_id pm" "proposals pm"]
        HandleProposals_view(3) [of "pm_first_round_id pm" "proposals pm" la]
      by (auto simp: HandlePayload_def HandleProposalMessage_def case_prod_beta Let_def sends_ok_def
          batch_fits_def)
  next
    case (AcceptPayload am)
    then show ?thesis
      using assms HandleAccepts_good [OF assms(1)] by (simp add: HandlePayload_def HandleAcceptMessage_def)
  next
    case (DecidePayload dm)
    then show ?thesis using assms by (simp add: HandlePayload_def)
  qed
  then show "node_good P (fst (HandlePayload s m la))" "sends_ok P (snd (HandlePayload s m la))" by auto
qed

lemma proposal_batch_ok: "proposal_batch \<sigma> p m \<Longrightarrow> payload_ok (ProposalPayload m)"
  by (auto simp: proposal_batch_def batch_fits_def)

lemma Propose_good:
  assumes "node_good P la" and "payload_ok (ProposalPayload m)" and "Propose m la = Inr (la', fs, es)"
  shows "node_good P la'" and "sends_ok P es"
proof -
  have fits: "batch_fits (pm_first_round_id m) (proposals m)" using assms(2) by simp
  have rounds: "Propose_rounds (pm_first_round_id m) (proposals m) la = Inr (la', fs)"
    and es: "es = BestEffortBroadcast la' (ProposalPayload m)"
    using assms(3) by (auto simp: Propose_def fbind_eq_Inr)
  note view = Propose_rounds_view [OF fits rounds]
  have "values_ok (round_view la r)" for r using assms(1) by (simp add: node_good_def)
  moreover have "distinct (proposed_value (proposals m ! (r - unat (pm_first_round_id m))))"
    if "in_batch r (pm_first_round_id m) (proposals m)" for r
    using that assms(2) by (auto simp: in_batch_def)
  ultimately show good: "node_good P la'"
    by (intro node_good_transfer [OF assms(1) view(2)]) (auto simp: view(1) values_ok_def)
  show "sends_ok P es"
    using good assms(2) unfolding es by (intro sends_ok_broadcast) (auto simp: node_good_def)
qed

section \<open>The simulation relation\<close>

definition abs_node :: "bool \<Rightarrow> RoundState \<Rightarrow> u32 anode" where
  "abs_node started s = \<lparr>an_started = started, an_number = unat (rs_active_proposal_number s),
     an_acks = unat (rs_acks s), an_nacks = unat (rs_nacks s), an_proposed = set (rs_proposed_value s),
     an_accepted = set (rs_accepted_value s), an_completed = rs_completed s\<rparr>"

definition has_proposed :: "la_system \<Rightarrow> nat \<Rightarrow> PeerID \<Rightarrow> bool" where
  "has_proposed \<sigma> r p \<longleftrightarrow> r < length (ls_proposed \<sigma> p)"

definition decisions_of :: "PeerID \<Rightarrow> nat \<Rightarrow> la_system \<Rightarrow> ProposalT list" where
  "decisions_of p r \<sigma> = map (\<lambda>(_, _, v). v) (filter (\<lambda>(q, _, _). q = p) (in_round r (ls_decisions \<sigma>)))"

definition sim :: "PeerID set \<Rightarrow> nat \<Rightarrow> la_system \<Rightarrow> (PeerID, u32) asys \<Rightarrow> bool" where
  "sim P r \<sigma> \<alpha> \<longleftrightarrow>
     (\<forall>p\<in>P. s_nodes \<alpha> p = abs_node (has_proposed \<sigma> r p) (round_view (ls_nodes \<sigma> p) r)) \<and>
     s_net \<alpha> = proj_net r (ls_net \<sigma>) \<and>
     s_decided \<alpha> = (\<lambda>(p, _, v). (p, set v)) ` set (in_round r (ls_decisions \<sigma>)) \<and>
     (\<forall>p\<in>P. has_proposed \<sigma> r p \<longrightarrow> g_initial \<alpha> p = set (ls_proposed \<sigma> p ! r)) \<and>
     (\<forall>p\<in>P. length (decisions_of p r \<sigma>) = (if rs_completed (round_view (ls_nodes \<sigma> p) r) then 1 else 0))"

lemma abs_node_simps [simp]:
  "an_started (abs_node t s) = t"
  "an_number (abs_node t s) = unat (rs_active_proposal_number s)"
  "an_acks (abs_node t s) = unat (rs_acks s)"
  "an_nacks (abs_node t s) = unat (rs_nacks s)"
  "an_proposed (abs_node t s) = set (rs_proposed_value s)"
  "an_accepted (abs_node t s) = set (rs_accepted_value s)"
  "an_completed (abs_node t s) = rs_completed s"
  by (simp_all add: abs_node_def)

lemma has_proposed_apply [simp]: "has_proposed (ls_apply p la es \<sigma>) r q = has_proposed \<sigma> r q"
  by (simp add: has_proposed_def ls_apply_def)

lemma has_proposed_net [simp]: "has_proposed (\<sigma>\<lparr>ls_net := M\<rparr>) r q = has_proposed \<sigma> r q"
  by (simp add: has_proposed_def)

lemma ls_apply_simps [simp]:
  "ls_nodes (ls_apply p la es \<sigma>) = (ls_nodes \<sigma>)(p := la)"
  "ls_net (ls_apply p la es \<sigma>) = ls_net \<sigma> + effect_sends p es"
  "ls_decisions (ls_apply p la es \<sigma>) = ls_decisions \<sigma> @ effect_decisions p es"
  "ls_proposed (ls_apply p la es \<sigma>) = ls_proposed \<sigma>"
  by (simp_all add: ls_apply_def)

lemma decisions_of_apply:
  "decisions_of q r (ls_apply p la es \<sigma>) = decisions_of q r \<sigma> @
     map (\<lambda>(_, _, v). v) (filter (\<lambda>(q', _, _). q' = q) (in_round r (effect_decisions p es)))"
  by (simp add: decisions_of_def)

lemma set_accept_update:
  "distinct a \<Longrightarrow> distinct v \<Longrightarrow> set (accept_update a v) = set a \<union> set v"
  by (auto simp: accept_update_def Let_def union_same_size_iff)

lemma proj_answer:
  assumes "distinct a" and "distinct (proposed_value p)"
  shows "proj_accept (answer_to p a) =
    (let k = unat (active_proposal_number p); v = set (proposed_value p) in
     Some (if set a \<subseteq> v then AAck k else ANack k (set a \<union> v)))"
  using assms by (simp add: proj_accept_def answer_to_def Let_def union_same_size_iff la_enum_defs)

lemma a_accept_effect:
  "s_nodes (a_accept p a k v \<alpha>) =
     (s_nodes \<alpha>)(a := (s_nodes \<alpha> a)\<lparr>an_accepted := an_accepted (s_nodes \<alpha> a) \<union> v\<rparr>)"
  "s_net (a_accept p a k v \<alpha>) = s_net \<alpha> - {#(p, a, AProp k v)#} +
     {#(a, p, if an_accepted (s_nodes \<alpha> a) \<subseteq> v then AAck k else ANack k (an_accepted (s_nodes \<alpha> a) \<union> v))#}"
  "s_decided (a_accept p a k v \<alpha>) = s_decided \<alpha>"
  "g_initial (a_accept p a k v \<alpha>) = g_initial \<alpha>"
  by (auto simp: a_accept_def Let_def Un_absorb1)

lemma effect_decisions_owner: "x \<in> set (effect_decisions p es) \<Longrightarrow> fst x = p"
  by (induction p es rule: effect_decisions.induct) auto

lemma decisions_of_effects:
  "length (filter (\<lambda>(q', _, _). q' = q) (in_round r (effect_decisions p es))) =
     (if q = p then length (in_round r (effect_decisions p es)) else 0)"
proof -
  have "\<forall>x\<in>set (in_round r (effect_decisions p es)). fst x = p"
    by (auto simp: in_round_def dest: effect_decisions_owner)
  then have "filter (\<lambda>(q', _, _). q' = q) (in_round r (effect_decisions p es)) =
      (if q = p then in_round r (effect_decisions p es) else [])"
    by (auto simp: filter_empty_conv filter_id_conv)
  then show ?thesis by simp
qed

lemma sim_deliver:
  assumes sim: "sim P r \<sigma> \<alpha>" and d: "d \<in> P" and mem: "x \<in># ls_net \<sigma>"
    and nodes: "s_nodes \<beta> = (s_nodes \<alpha>)(d := abs_node (has_proposed \<sigma> r d) (round_view la r))"
    and net: "s_net \<beta> = s_net \<alpha> - proj1 r x + proj_sends r d es"
    and dec: "s_decided \<beta> = s_decided \<alpha> \<union> (\<lambda>(p, _, v). (p, set v)) ` set (in_round r (effect_decisions d es))"
    and initial: "g_initial \<beta> = g_initial \<alpha>"
    and once: "(if rs_completed (round_view (ls_nodes \<sigma> d) r) then 1 else 0) +
        length (in_round r (effect_decisions d es)) = (if rs_completed (round_view la r) then 1 else (0 :: nat))"
  shows "sim P r (ls_apply d la es (\<sigma>\<lparr>ls_net := ls_net \<sigma> - {#x#}\<rparr>)) \<beta>"
  unfolding sim_def
proof (intro conjI ballI impI)
  let ?\<tau> = "ls_apply d la es (\<sigma>\<lparr>ls_net := ls_net \<sigma> - {#x#}\<rparr>)"
  show "s_net \<beta> = proj_net r (ls_net ?\<tau>)"
    using sim net by (simp add: sim_def proj_net_remove [OF mem] proj_sends_def)
  show "s_decided \<beta> = (\<lambda>(p, _, v). (p, set v)) ` set (in_round r (ls_decisions ?\<tau>))"
    using sim dec by (simp add: sim_def image_Un)
  fix p assume p: "p \<in> P"
  show "s_nodes \<beta> p = abs_node (has_proposed ?\<tau> r p) (round_view (ls_nodes ?\<tau> p) r)"
    using sim p nodes by (auto simp: sim_def)
  show "g_initial \<beta> p = set (ls_proposed ?\<tau> p ! r)" if "has_proposed ?\<tau> r p"
    using sim p that initial by (simp add: sim_def)
  have "length (decisions_of p r ?\<tau>) = length (decisions_of p r \<sigma>) +
      (if p = d then length (in_round r (effect_decisions d es)) else 0)"
    unfolding decisions_of_apply length_append length_map decisions_of_effects by (simp add: decisions_of_def)
  moreover have "length (decisions_of p r \<sigma>) = (if rs_completed (round_view (ls_nodes \<sigma> p) r) then 1 else 0)"
    using sim p by (simp add: sim_def)
  ultimately show "length (decisions_of p r ?\<tau>) = (if rs_completed (round_view (ls_nodes ?\<tau> p) r) then 1 else 0)"
    using once by (cases "p = d") (simp_all split: if_splits)
qed

lemma sim_deliver_stutter:
  assumes sim: "sim P r \<sigma> \<alpha>" and d: "d \<in> P" and mem: "x \<in># ls_net \<sigma>"
    and "round_view la r = round_view (ls_nodes \<sigma> d) r" and "proj1 r x = {#}"
    and "proj_sends r d es = {#}" and "in_round r (effect_decisions d es) = []"
  shows "sim P r (ls_apply d la es (\<sigma>\<lparr>ls_net := ls_net \<sigma> - {#x#}\<rparr>)) \<alpha>"
  using assms by (intro sim_deliver [OF sim d mem]) (auto simp: sim_def)

section \<open>Delivering a proposal\<close>

lemma sim_deliver_proposal:
  assumes sim: "sim P r \<sigma> \<alpha>" and good: "node_good P (ls_nodes \<sigma> d)"
    and ok: "payload_ok (ProposalPayload m)" and dP: "d \<in> P"
    and mem: "(s, d, ProposalPayload m) \<in># ls_net \<sigma>"
    and step: "HandlePayload s (ProposalPayload m) (ls_nodes \<sigma> d) = (la, es)"
  shows "\<exists>\<beta>. (\<beta> = \<alpha> \<or> a_step P \<alpha> \<beta>) \<and>
    sim P r (ls_apply d la es (\<sigma>\<lparr>ls_net := ls_net \<sigma> - {#(s, d, ProposalPayload m)#}\<rparr>)) \<beta>"
proof -
  let ?la = "ls_nodes \<sigma> d" and ?first = "pm_first_round_id m" and ?ps = "proposals m"
  let ?p = "?ps ! (r - unat ?first)" and ?s = "round_view ?la r"
  have fits: "batch_fits ?first ?ps" using ok by simp
  note view = HandleProposals_view [where la = ?la, OF fits]
  have la: "la = fst (HandleProposals ?first ?ps ?la)"
    and es: "es = [LASend s (AcceptPayload \<lparr>am_first_round_id = ?first,
        accepts = snd (HandleProposals ?first ?ps ?la)\<rparr>)]"
    using step by (auto simp: HandlePayload_def HandleProposalMessage_def case_prod_beta Let_def)
  have same: "in_batch r ?first (snd (HandleProposals ?first ?ps ?la)) \<longleftrightarrow> in_batch r ?first ?ps"
    by (simp add: in_batch_def view(3))
  show ?thesis
  proof (cases "in_batch r ?first ?ps")
    case False
    then have "sim P r (ls_apply d la es (\<sigma>\<lparr>ls_net := ls_net \<sigma> - {#(s, d, ProposalPayload m)#}\<rparr>)) \<alpha>"
      using same view(1) [of r] unfolding la es
      by (intro sim_deliver_stutter [OF sim dP mem]) (auto simp: proj_sends_def)
    then show ?thesis by blast
  next
    case True
    let ?k = "unat (active_proposal_number ?p)" and ?v = "set (proposed_value ?p)"
    let ?\<beta> = "a_accept s d ?k ?v \<alpha>"
    have dist: "distinct (proposed_value ?p)" using ok True by (auto simp: in_batch_def)
    have dist': "distinct (rs_accepted_value ?s)" using good by (simp add: node_good_def values_ok_def)
    have node: "s_nodes \<alpha> d = abs_node (has_proposed \<sigma> r d) ?s" using sim dP by (simp add: sim_def)
    have proj1: "proj1 r (s, d, ProposalPayload m) = {#(s, d, AProp ?k ?v)#}"
      using True by (simp add: proj_proposal_def)
    then have "(s, d, AProp ?k ?v) \<in># s_net \<alpha>"
      using sim proj_net_member [OF mem, of r] by (simp add: sim_def)
    then have "a_step P \<alpha> ?\<beta>" by (rule a_step.accept)
    moreover have "sim P r (ls_apply d la es (\<sigma>\<lparr>ls_net := ls_net \<sigma> - {#(s, d, ProposalPayload m)#}\<rparr>)) ?\<beta>"
    proof (rule sim_deliver [OF sim dP mem])
      show "s_nodes ?\<beta> = (s_nodes \<alpha>)(d := abs_node (has_proposed \<sigma> r d) (round_view la r))"
        using True set_accept_update [OF dist' dist]
        by (simp add: a_accept_effect la view(1) node) (simp add: abs_node_def)
      show "s_net ?\<beta> = s_net \<alpha> - proj1 r (s, d, ProposalPayload m) + proj_sends r d es"
        using True same proj_answer [OF dist' dist, folded view(4) [OF True]]
        by (simp add: a_accept_effect es proj_sends_def node Let_def proj_proposal_def)
    qed (use True in \<open>simp_all add: a_accept_effect es la view(1)\<close>)
    ultimately show ?thesis by blast
  qed
qed

section \<open>Delivering answers\<close>

lemma card_peers: "card (P :: PeerID set) \<le> 256"
  using card_mono [OF finite_class.finite_UNIV subset_UNIV [of P]] by (simp add: card_word)

lemma answers_started:
  assumes "a_inv P \<alpha>" and "(a, p, m) \<in># s_net \<alpha>" and "\<not> is_prop m"
  shows "an_started (s_nodes \<alpha> p)"
proof -
  have "msg_ok P \<alpha> (a, p, m)" using assms(1,2) by (auto simp: a_inv_def core_inv_def inv_msgs_def)
  then show ?thesis using assms(3) by (cases m) (auto simp: issued_def)
qed

lemma answers_bounded:
  fixes P :: "PeerID set"
  assumes "a_inv P \<alpha>" and "an_started (s_nodes \<alpha> p)" and "\<not> an_completed (s_nodes \<alpha> p)"
  shows "an_acks (s_nodes \<alpha> p) + an_nacks (s_nodes \<alpha> p) \<le> 256"
proof -
  let ?H = "g_heard \<alpha> p (an_number (s_nodes \<alpha> p))"
  have "node_ok P \<alpha> p" "?H \<subseteq> P" using assms(1) by (auto simp: a_inv_def core_inv_def inv_heard_def)
  then have "an_acks (s_nodes \<alpha> p) + an_nacks (s_nodes \<alpha> p) = card ?H"
    using assms(2,3) by (simp add: node_ok_def Let_def)
  then show ?thesis using card_peers [of ?H] by simp
qed

lemma numbers_bounded:
  fixes \<alpha> :: "(PeerID, u32) asys"
  assumes "a_inv P \<alpha>" and "an_started (s_nodes \<alpha> p)"
  shows "an_number (s_nodes \<alpha> p) < 4294967296"
proof -
  let ?B = "g_bcast \<alpha> p (an_number (s_nodes \<alpha> p))"
  have "an_number (s_nodes \<alpha> p) < card ?B"
    using assms by (auto simp: a_inv_def core_inv_def inv_values_def issued_def)
  also have "card ?B \<le> 4294967296"
    using card_mono [OF finite_class.finite_UNIV subset_UNIV [of ?B]] by (simp add: card_word)
  finally show ?thesis .
qed

lemma abs_counted:
  assumes "proj_accept a = Some x" and "unat (rs_acks s) + unat (rs_nacks s) \<le> 256"
  shows "abs_node t (counted a s) = count_answer x (abs_node t s)"
    and "unat (rs_acks (counted a s)) + unat (rs_nacks (counted a s)) \<le> 257"
proof -
  have "unat (rs_acks s + 1) = unat (rs_acks s) + 1" "unat (rs_nacks s + 1) = unat (rs_nacks s) + 1"
    using assms(2) unat_add_one_u32 [of "rs_acks s"] unat_add_one_u32 [of "rs_nacks s"] by simp_all
  then show "abs_node t (counted a s) = count_answer x (abs_node t s)"
    "unat (rs_acks (counted a s)) + unat (rs_nacks (counted a s)) \<le> 257"
    using assms by (auto simp: proj_accept_def counted_def abs_node_def split: if_splits)
qed

lemma moves_iff:
  assumes "unat (rs_acks c) + unat (rs_nacks c) \<le> 257"
  shows "moves maj c \<longleftrightarrow> \<not> maj \<le> unat (rs_acks c) \<and> unat (rs_nacks c) > 0 \<and>
    maj \<le> unat (rs_acks c) + unat (rs_nacks c)"
proof -
  have "unat (rs_acks c + rs_nacks c) = unat (rs_acks c) + unat (rs_nacks c)"
    using assms by (simp add: unat_word_ariths)
  then show ?thesis by (auto simp: moves_def decides_def word_less_nat_alt)
qed

text \<open>What the conditions of the proposer do to node, network and decisions.\<close>

lemma a_check_fields:
  fixes \<alpha> :: "(PeerID, u32) asys"
  assumes node: "s_nodes \<alpha> d = abs_node t c" and bound: "unat (rs_acks c) + unat (rs_nacks c) \<le> 257"
    and nowrap: "moves (amajority P) c \<Longrightarrow> unat (rs_active_proposal_number c) + 1 < 4294967296"
  shows "s_nodes (a_check P d \<alpha>) = (s_nodes \<alpha>)(d := abs_node t (checked (amajority P) c))"
    and "s_net (a_check P d \<alpha>) = s_net \<alpha> + round_sends d r P (amajority P) c"
    and "s_decided (a_check P d \<alpha>) =
      s_decided \<alpha> \<union> (\<lambda>(p, _, v). (p, set v)) ` set (round_decisions d r (amajority P) c)"
    and "g_initial (a_check P d \<alpha>) = g_initial \<alpha>"
proof -
  note mv = moves_iff [OF bound, of "amajority P"]
  consider (decide) "decides (amajority P) c" | (move) "moves (amajority P) c" "\<not> decides (amajority P) c"
    | (wait) "\<not> decides (amajority P) c" "\<not> moves (amajority P) c" by blast
  then have "s_nodes (a_check P d \<alpha>) = (s_nodes \<alpha>)(d := abs_node t (checked (amajority P) c)) \<and>
    s_net (a_check P d \<alpha>) = s_net \<alpha> + round_sends d r P (amajority P) c \<and>
    s_decided (a_check P d \<alpha>) =
      s_decided \<alpha> \<union> (\<lambda>(p, _, v). (p, set v)) ` set (round_decisions d r (amajority P) c) \<and>
    g_initial (a_check P d \<alpha>) = g_initial \<alpha>"
  proof cases
    case decide
    then show ?thesis
      using node mv by (simp add: a_check_def a_decide_def checked_def round_sends_def round_decisions_def
          decides_def) (simp add: abs_node_def)
  next
    case move
    then have "unat (rs_active_proposal_number c + 1) = Suc (unat (rs_active_proposal_number c))"
      using nowrap unat_add_one_u32 [of "rs_active_proposal_number c"] by simp
    with move show ?thesis
      using node mv by (simp add: a_check_def a_move_def checked_def round_sends_def round_decisions_def
          decides_def Let_def) (simp add: abs_node_def)
  next
    case wait
    then show ?thesis
      using node mv by (auto simp: a_check_def checked_def round_sends_def round_decisions_def decides_def
          Let_def)
  qed
  then show "s_nodes (a_check P d \<alpha>) = (s_nodes \<alpha>)(d := abs_node t (checked (amajority P) c))"
    "s_net (a_check P d \<alpha>) = s_net \<alpha> + round_sends d r P (amajority P) c"
    "s_decided (a_check P d \<alpha>) =
      s_decided \<alpha> \<union> (\<lambda>(p, _, v). (p, set v)) ` set (round_decisions d r (amajority P) c)"
    "g_initial (a_check P d \<alpha>) = g_initial \<alpha>"
    by blast+
qed

lemma answer_fields:
  fixes \<alpha> :: "(PeerID, u32) asys"
  assumes inv: "a_inv P \<alpha>" and node: "s_nodes \<alpha> d = abs_node t s" and x: "proj_accept a = Some x"
    and mem: "(s', d, x) \<in># s_net \<alpha>" and rel: "relevant a s"
  defines "\<beta> \<equiv> a_answer P s' d x \<alpha>" and "c \<equiv> counted a s"
  shows "s_nodes \<beta> = (s_nodes \<alpha>)(d := abs_node t (checked (amajority P) c))"
    and "s_net \<beta> = s_net \<alpha> - {#(s', d, x)#} + round_sends d r P (amajority P) c"
    and "s_decided \<beta> =
      s_decided \<alpha> \<union> (\<lambda>(p, _, v). (p, set v)) ` set (round_decisions d r (amajority P) c)"
    and "g_initial \<beta> = g_initial \<alpha>"
proof -
  let ?\<gamma> = "a_count s' d x \<alpha>"
  have notprop: "\<not> is_prop x" using x by (auto simp: proj_accept_def split: if_splits)
  have started: "an_started (s_nodes \<alpha> d)" by (rule answers_started [OF inv mem notprop])
  have "\<not> an_completed (s_nodes \<alpha> d)" using node rel by (simp add: relevant_def)
  then have bound: "unat (rs_acks s) + unat (rs_nacks s) \<le> 256"
    using answers_bounded [OF inv started] node by simp
  note cnt = abs_counted [OF x bound, folded c_def]
  have eq: "\<beta> = a_check P d ?\<gamma>"
    using rel x node unfolding \<beta>_def a_answer_def
    by (auto simp: relevant_def proj_accept_def split: if_splits)
  have node': "s_nodes ?\<gamma> d = abs_node t c" by (simp add: a_count_def Let_def node cnt(1))
  have invb: "a_inv P \<beta>"
    unfolding \<beta>_def by (rule a_inv_step [OF a_step.answer [OF mem notprop] _ inv]) simp
  have nowrap: "unat (rs_active_proposal_number c) + 1 < 4294967296" if "moves (amajority P) c"
  proof -
    have t: "t" using started node by simp
    have "s_nodes \<beta> d = (abs_node t c)\<lparr>an_number := Suc (an_number (abs_node t c)), an_acks := 0, an_nacks := 0\<rparr>"
      using that node' unfolding eq a_check_def moves_iff [OF cnt(2)] by (simp add: a_move_def Let_def)
    then show ?thesis using numbers_bounded [OF invb, of d] t by simp
  qed
  note fields = a_check_fields [where P = P, OF node' cnt(2) nowrap, folded eq]
  show "s_nodes \<beta> = (s_nodes \<alpha>)(d := abs_node t (checked (amajority P) c))"
    using fields(1) by (simp add: a_count_def Let_def)
  show "s_net \<beta> = s_net \<alpha> - {#(s', d, x)#} + round_sends d r P (amajority P) c"
    using fields(2) [of r] by (simp add: a_count_def Let_def)
  show "s_decided \<beta> =
      s_decided \<alpha> \<union> (\<lambda>(p, _, v). (p, set v)) ` set (round_decisions d r (amajority P) c)"
    using fields(3) [of r] by (simp add: a_count_def Let_def)
  show "g_initial \<beta> = g_initial \<alpha>" using fields(4) by (simp add: a_count_def Let_def)
qed

lemma sim_deliver_answer:
  fixes \<sigma> r d
  defines "s \<equiv> round_view (ls_nodes \<sigma> d) r"
  assumes inv: "a_inv P \<alpha>" and sim: "sim P r \<sigma> \<alpha>" and dP: "d \<in> P" and mem: "(sender, d, m) \<in># ls_net \<sigma>"
    and mem': "(sender, d, x) \<in># s_net \<alpha>" and proj1: "proj1 r (sender, d, m) = {#(sender, d, x)#}"
    and x: "proj_accept a = Some x"
    and view: "round_view la r = (if relevant a s then checked (amajority P) (counted a s) else s)"
    and sends: "proj_sends r d es = (if relevant a s then round_sends d r P (amajority P) (counted a s) else {#})"
    and decs: "in_round r (effect_decisions d es) =
      (if relevant a s then round_decisions d r (amajority P) (counted a s) else [])"
  shows "sim P r (ls_apply d la es (\<sigma>\<lparr>ls_net := ls_net \<sigma> - {#(sender, d, m)#}\<rparr>)) (a_answer P sender d x \<alpha>)"
proof (cases "relevant a s")
  case rel: True
  have node: "s_nodes \<alpha> d = abs_node (has_proposed \<sigma> r d) s" using sim dP by (simp add: sim_def s_def)
  note f = answer_fields(1,4) [OF inv node x mem' rel]
    answer_fields(2,3) [where r = r, OF inv node x mem' rel]
  show ?thesis
    by (rule sim_deliver [OF sim dP mem])
      (use f rel view sends decs proj1 in \<open>auto simp: s_def [symmetric] round_decisions_def checked_def relevant_def
        counted_def simp del: proj1.simps\<close>)
next
  case irrel: False
  have node: "s_nodes \<alpha> d = abs_node (has_proposed \<sigma> r d) s" using sim dP by (simp add: sim_def s_def)
  have "rs_completed s \<or> unat (rs_active_proposal_number s) \<noteq> answer_number x"
    using irrel x by (auto simp: relevant_def proj_accept_def word_unat_eq_iff split: if_splits)
  then have "a_answer P sender d x \<alpha> = a_drop (sender, d, x) \<alpha>" using node by (auto simp: a_answer_def)
  then show ?thesis
    using irrel view sends decs proj1 node
    by (intro sim_deliver [OF sim dP mem]) (auto simp: s_def a_drop_def simp del: proj1.simps)
qed

lemma sim_deliver_accept:
  assumes inv: "a_inv P \<alpha>" and sim: "sim P r \<sigma> \<alpha>" and good: "node_good P (ls_nodes \<sigma> d)"
    and ok: "payload_ok (AcceptPayload m)" and dP: "d \<in> P"
    and mem: "(s, d, AcceptPayload m) \<in># ls_net \<sigma>"
    and step: "HandlePayload s (AcceptPayload m) (ls_nodes \<sigma> d) = (la, es)"
  shows "\<exists>\<beta>. (\<beta> = \<alpha> \<or> a_step P \<alpha> \<beta>) \<and>
    sim P r (ls_apply d la es (\<sigma>\<lparr>ls_net := ls_net \<sigma> - {#(s, d, AcceptPayload m)#}\<rparr>)) \<beta>"
proof -
  let ?la = "ls_nodes \<sigma> d" and ?first = "am_first_round_id m" and ?as = "accepts m"
  let ?a = "?as ! (r - unat ?first)" and ?s = "round_view ?la r"
  let ?\<tau> = "ls_apply d la es (\<sigma>\<lparr>ls_net := ls_net \<sigma> - {#(s, d, AcceptPayload m)#}\<rparr>)"
  have fits: "batch_fits ?first ?as" and en: "enumerates (la_hosts ?la) P"
    and maj: "Majority ?la = amajority P"
    using ok good by (simp_all add: node_good_def Majority_def amajority_def)
  have la: "la = fst (HandleAccepts ?first ?as ?la)" and es: "es = snd (HandleAccepts ?first ?as ?la)"
    using step by (auto simp: HandlePayload_def HandleAcceptMessage_def)
  note view = HandleAccepts_view(1) [where r = r, OF fits en, unfolded maj, folded la]
    HandleAccepts_view(3,4) [where r = r and p = d, OF fits en, unfolded maj, folded es]
  show ?thesis
  proof (cases "in_batch r ?first ?as \<and> proj_accept ?a \<noteq> None")
    case False
    then have "\<not> (in_batch r ?first ?as \<and> relevant ?a ?s)"
      by (auto simp: relevant_def proj_accept_def split: if_splits)
    then have "sim P r ?\<tau> \<alpha>"
      using False view by (intro sim_deliver_stutter [OF sim dP mem]) auto
    then show ?thesis by blast
  next
    case True
    then obtain x where x: "proj_accept ?a = Some x" by blast
    let ?\<beta> = "a_answer P s d x \<alpha>"
    have proj1: "proj1 r (s, d, AcceptPayload m) = {#(s, d, x)#}" using True x by simp
    then have mem': "(s, d, x) \<in># s_net \<alpha>"
      using sim proj_net_member [OF mem, of r] by (simp add: sim_def)
    have notprop: "\<not> is_prop x" using x by (auto simp: proj_accept_def split: if_splits)
    have "sim P r ?\<tau> ?\<beta>"
      using True x notprop view
      by (intro sim_deliver_answer [OF inv sim dP mem mem' proj1 x]) auto
    then show ?thesis using a_step.answer [OF mem' notprop] by blast
  qed
qed

section \<open>Proposing\<close>

abbreviation after_propose :: "PeerID \<Rightarrow> ProposalMessage \<Rightarrow> LatticeAgreement \<Rightarrow> LAPayload LAEffect list \<Rightarrow>
    la_system \<Rightarrow> la_system" where
  "after_propose p m la es \<sigma> \<equiv> (ls_apply p la es \<sigma>)\<lparr>ls_proposed := (ls_proposed \<sigma>)
     (p := ls_proposed \<sigma> p @ map proposed_value (proposals m))\<rparr>"

lemma has_proposed_after:
  assumes "proposal_batch \<sigma> p m"
  shows "has_proposed (after_propose p m la es \<sigma>) r q \<longleftrightarrow>
    has_proposed \<sigma> r q \<or> q = p \<and> in_batch r (pm_first_round_id m) (proposals m)"
  using assms by (auto simp: has_proposed_def proposal_batch_def in_batch_def)

lemma sim_propose_new:
  fixes m r \<sigma> p
  defines "v \<equiv> proposed_value (proposals m ! (r - unat (pm_first_round_id m)))"
  assumes sim: "sim P r \<sigma> \<alpha>" and batch: "proposal_batch \<sigma> p m"
    and within: "in_batch r (pm_first_round_id m) (proposals m)"
    and view: "round_view la r = (round_view (ls_nodes \<sigma> p) r)\<lparr>rs_proposed_value := v\<rparr>"
    and sends: "proj_sends r p es = to_all P p (AProp 0 (set v))" and dec: "effect_decisions p es = []"
  shows "sim P r (after_propose p m la es \<sigma>) (a_propose P p (set v) \<alpha>)"
proof -
  let ?\<tau> = "after_propose p m la es \<sigma>" and ?\<beta> = "a_propose P p (set v) \<alpha>"
  note prp = has_proposed_after [OF batch]
  have new: "ls_proposed ?\<tau> p ! r = v"
    using within batch by (auto simp: proposal_batch_def in_batch_def nth_append v_def)
  show ?thesis
    unfolding sim_def
  proof (intro conjI ballI impI)
    show "s_net ?\<beta> = proj_net r (ls_net ?\<tau>)"
      using sim sends by (simp add: sim_def a_propose_def proj_sends_def)
    show "s_decided ?\<beta> = (\<lambda>(p, _, v). (p, set v)) ` set (in_round r (ls_decisions ?\<tau>))"
      using sim by (simp add: sim_def a_propose_def dec)
    fix q assume q: "q \<in> P"
    show "s_nodes ?\<beta> q = abs_node (has_proposed ?\<tau> r q) (round_view (ls_nodes ?\<tau> q) r)"
      using sim q within view by (auto simp: sim_def a_propose_def prp abs_node_def)
    show "g_initial ?\<beta> q = set (ls_proposed ?\<tau> q ! r)" if "has_proposed ?\<tau> r q"
      using sim q that new by (auto simp: sim_def a_propose_def prp)
    show "length (decisions_of q r ?\<tau>) = (if rs_completed (round_view (ls_nodes ?\<tau> q) r) then 1 else 0)"
      using sim q view by (simp add: sim_def decisions_of_def dec)
  qed
qed

lemma sim_propose:
  assumes sim: "sim P r \<sigma> \<alpha>" and good: "node_good P (ls_nodes \<sigma> p)" and pP: "p \<in> P"
    and batch: "proposal_batch \<sigma> p m" and step: "Propose m (ls_nodes \<sigma> p) = Inr (la, fs, es)"
  shows "\<exists>\<beta>. (\<beta> = \<alpha> \<or> a_step P \<alpha> \<beta>) \<and> sim P r (after_propose p m la es \<sigma>) \<beta>"
proof -
  let ?la = "ls_nodes \<sigma> p" and ?first = "pm_first_round_id m" and ?ps = "proposals m"
  let ?\<tau> = "after_propose p m la es \<sigma>" and ?v = "proposed_value (proposals m ! (r - unat (pm_first_round_id m)))"
  have fits: "batch_fits ?first ?ps" using proposal_batch_ok [OF batch] by simp
  have rounds: "Propose_rounds ?first ?ps ?la = Inr (la, fs)"
    and es: "es = BestEffortBroadcast la (ProposalPayload m)"
    using step by (auto simp: Propose_def fbind_eq_Inr)
  note view = Propose_rounds_view(1) [OF fits rounds, of r]
  have "node_good P la" by (rule Propose_good(1) [OF good proposal_batch_ok [OF batch] step])
  then have sends: "proj_sends r p es =
      (case proj r (ProposalPayload m) of None \<Rightarrow> {#} | Some a \<Rightarrow> to_all P p a)"
    unfolding es by (intro proj_sends_broadcast) (simp add: node_good_def)
  have dec: "effect_decisions p es = []" unfolding es by simp
  show ?thesis
  proof (cases "in_batch r ?first ?ps")
    case False
    have "(ls_proposed \<sigma> p @ xs) ! r = ls_proposed \<sigma> p ! r" if "has_proposed \<sigma> r p" for xs
      using that by (auto simp: has_proposed_def nth_append)
    with False have "sim P r ?\<tau> \<alpha>"
      unfolding sim_def using sim view sends
      by (auto simp: sim_def decisions_of_def has_proposed_after [OF batch] proj_sends_def dec)
    then show ?thesis by blast
  next
    case True
    have "\<not> has_proposed \<sigma> r p" "?v \<noteq> []" and zero: "active_proposal_number (?ps ! (r - unat ?first)) = 0"
      using True batch by (auto simp: proposal_batch_def in_batch_def has_proposed_def)
    then have "a_step P \<alpha> (a_propose P p (set ?v) \<alpha>)"
      using sim pP by (intro a_step.propose) (auto simp: sim_def)
    moreover have "sim P r ?\<tau> (a_propose P p (set ?v) \<alpha>)"
      using True view sends zero by (intro sim_propose_new [OF sim batch _ _ _ dec]) (simp_all add: proj_proposal_def)
    ultimately show ?thesis by blast
  qed
qed

section \<open>Runs\<close>

definition sys_ok :: "PeerID set \<Rightarrow> la_system \<Rightarrow> bool" where
  "sys_ok P \<sigma> \<longleftrightarrow> (\<forall>p\<in>P. node_good P (ls_nodes \<sigma> p)) \<and> net_ok P (ls_net \<sigma>)"

definition refines :: "PeerID set \<Rightarrow> la_system \<Rightarrow> bool" where
  "refines P \<sigma> \<longleftrightarrow> (\<forall>r. \<exists>\<alpha>. a_reach P \<alpha> \<and> sim P r \<sigma> \<alpha>)"

lemma sys_ok_step:
  assumes "ls_step P \<sigma> \<tau>" and "sys_ok P \<sigma>"
  shows "sys_ok P \<tau>"
  using assms
proof (induction rule: ls_step.induct)
  case (propose p \<sigma> m la fs es)
  then have good: "node_good P (ls_nodes \<sigma> p)" by (simp add: sys_ok_def)
  note new = Propose_good [OF good proposal_batch_ok [OF propose(2)] propose(3)]
  show ?case using propose new net_ok_sends [OF new(2) propose(1)] by (auto simp: sys_ok_def)
next
  case (deliver s d m \<sigma> la es)
  then have m: "s \<in> P" "d \<in> P" "payload_ok m" by (auto simp: sys_ok_def net_ok_def)
  with deliver have good: "node_good P (ls_nodes \<sigma> d)" by (simp add: sys_ok_def)
  note new = HandlePayload_good [OF good m(3,1), unfolded deliver(2), simplified]
  show ?case using deliver new net_ok_sends [OF new(2) m(2)] by (auto simp: sys_ok_def net_ok_remove)
qed

lemma sim_step:
  assumes "ls_step P \<sigma> \<tau>" and "sys_ok P \<sigma>" and "a_reach P \<alpha>" and "sim P r \<sigma> \<alpha>"
  shows "\<exists>\<beta>. (\<beta> = \<alpha> \<or> a_step P \<alpha> \<beta>) \<and> sim P r \<tau> \<beta>"
  using assms
proof (induction rule: ls_step.induct)
  case (propose p \<sigma> m la fs es)
  then show ?case by (intro sim_propose) (auto simp: sys_ok_def)
next
  case (deliver s d m \<sigma> la es)
  then have m: "d \<in> P" "payload_ok m" by (auto simp: sys_ok_def net_ok_def)
  with deliver have good: "node_good P (ls_nodes \<sigma> d)" by (simp add: sys_ok_def)
  have inv: "a_inv P \<alpha>" using deliver by (intro a_reach_inv) auto
  show ?case
  proof (cases m)
    case (ProposalPayload pm)
    then show ?thesis using sim_deliver_proposal [OF deliver(5) good _ m(1)] deliver(1,2) m(2) by blast
  next
    case (AcceptPayload am)
    then show ?thesis using sim_deliver_accept [OF inv deliver(5) good _ m(1)] deliver(1,2) m(2) by blast
  next
    case (DecidePayload dm)
    then have "la = ls_nodes \<sigma> d" "es = []" using deliver(2) by (auto simp: HandlePayload_def)
    with DecidePayload show ?thesis
      using sim_deliver_stutter [OF deliver(5) m(1) deliver(1), of la es] by (auto simp: proj_sends_def)
  qed
qed

lemma sys_ok_init:
  assumes "same_network P hosts"
  shows "sys_ok P (ls_init hosts)" and "sim P r (ls_init hosts) asys_init"
proof -
  show "sys_ok P (ls_init hosts)"
    using assms by (auto simp: sys_ok_def ls_init_def net_ok_def node_good_def LatticeAgreement_init_def
        round_view_def values_ok_def same_network_def enumerates_size)
  show "sim P r (ls_init hosts) asys_init"
    by (auto simp: sim_def ls_init_def asys_init_def anode_init_def abs_node_def has_proposed_def
        LatticeAgreement_init_def round_view_def decisions_of_def)
qed

lemma ls_reach_refines:
  assumes "ls_reach P hosts \<sigma>" and "same_network P hosts"
  shows "sys_ok P \<sigma> \<and> refines P \<sigma>"
  using assms
proof (induction rule: ls_reach.induct)
  case start
  then show ?case using sys_ok_init [of P hosts] by (auto simp: refines_def intro: a_reach.start)
next
  case (step \<sigma> \<tau>)
  then have "sys_ok P \<sigma>" "refines P \<sigma>" by simp_all
  moreover have "sys_ok P \<tau>" using sys_ok_step [OF step(2)] calculation(1) .
  ultimately show ?case
    using sim_step [OF step(2)] unfolding refines_def by (metis a_reach.step)
qed

end
