(* ===== verification/Lattice_Liveness.thy ===== *)
theory Lattice_Liveness
  imports Lattice_Spec
begin

text \<open>
  Progress of the abstract protocol without failures: the exchange of the current proposal
  with every acceptor is either under way or heard, so a round with no message under way has
  no waiting proposer.
\<close>

definition live :: "'p set \<Rightarrow> ('p, 'v) asys \<Rightarrow> bool" where
  "live P \<sigma> \<longleftrightarrow> (\<forall>p\<in>P. \<forall>a\<in>P. an_started (s_nodes \<sigma> p) \<and> \<not> an_completed (s_nodes \<sigma> p) \<longrightarrow>
     0 < exch \<sigma> p a (an_number (s_nodes \<sigma> p)))"

lemma liveD:
  "live P \<sigma> \<Longrightarrow> p \<in> P \<Longrightarrow> a \<in> P \<Longrightarrow> an_started (s_nodes \<sigma> p) \<Longrightarrow> \<not> an_completed (s_nodes \<sigma> p) \<Longrightarrow>
     0 < exch \<sigma> p a (an_number (s_nodes \<sigma> p))"
  by (simp add: live_def)

lemma live_propose:
  assumes "live P \<sigma>" and "finite P" and "an_number (s_nodes \<sigma> p) = 0"
  shows "live P (a_propose P p v \<sigma>)"
  using assms by (auto simp: live_def a_propose_def exch_def tok_to_all)

lemma live_accept:
  assumes "live P \<sigma>" and mem: "(p, a, AProp k v) \<in># s_net \<sigma>"
  shows "live P (a_accept p a k v \<sigma>)"
proof -
  have "exch (a_accept p a k v \<sigma>) q b j = exch \<sigma> q b j" for q b j
    using tok_remove [OF mem, of q b j] by (auto simp: exch_def a_accept_def Let_def)
  then show ?thesis using assms(1) by (simp add: live_def a_accept_def Let_def)
qed

lemma about_answer: "\<not> is_prop m \<Longrightarrow> about q b j (a, p, m) \<longleftrightarrow> q = p \<and> b = a \<and> j = answer_number m"
  by (cases m) auto

lemma live_drop:
  assumes "live P \<sigma>" and mem: "(a, p, m) \<in># s_net \<sigma>" and "\<not> is_prop m"
    and "an_completed (s_nodes \<sigma> p) \<or> an_number (s_nodes \<sigma> p) \<noteq> answer_number m"
  shows "live P (a_drop (a, p, m) \<sigma>)"
proof -
  have "exch (a_drop (a, p, m) \<sigma>) q b (an_number (s_nodes \<sigma> q)) = exch \<sigma> q b (an_number (s_nodes \<sigma> q))"
    if "\<not> an_completed (s_nodes \<sigma> q)" for q b
    using tok_remove [OF mem, of q b "an_number (s_nodes \<sigma> q)"] assms(4) that
    by (auto simp: exch_def a_drop_def about_answer [OF assms(3)] split: if_splits)
  then show ?thesis using assms(1) by (simp add: live_def a_drop_def)
qed

lemma live_count:
  assumes "live P \<sigma>" and mem: "(a, p, m) \<in># s_net \<sigma>" and "\<not> is_prop m"
    and "an_number (s_nodes \<sigma> p) = answer_number m" and fresh: "a \<notin> g_heard \<sigma> p (answer_number m)"
  shows "live P (a_count a p m \<sigma>)"
proof -
  have "exch (a_count a p m \<sigma>) q b j = exch \<sigma> q b j" for q b j
    using tok_remove [OF mem, of q b j] assms(4) fresh
    by (auto simp: exch_def a_count_def Let_def about_answer [OF assms(3)] split: if_splits)
  moreover have "an_started (s_nodes (a_count a p m \<sigma>) q) = an_started (s_nodes \<sigma> q)"
    "an_completed (s_nodes (a_count a p m \<sigma>) q) = an_completed (s_nodes \<sigma> q)"
    "an_number (s_nodes (a_count a p m \<sigma>) q) = an_number (s_nodes \<sigma> q)" for q
    by (cases m; simp add: a_count_def Let_def)+
  ultimately show ?thesis using assms(1) by (simp add: live_def)
qed

lemma live_check:
  assumes "live P \<sigma>" and "finite P"
  shows "live P (a_check P p \<sigma>)"
  using assms
  by (auto simp: a_check_def Let_def a_decide_def a_move_def live_def exch_def tok_to_all)

lemma heard_once:
  assumes "a_inv P \<sigma>" and mem: "(a, p, m) \<in># s_net \<sigma>" and "\<not> is_prop m"
  shows "a \<notin> g_heard \<sigma> p (answer_number m)"
proof -
  have "exch \<sigma> p a (answer_number m) \<le> (if issued \<sigma> p (answer_number m) then 1 else 0)"
    using assms(1) unfolding a_inv_def core_inv_def inv_tok_def by blast
  moreover have "0 < tok (s_net \<sigma>) p a (answer_number m)"
    using tok_remove [OF mem, of p a "answer_number m"] by (simp add: about_answer [OF assms(3)])
  ultimately show ?thesis by (auto simp: exch_def split: if_splits)
qed

lemma live_step:
  assumes "a_step P \<sigma> \<tau>" and "finite P" and "a_inv P \<sigma>" and "live P \<sigma>"
  shows "live P \<tau>"
  using assms
proof (induction rule: a_step.induct)
  case (propose p \<sigma> v)
  then have "an_number (s_nodes \<sigma> p) = 0"
    by (auto simp: a_inv_def core_inv_def node_ok_def Let_def split: if_splits)
  with propose show ?case by (intro live_propose)
next
  case (accept p a k v \<sigma>)
  then show ?case by (intro live_accept)
next
  case (answer a p m \<sigma>)
  then show ?case
    using heard_once [OF answer.prems(2) answer.hyps]
    by (auto simp: a_answer_def intro!: live_drop live_check live_count)
qed

lemma a_reach_live:
  assumes "a_reach P \<sigma>" and "finite P"
  shows "live P \<sigma>"
  using assms
proof (induction rule: a_reach.induct)
  case start
  then show ?case by (simp add: live_def asys_init_def anode_init_def)
next
  case (step \<sigma> \<tau>)
  then show ?case by (metis a_reach_inv live_step)
qed

lemma quiescent_decided:
  assumes reach: "a_reach P \<sigma>" and fin: "finite P" and net: "s_net \<sigma> = {#}"
    and p: "p \<in> P" "an_started (s_nodes \<sigma> p)"
  shows "an_completed (s_nodes \<sigma> p)"
proof (rule ccontr)
  let ?n = "s_nodes \<sigma> p"
  assume waiting: "\<not> an_completed ?n"
  have inv: "a_inv P \<sigma>" by (rule a_reach_inv [OF reach fin])
  have "P \<subseteq> g_heard \<sigma> p (an_number ?n)"
  proof
    fix a assume "a \<in> P"
    then have "0 < exch \<sigma> p a (an_number ?n)"
      using liveD [OF a_reach_live [OF reach fin]] p waiting by blast
    then show "a \<in> g_heard \<sigma> p (an_number ?n)" using net by (simp add: exch_def tok_def split: if_splits)
  qed
  moreover have "g_heard \<sigma> p (an_number ?n) \<subseteq> P"
    using inv unfolding a_inv_def core_inv_def inv_heard_def by blast
  ultimately have "g_heard \<sigma> p (an_number ?n) = P" by simp
  moreover have "node_ok P \<sigma> p" "settled P \<sigma> p" using inv by (auto simp: a_inv_def core_inv_def)
  ultimately have sum: "an_acks ?n + an_nacks ?n = card P" and
    low: "an_acks ?n < amajority P" "an_nacks ?n > 0 \<longrightarrow> an_acks ?n + an_nacks ?n < amajority P"
    using waiting p by (auto simp: node_ok_def settled_def Let_def)
  have "0 < card P" using p(1) fin by (auto simp: card_gt_0_iff)
  then have "amajority P \<le> card P" by (simp add: amajority_def)
  then show False using sum low by (cases "an_nacks ?n = 0") auto
qed

end
