(* ===== verification/Lattice_Properties.thy ===== *)
theory Lattice_Properties
  imports Lattice_Simulation Lattice_Liveness
begin

text \<open>
  What lattice agreement guarantees to its callers, for every reachable state of the system:
  the decisions of a round are comparable and bracketed by the proposals, a process decides a
  round once, and \<open>Propose\<close> never runs into its assertions. The demonstration run at the end
  shows that the hypotheses of the theorems hold together.
\<close>

section \<open>Futures of rounds to come\<close>

text \<open>
  The rounds from \<open>n\<close> on have not been proposed; where messages have already created
  them, the future that \<open>Propose\<close> hands out is still there.
\<close>

definition futures_ready :: "nat \<Rightarrow> LatticeAgreement \<Rightarrow> bool" where
  "futures_ready n la \<longleftrightarrow> n \<le> length (la_round_states la) \<and>
     (\<forall>r. n \<le> r \<and> r < length (la_round_states la) \<longrightarrow>
        (\<exists>c. rs_preliminary_future (la_round_states la ! r) = Some (Some c)))"

lemma ready_set_round_state:
  assumes "futures_ready n la" and "unat round < length (la_round_states la)"
    and "rs_preliminary_future s = rs_preliminary_future (round_state round la)"
  shows "futures_ready n (set_round_state round s la)"
  using assms by (auto simp: futures_ready_def set_round_state_def round_state_def nth_list_update)

lemma ready_InitializeEmptyRoundStates:
  "futures_ready n la \<Longrightarrow> futures_ready n (InitializeEmptyRoundStates round la)"
proof (induction round la rule: InitializeEmptyRoundStates.induct)
  case (1 round la)
  show ?case
  proof (cases "unat round \<ge> length (la_round_states la)")
    case True
    obtain la' p where mk: "MakeContract la = (la', p)" by (cases "MakeContract la")
    let ?s = "(RoundState_init [] (Some p))\<lparr>rs_preliminary_future := Some (Some p)\<rparr>"
    have "la_round_states la' = la_round_states la" using mk by (auto simp: MakeContract_def)
    then have "futures_ready n (emplace_round ?s la')"
      using "1.prems" by (auto simp: futures_ready_def emplace_round_def nth_append)
    then show ?thesis
      using "1.IH" [OF True mk [symmetric] refl] True mk
      by (simp add: InitializeEmptyRoundStates.simps [of round la])
  next
    case False
    then show ?thesis using "1.prems" by (simp add: InitializeEmptyRoundStates.simps [of round la])
  qed
qed

lemma ready_GetRoundState: "futures_ready n la \<Longrightarrow> futures_ready n (GetRoundState round la)"
  by (simp add: GetRoundState_def ready_InitializeEmptyRoundStates)

lemma ready_HandlePropose:
  "futures_ready n la \<Longrightarrow> futures_ready n (fst (HandlePropose round p la))"
  using ready_GetRoundState [of n la round]
  by (auto simp: HandlePropose_def Let_def intro!: ready_set_round_state)

lemma ready_HandleProposals:
  "futures_ready n la \<Longrightarrow> futures_ready n (fst (HandleProposals first ps la))"
  by (induction ps arbitrary: first la) (simp_all add: case_prod_beta Let_def ready_HandlePropose)

lemma ready_CheckAckNackConditions:
  assumes "futures_ready n la" and "unat round < length (la_round_states la)"
  shows "futures_ready n (fst (CheckAckNackConditions round la))"
  using assms
  by (auto simp: CheckAckNackConditions_def Let_def Decide_def MoveToNextProposalNumber_def
      intro!: ready_set_round_state)

lemma ready_HandleAccept:
  assumes "futures_ready n la"
  shows "futures_ready n (fst (HandleAccept round a la))"
proof -
  have "futures_ready n (set_round_state round (counted a (round_state round (GetRoundState round la)))
      (GetRoundState round la))"
    using ready_GetRoundState [OF assms] by (intro ready_set_round_state) (auto simp: counted_def)
  then show ?thesis
    using assms ready_GetRoundState [OF assms, of round]
    by (auto simp: HandleAccept_eq Let_def intro!: ready_CheckAckNackConditions)
qed

lemma ready_HandleAccepts:
  "futures_ready n la \<Longrightarrow> futures_ready n (fst (HandleAccepts first as la))"
  by (induction as arbitrary: first la) (simp_all add: case_prod_beta Let_def ready_HandleAccept)

lemma ready_HandlePayload:
  "futures_ready n la \<Longrightarrow> futures_ready n (fst (HandlePayload s m la))"
  by (cases m) (auto simp: HandlePayload_def HandleProposalMessage_def HandleAcceptMessage_def
      case_prod_beta Let_def ready_HandleProposals ready_HandleAccepts)

lemma ready_InitializeNextRoundState:
  assumes "futures_ready (unat round) la"
  shows "\<exists>la' c. InitializeNextRoundState round v la = Inr (la', Some c) \<and> futures_ready (Suc (unat round)) la'"
proof (cases "unat round < length (la_round_states la)")
  case True
  then obtain c where "rs_preliminary_future (round_state round la) = Some (Some c)"
    using assms by (auto simp: futures_ready_def round_state_def)
  with True show ?thesis
    using assms by (auto simp: InitializeNextRoundState_def Let_def futures_ready_def set_round_state_def)
next
  case False
  then have "unat round = length (la_round_states la)" using assms by (simp add: futures_ready_def)
  then show ?thesis
    by (auto simp: InitializeNextRoundState_def MakeContract_def emplace_round_def futures_ready_def)
qed

lemma ready_Propose_rounds:
  assumes "batch_fits first ps" and "futures_ready (unat first) la"
  shows "\<exists>la' fs. Propose_rounds first ps la = Inr (la', fs) \<and> length fs = length ps \<and> None \<notin> set fs \<and>
    futures_ready (unat first + length ps) la'"
  using assms
proof (induction ps arbitrary: first la)
  case Nil
  then show ?case by simp
next
  case (Cons p ps)
  obtain la1 c where one: "InitializeNextRoundState first (proposed_value p) la = Inr (la1, Some c)"
    "futures_ready (Suc (unat first)) la1"
    using ready_InitializeNextRoundState [OF Cons.prems(2)] by blast
  show ?case
  proof (cases "ps = []")
    case True
    with one show ?thesis by simp
  next
    case False
    then have next_id: "unat (first + 1) = Suc (unat first)" by (rule batch_fits_Cons [OF Cons.prems(1)])
    then show ?thesis
      using Cons.IH [OF batch_fits_tl [OF Cons.prems(1)], of la1] one by (auto simp: fbind_eq_Inr)
  qed
qed

lemma ready_Propose:
  assumes "proposal_batch \<sigma> p m" and "futures_ready (length (ls_proposed \<sigma> p)) la"
  shows "\<exists>la' fs es. Propose m la = Inr (la', fs, es) \<and> length fs = length (proposals m) \<and> None \<notin> set fs \<and>
    futures_ready (length (ls_proposed \<sigma> p) + length (proposals m)) la'"
proof -
  have "batch_fits (pm_first_round_id m) (proposals m)" "unat (pm_first_round_id m) = length (ls_proposed \<sigma> p)"
    using proposal_batch_ok [OF assms(1)] assms(1) by (auto simp: proposal_batch_def)
  then show ?thesis
    using ready_Propose_rounds [of "pm_first_round_id m" "proposals m" la] assms(2)
    by (auto simp: Propose_def)
qed

lemma ls_reach_ready: "ls_reach P hosts \<sigma> \<Longrightarrow> futures_ready (length (ls_proposed \<sigma> p)) (ls_nodes \<sigma> p)"
proof (induction arbitrary: p rule: ls_reach.induct)
  case start
  then show ?case by (simp add: ls_init_def futures_ready_def LatticeAgreement_init_def)
next
  case (step \<sigma> \<tau>)
  from step(2) show ?case
  proof cases
    case (propose q m la fs es)
    then show ?thesis using step.IH ready_Propose [OF propose(3) step.IH [of q]] by auto
  next
    case (deliver s d m la es)
    then show ?thesis using step.IH ready_HandlePayload [OF step.IH [of d], of s m] by auto
  qed
qed

section \<open>A demonstration run\<close>

text \<open>
  Two processes. Process 1 proposes \<open>{7}\<close> in round 0, both acceptors take it, the two
  answers come back and process 1 decides \<open>{7}\<close>. Then process 2 proposes \<open>{8}\<close>: both
  acceptors refuse with \<open>{7, 8}\<close>, process 2 refines its proposal, and decides \<open>{7, 8}\<close>
  when both accept it.
\<close>

definition run_propose :: "PeerID \<Rightarrow> ProposalMessage \<Rightarrow> la_system \<Rightarrow> la_system" where
  "run_propose p m \<sigma> = (case Propose m (ls_nodes \<sigma> p) of
     Inl e \<Rightarrow> \<sigma> | Inr (la, fs, es) \<Rightarrow> after_propose p m la es \<sigma>)"

definition run_deliver :: "PeerID \<times> PeerID \<times> LAPayload \<Rightarrow> la_system \<Rightarrow> la_system" where
  "run_deliver x \<sigma> = (case x of (s, d, m) \<Rightarrow> case HandlePayload s m (ls_nodes \<sigma> d) of (la, es) \<Rightarrow>
     ls_apply d la es (\<sigma>\<lparr>ls_net := ls_net \<sigma> - {#x#}\<rparr>))"

lemma reach_run_propose:
  assumes "ls_reach P hosts \<sigma>" and "p \<in> P" and "proposal_batch \<sigma> p m"
  shows "ls_reach P hosts (run_propose p m \<sigma>)"
  using assms by (auto simp: run_propose_def split: sum.split intro: ls_reach.step ls_step.propose)

lemma reach_run_deliver:
  assumes "ls_reach P hosts \<sigma>" and "x \<in># ls_net \<sigma>"
  shows "ls_reach P hosts (run_deliver x \<sigma>)"
  using assms by (cases x) (auto simp: run_deliver_def split: prod.split intro: ls_reach.step ls_step.deliver)

primrec run_deliveries :: "(PeerID \<times> PeerID \<times> LAPayload) list \<Rightarrow> la_system \<Rightarrow> la_system option" where
  "run_deliveries [] \<sigma> = Some \<sigma>"
| "run_deliveries (x # xs) \<sigma> = (if x \<in># ls_net \<sigma> then run_deliveries xs (run_deliver x \<sigma>) else None)"

lemma reach_run_deliveries:
  "ls_reach P hosts \<sigma> \<Longrightarrow> run_deliveries xs \<sigma> = Some \<tau> \<Longrightarrow> ls_reach P hosts \<tau>"
  by (induction xs arbitrary: \<sigma>) (auto intro: reach_run_deliver split: if_splits)

definition demo_hosts :: "PeerID \<Rightarrow> HostsTable" where
  "demo_hosts = HostsTable_init [\<lparr>host_id = 1, host_ip = 0, host_port = 1\<rparr>,
     \<lparr>host_id = 2, host_ip = 0, host_port = 2\<rparr>]"

definition demo_message :: "u32 list \<Rightarrow> u32 \<Rightarrow> ProposalMessage" where
  "demo_message v n = \<lparr>pm_first_round_id = 0,
     proposals = [\<lparr>proposed_value = v, active_proposal_number = n\<rparr>]\<rparr>"

definition demo_answer :: "AcceptStatus \<Rightarrow> u32 \<Rightarrow> u32 list \<Rightarrow> AcceptMessage" where
  "demo_answer status n v = \<lparr>am_first_round_id = 0,
     accepts = [\<lparr>acc_status = status, acc_proposal_number = n, acc_accepted_value = v\<rparr>]\<rparr>"

definition demo_exchange :: "PeerID \<Rightarrow> ProposalMessage \<Rightarrow> AcceptMessage \<Rightarrow>
    (PeerID \<times> PeerID \<times> LAPayload) list" where
  "demo_exchange p m a = [(p, 1, ProposalPayload m), (p, 2, ProposalPayload m),
     (1, p, AcceptPayload a), (2, p, AcceptPayload a)]"

definition demo_first :: "la_system option" where
  "demo_first = run_deliveries (demo_exchange 1 (demo_message [7] 0) (demo_answer kAck 0 []))
     (run_propose 1 (demo_message [7] 0) (ls_init demo_hosts))"

definition demo_run :: "la_system option" where
  "demo_run = run_deliveries
     (demo_exchange 2 (demo_message [8] 0) (demo_answer kNack 0 [7, 8]) @
      demo_exchange 2 (demo_message [8, 7] 1) (demo_answer kAck 1 []))
     (run_propose 2 (demo_message [8] 0) (the demo_first))"

definition demo :: la_system where
  "demo = the demo_run"

lemma demo_network: "same_network {1, 2} demo_hosts"
  by (auto simp: same_network_def demo_hosts_def enumerates_def peers_eq)

lemma demo_outcome:
  "ls_decisions demo = [(1, 0, [7]), (2, 0, [8, 7])]" "ls_proposed demo 1 = [[7]]" "ls_proposed demo 2 = [[8]]"
  by code_simp+

lemma demo_quiet: "ls_net demo = {#}"
  by code_simp

lemma demo_first_runs: "demo_first = Some (the demo_first)"
proof -
  have "demo_first \<noteq> None" by code_simp
  then show ?thesis by simp
qed

lemma demo_runs: "demo_run = Some demo"
proof -
  have "demo_run \<noteq> None" by code_simp
  then show ?thesis by (simp add: demo_def)
qed

lemma demo_batches:
  "proposal_batch (ls_init demo_hosts) 1 (demo_message [7] 0)"
  "proposal_batch (the demo_first) 2 (demo_message [8] 0)"
proof -
  have "ls_proposed (the demo_first) 2 = []" by code_simp
  then show "proposal_batch (the demo_first) 2 (demo_message [8] 0)"
    by (simp add: proposal_batch_def demo_message_def)
qed (simp add: proposal_batch_def ls_init_def demo_message_def)

lemma demo_reach: "ls_reach {1, 2} demo_hosts demo"
proof -
  have "ls_reach {1, 2} demo_hosts (the demo_first)"
    using reach_run_deliveries [OF reach_run_propose [OF ls_reach.start _ demo_batches(1)]] demo_first_runs
    unfolding demo_first_def by blast
  then show ?thesis
    using reach_run_deliveries [OF reach_run_propose [OF _ _ demo_batches(2)]] demo_runs
    unfolding demo_run_def by blast
qed

section \<open>Guarantees\<close>

lemma sim_decided:
  assumes "sim P (unat round) \<sigma> \<alpha>" and "(p, round, v) \<in> set (ls_decisions \<sigma>)"
  shows "(p, set v) \<in> s_decided \<alpha>"
proof -
  have "(p, round, v) \<in> set (in_round (unat round) (ls_decisions \<sigma>))"
    using assms(2) by (simp add: in_round_def)
  then have "(\<lambda>(p, _, v). (p, set v)) (p, round, v) \<in>
      (\<lambda>(p, _, v). (p, set v)) ` set (in_round (unat round) (ls_decisions \<sigma>))"
    by (rule imageI)
  then show ?thesis using assms(1) by (simp add: sim_def)
qed

lemma decided_comparable:
  assumes "ls_reach P hosts \<sigma>" and "same_network P hosts"
    and "(p, round, v) \<in> set (ls_decisions \<sigma>)" and "(q, round, w) \<in> set (ls_decisions \<sigma>)"
  shows "set v \<subseteq> set w \<or> set w \<subseteq> set v"
proof -
  obtain \<alpha> where \<alpha>: "a_reach P \<alpha>" "sim P (unat round) \<sigma> \<alpha>"
    using ls_reach_refines [OF assms(1,2)] by (auto simp: refines_def)
  have "(p, set v) \<in> s_decided \<alpha>" "(q, set w) \<in> s_decided \<alpha>"
    using sim_decided [OF \<alpha>(2)] assms(3,4) by auto
  then show ?thesis using a_decided_comparable [OF a_reach_inv [OF \<alpha>(1)]] by simp
qed

text \<open>C1. Agreement: the values decided in a round, by any two processes, are comparable.\<close>

theorem lattice_agreement:
  assumes "ls_reach P hosts \<sigma>" and "same_network P hosts"
    and "(p, round, v) \<in> set (ls_decisions \<sigma>)" and "(q, round, w) \<in> set (ls_decisions \<sigma>)"
  shows "set v \<subseteq> set w \<or> set w \<subseteq> set v"
  by (rule decided_comparable [OF assms])

theorem lattice_agreement_witness:
  "ls_decisions demo = [(1, 0, [7]), (2, 0, [8, 7])] \<and>
   (set [7 :: u32] \<subseteq> set [8, 7] \<or> set [8, 7] \<subseteq> set [7 :: u32])"
  using lattice_agreement [OF demo_reach demo_network, of 1 0 "[7]" 2 "[8, 7]"] by (simp add: demo_outcome)

lemma sim_started:
  assumes inv: "a_inv P \<alpha>" and sim: "sim P r \<sigma> \<alpha>" and "an_started (s_nodes \<alpha> q)"
  shows "q \<in> P \<and> has_proposed \<sigma> r q \<and> g_initial \<alpha> q = set (ls_proposed \<sigma> q ! r)"
proof -
  have "q \<in> P" using inv assms(3) by (auto simp: a_inv_def core_inv_def node_ok_def Let_def)
  then show ?thesis using sim assms(3) by (simp add: sim_def)
qed

lemma sim_proposals:
  assumes "a_inv P \<alpha>" and "sim P r \<sigma> \<alpha>"
  shows "proposals_of \<alpha> \<subseteq> (\<Union>q\<in>{q \<in> P. has_proposed \<sigma> r q}. set (ls_proposed \<sigma> q ! r))"
  using sim_started [OF assms] unfolding proposals_of_def by blast

lemma decided_valid:
  assumes "ls_reach P hosts \<sigma>" and "same_network P hosts" and "(p, round, v) \<in> set (ls_decisions \<sigma>)"
  shows "has_proposed \<sigma> (unat round) p \<and> set (ls_proposed \<sigma> p ! unat round) \<subseteq> set v \<and>
    set v \<subseteq> (\<Union>q\<in>{q \<in> P. has_proposed \<sigma> (unat round) q}. set (ls_proposed \<sigma> q ! unat round))"
proof -
  let ?r = "unat round"
  obtain \<alpha> where \<alpha>: "a_reach P \<alpha>" and sim: "sim P ?r \<sigma> \<alpha>"
    using ls_reach_refines [OF assms(1,2)] by (auto simp: refines_def)
  have inv: "a_inv P \<alpha>" using a_reach_inv [OF \<alpha>] by simp
  have "(p, set v) \<in> s_decided \<alpha>" by (rule sim_decided [OF sim assms(3)])
  then have val: "g_initial \<alpha> p \<subseteq> set v" "set v \<subseteq> proposals_of \<alpha>" "an_started (s_nodes \<alpha> p)"
    using a_decided_valid [OF inv] by auto
  then show ?thesis using sim_started [OF inv sim val(3)] sim_proposals [OF inv sim] by blast
qed

text \<open>
  C2. Validity: a process decides only in rounds it proposed, the decision contains its own
  proposal, and everything decided was proposed by some process in that round.
\<close>

theorem lattice_validity:
  assumes "ls_reach P hosts \<sigma>" and "same_network P hosts" and "(p, round, v) \<in> set (ls_decisions \<sigma>)"
  shows "has_proposed \<sigma> (unat round) p \<and> set (ls_proposed \<sigma> p ! unat round) \<subseteq> set v \<and>
    set v \<subseteq> (\<Union>q\<in>{q \<in> P. has_proposed \<sigma> (unat round) q}. set (ls_proposed \<sigma> q ! unat round))"
  by (rule decided_valid [OF assms])

theorem lattice_validity_witness:
  "has_proposed demo (unat (0 :: u32)) 2 \<and> set (ls_proposed demo 2 ! unat (0 :: u32)) \<subseteq> set [8, 7] \<and>
   set [8, 7] \<subseteq> (\<Union>q\<in>{q \<in> {1, 2}. has_proposed demo (unat (0 :: u32)) q}. set (ls_proposed demo q ! unat (0 :: u32)))"
  by (rule lattice_validity [OF demo_reach demo_network]) (simp add: demo_outcome)

lemma decided_once:
  assumes "ls_reach P hosts \<sigma>" and "same_network P hosts" and "p \<in> P"
  shows "length (decisions_of p r \<sigma>) = (if rs_completed (round_view (ls_nodes \<sigma> p) r) then 1 else 0)"
proof -
  obtain \<alpha> where "sim P r \<sigma> \<alpha>" using ls_reach_refines [OF assms(1,2)] by (auto simp: refines_def)
  then show ?thesis using assms(3) by (simp add: sim_def)
qed

text \<open>
  C3. Integrity: a process decides at most once in a round, and the round is marked completed
  exactly when it has decided.
\<close>

theorem lattice_integrity:
  assumes "ls_reach P hosts \<sigma>" and "same_network P hosts" and "p \<in> P"
  shows "length (decisions_of p r \<sigma>) \<le> 1 \<and>
    (rs_completed (round_view (ls_nodes \<sigma> p) r) \<longleftrightarrow> decisions_of p r \<sigma> \<noteq> [])"
  using decided_once [OF assms, of r] by (auto simp: Suc_length_conv)

theorem lattice_integrity_witness:
  "length (decisions_of 2 0 demo) \<le> 1 \<and>
    (rs_completed (round_view (ls_nodes demo 2) 0) \<longleftrightarrow> decisions_of 2 0 demo \<noteq> [])"
  by (rule lattice_integrity [OF demo_reach demo_network]) simp

text \<open>
  C4. Proposing the next rounds never fails an assertion, whatever messages arrived before,
  and returns a valid future for every round.
\<close>

theorem propose_succeeds:
  assumes "ls_reach P hosts \<sigma>" and "proposal_batch \<sigma> p m"
  shows "\<exists>la fs es. Propose m (ls_nodes \<sigma> p) = Inr (la, fs, es) \<and>
    length fs = length (proposals m) \<and> None \<notin> set fs"
  using ready_Propose [OF assms(2) ls_reach_ready [OF assms(1)]] by blast

theorem propose_succeeds_witness:
  "\<exists>la fs es. Propose (demo_message [9] 0\<lparr>pm_first_round_id := 1\<rparr>) (ls_nodes demo 1) = Inr (la, fs, es) \<and>
    length fs = length (proposals (demo_message [9] 0\<lparr>pm_first_round_id := 1\<rparr>)) \<and> None \<notin> set fs"
  by (rule propose_succeeds [OF demo_reach])
    (simp add: proposal_batch_def demo_outcome demo_message_def)

lemma quiet_round_decided:
  assumes "ls_reach P hosts \<sigma>" and "same_network P hosts" and "p \<in> P" and "has_proposed \<sigma> r p"
    and "proj_net r (ls_net \<sigma>) = {#}"
  shows "\<exists>v. decisions_of p r \<sigma> = [v]"
proof -
  obtain \<alpha> where \<alpha>: "a_reach P \<alpha>" and sim: "sim P r \<sigma> \<alpha>"
    using ls_reach_refines [OF assms(1,2)] by (auto simp: refines_def)
  have "an_completed (s_nodes \<alpha> p)"
    using quiescent_decided [OF \<alpha>, of p] sim assms(3-5) by (simp add: sim_def)
  then have "length (decisions_of p r \<sigma>) = 1" using sim assms(3) by (simp add: sim_def)
  then show ?thesis by (auto simp: length_Suc_conv)
qed

text \<open>
  C5. Deadlock freedom: when no message of a round is under way, every process that proposed
  the round has decided it.
\<close>

theorem lattice_no_deadlock:
  assumes "ls_reach P hosts \<sigma>" and "same_network P hosts" and "p \<in> P" and "has_proposed \<sigma> r p"
    and "proj_net r (ls_net \<sigma>) = {#}"
  shows "\<exists>v. decisions_of p r \<sigma> = [v]"
  using assms by (rule quiet_round_decided)

theorem lattice_no_deadlock_witness: "\<exists>v. decisions_of 2 0 demo = [v]"
  by (rule lattice_no_deadlock [OF demo_reach demo_network])
    (simp_all add: has_proposed_def demo_outcome demo_quiet)



end
