(* ===== verification/Lattice_Types.thy ===== *)
theory Lattice_Types
  imports Lattice_Properties
begin

text \<open>
  A type discipline for the values of lattice agreement. A vector is typed by a set of values
  when it lists values of the set without repetition; a node and a message are typed when all
  their vectors are and when a message is small enough for its one-byte counter. The handlers
  keep the types, and a typed message survives serialisation when one 32-bit value is spare:
  a vector without repetition then fits its length field.
\<close>

section \<open>Typed values, nodes and messages\<close>

definition value_typed :: "u32 set \<Rightarrow> ProposalT \<Rightarrow> bool" where
  "value_typed U v \<longleftrightarrow> distinct v \<and> set v \<subseteq> U"

definition round_typed :: "u32 set \<Rightarrow> RoundState \<Rightarrow> bool" where
  "round_typed U s \<longleftrightarrow> value_typed U (rs_proposed_value s) \<and> value_typed U (rs_accepted_value s)"

definition node_typed :: "u32 set \<Rightarrow> LatticeAgreement \<Rightarrow> bool" where
  "node_typed U la \<longleftrightarrow> (\<forall>r. round_typed U (round_view la r))"

definition accept_typed :: "u32 set \<Rightarrow> Accept \<Rightarrow> bool" where
  "accept_typed U a \<longleftrightarrow> value_typed U (acc_accepted_value a) \<and> (acc_status a \<noteq> kNack \<longrightarrow> acc_accepted_value a = [])"

fun payload_typed :: "u32 set \<Rightarrow> LAPayload \<Rightarrow> bool" where
  "payload_typed U (ProposalPayload m) \<longleftrightarrow> length (proposals m) < 256 \<and> (\<forall>x\<in>set (proposals m). value_typed U (proposed_value x))"
| "payload_typed U (AcceptPayload m) \<longleftrightarrow> length (accepts m) < 256 \<and> (\<forall>x\<in>set (accepts m). accept_typed U x)"
| "payload_typed U (DecidePayload m) \<longleftrightarrow> True"

fun effect_typed :: "u32 set \<Rightarrow> LAPayload LAEffect \<Rightarrow> bool" where
  "effect_typed U (LASend q m) \<longleftrightarrow> payload_typed U m"
| "effect_typed U (LAFulfil c) \<longleftrightarrow> True"
| "effect_typed U (LACallback r v) \<longleftrightarrow> value_typed U v"

definition effects_typed :: "u32 set \<Rightarrow> LAPayload LAEffect list \<Rightarrow> bool" where
  "effects_typed U es \<longleftrightarrow> (\<forall>e\<in>set es. effect_typed U e)"

lemma value_typed_Nil [simp]: "value_typed U []"
  by (simp add: value_typed_def)

lemma value_typed_union [intro]: "value_typed U v \<Longrightarrow> value_typed U w \<Longrightarrow> value_typed U (VectorSetUnion v w)"
  by (simp add: value_typed_def)

lemma effects_typed_simps [simp]:
  "effects_typed U []"
  "effects_typed U (e # es) \<longleftrightarrow> effect_typed U e \<and> effects_typed U es"
  "effects_typed U (es @ fs) \<longleftrightarrow> effects_typed U es \<and> effects_typed U fs"
  by (auto simp: effects_typed_def)

lemma effects_typed_unfulfilled: "effects_typed U (filter (\<lambda>e. \<not> is_fulfil e) es) \<longleftrightarrow> effects_typed U es"
proof -
  have "effect_typed U e" if "is_fulfil e" for e using that by (cases e) simp_all
  then show ?thesis by (auto simp: effects_typed_def)
qed

lemma effects_typed_broadcast: "payload_typed U m \<Longrightarrow> effects_typed U (BestEffortBroadcast la m)"
  by (auto simp: BestEffortBroadcast_def effects_typed_def)

section \<open>The handlers keep the types\<close>

lemma HandlePropose_typed:
  assumes "node_typed U la" and "value_typed U (proposed_value p)"
  shows "node_typed U (fst (HandlePropose round p la))" and "accept_typed U (snd (HandlePropose round p la))"
  using assms
  by (auto simp: node_typed_def HandlePropose_view round_typed_def accept_update_def answer_to_def accept_typed_def Let_def)

lemma HandleProposals_typed:
  assumes "node_typed U la" and "\<forall>x\<in>set ps. value_typed U (proposed_value x)"
  shows "node_typed U (fst (HandleProposals first ps la)) \<and> length (snd (HandleProposals first ps la)) = length ps \<and>
    (\<forall>x\<in>set (snd (HandleProposals first ps la)). accept_typed U x)"
  using assms
proof (induction ps arbitrary: first la)
  case (Cons p ps)
  then show ?case using Cons.IH [of "fst (HandlePropose first p la)" "first + 1"] by (simp add: case_prod_beta Let_def HandlePropose_typed)
qed simp

lemma counted_typed: "round_typed U s \<Longrightarrow> accept_typed U a \<Longrightarrow> round_typed U (counted a s)"
  by (auto simp: round_typed_def counted_def accept_typed_def)

lemma checked_typed: "round_typed U s \<Longrightarrow> round_typed U (checked maj s)"
  by (auto simp: round_typed_def checked_def)

lemma check_effects_typed: "round_typed U s \<Longrightarrow> effects_typed U (check_effects la round s)"
  by (auto simp: check_effects_def round_typed_def intro!: effects_typed_broadcast)

lemma HandleAccept_typed:
  assumes "node_typed U la" and "accept_typed U a"
  shows "node_typed U (fst (HandleAccept round a la))" and "effects_typed U (snd (HandleAccept round a la))"
proof -
  have view: "round_typed U (round_view la r)" for r using assms(1) by (simp add: node_typed_def)
  show "node_typed U (fst (HandleAccept round a la))"
    by (simp add: node_typed_def HandleAccept_view view checked_typed counted_typed assms(2))
  have "effects_typed U (filter (\<lambda>e. \<not> is_fulfil e) (snd (HandleAccept round a la)))"
    by (simp add: HandleAccept_view check_effects_typed counted_typed view assms(2))
  then show "effects_typed U (snd (HandleAccept round a la))" by (simp only: effects_typed_unfulfilled)
qed

lemma HandleAccepts_typed:
  assumes "node_typed U la" and "\<forall>x\<in>set as. accept_typed U x"
  shows "node_typed U (fst (HandleAccepts first as la)) \<and> effects_typed U (snd (HandleAccepts first as la))"
  using assms
  by (induction as arbitrary: first la) (simp_all add: case_prod_beta Let_def HandleAccept_typed)

lemma HandlePayload_typed:
  assumes "node_typed U la" and "payload_typed U m"
  shows "node_typed U (fst (HandlePayload s m la))" and "effects_typed U (snd (HandlePayload s m la))"
proof -
  have "node_typed U (fst (HandlePayload s m la)) \<and> effects_typed U (snd (HandlePayload s m la))"
  proof (cases m)
    case (ProposalPayload pm)
    then show ?thesis
      using assms HandleProposals_typed [of U la "proposals pm" "pm_first_round_id pm"]
      by (simp add: HandlePayload_def HandleProposalMessage_def case_prod_beta Let_def)
  next
    case (AcceptPayload am)
    then show ?thesis
      using assms HandleAccepts_typed [of U la "accepts am"] by (simp add: HandlePayload_def HandleAcceptMessage_def)
  next
    case (DecidePayload dm)
    then show ?thesis using assms by (simp add: HandlePayload_def)
  qed
  then show "node_typed U (fst (HandlePayload s m la))" "effects_typed U (snd (HandlePayload s m la))" by simp_all
qed

lemma InitializeNextRoundState_typed:
  assumes "InitializeNextRoundState round v la = Inr (la', f)" and "node_typed U la" and "value_typed U v"
  shows "node_typed U la'"
  using assms InitializeNextRoundState_view(1) [OF assms(1)] by (simp add: node_typed_def round_typed_def)

lemma Propose_rounds_typed:
  assumes "Propose_rounds first ps la = Inr (la', fs)" and "node_typed U la" and "\<forall>x\<in>set ps. value_typed U (proposed_value x)"
  shows "node_typed U la'"
  using assms
  by (induction ps arbitrary: first la fs) (auto simp: fbind_eq_Inr dest: InitializeNextRoundState_typed)

lemma Propose_typed:
  assumes "Propose m la = Inr (la', fs, es)" and "node_typed U la" and "payload_typed U (ProposalPayload m)"
  shows "node_typed U la'" and "effects_typed U es"
  using assms by (auto simp: Propose_def fbind_eq_Inr intro: Propose_rounds_typed effects_typed_broadcast)

lemma init_typed: "node_typed U (LatticeAgreement_init hosts)"
  by (simp add: node_typed_def LatticeAgreement_init_def round_view_def round_typed_def)

section \<open>Typed messages fit their encoding\<close>

lemma value_typed_length:
  assumes "value_typed (- {spare}) v"
  shows "length v < 4294967296"
proof -
  have "length v = card (set v)" using assms by (simp add: value_typed_def distinct_card)
  also have "\<dots> < card (UNIV :: u32 set)" using assms by (intro psubset_card_mono) (auto simp: value_typed_def)
  finally show ?thesis by (simp add: card_word)
qed

lemma payload_typed_fits: "payload_typed (- {spare}) m \<Longrightarrow> payload_fits m"
  by (cases m) (auto simp: ProposalMessage_fits_def AcceptMessage_fits_def Proposal_fits_def Accept_fits_def
      accept_typed_def list_all_iff dest: value_typed_length)

lemma typed_roundtrip:
  assumes "payload_typed (- {spare}) m"
  shows "encode m = Some (the (encode m))" and "decode (the (encode m)) = Some (Some m)"
  using decode_encode [OF payload_typed_fits [OF assms]] by auto

lemma encode_effects_Cons:
  "encode_effects (e # es) = do { b \<leftarrow> encode_effect e; bs \<leftarrow> encode_effects es; Some (b # bs) }"
  by (cases "encode_effect e") (simp_all add: encode_effects_def map_option_case split: option.split)

lemma encode_effects_typed:
  assumes "effects_typed (- {spare}) es"
  shows "encode_effects es \<noteq> None"
  using assms
proof (induction es)
  case Nil
  then show ?case by (simp add: encode_effects_def)
next
  case (Cons e es)
  then have "encode_effect e \<noteq> None" using typed_roundtrip(1) by (cases e) auto
  then show ?case using Cons by (auto simp: encode_effects_Cons)
qed

end
