(* ===== verification/Lattice_Stack.thy ===== *)
theory Lattice_Stack
  imports Protocol_Stack Lattice_Types
begin

text \<open>
  Lattice agreement on the transport: the protocol of \<open>Lattice_System\<close> with its messages as
  bytes, on top of the transports of \<open>Reliable_System\<close>. A node carries the list of what its
  application proposed so far. The applications keep to a set of values that leaves out one
  32-bit value, \<open>spare\<close>, and hand over fewer than 256 proposals at a time, which is what the
  length fields of the messages can hold.
\<close>

section \<open>The protocol on the wire\<close>

fun la_wire :: "Bytes LAEffect list \<Rightarrow> (PeerID \<times> Bytes) list \<times> (RoundID \<times> ProposalT) list" where
  "la_wire [] = ([], [])"
| "la_wire (LASend q b # es) = (case la_wire es of (sends, outs) \<Rightarrow> ((q, b) # sends, outs))"
| "la_wire (LAFulfil c # es) = la_wire es"
| "la_wire (LACallback r v # es) = (case la_wire es of (sends, outs) \<Rightarrow> (sends, (r, v) # outs))"

definition next_batch :: "u32 \<Rightarrow> ProposalT list \<Rightarrow> ProposalMessage \<Rightarrow> bool" where
  "next_batch spare proposed m \<longleftrightarrow>
     unat (pm_first_round_id m) = length proposed \<and> length proposed + length (proposals m) \<le> 4294967296 \<and>
     length (proposals m) < 256 \<and>
     (\<forall>x\<in>set (proposals m). active_proposal_number x = 0 \<and> distinct (proposed_value x) \<and> proposed_value x \<noteq> [] \<and>
        spare \<notin> set (proposed_value x))"

definition la_invoke :: "u32 \<Rightarrow> PeerID set \<Rightarrow> PeerID \<Rightarrow> ProposalMessage \<Rightarrow> LatticeAgreement \<times> ProposalT list \<Rightarrow>
    (LatticeAgreement \<times> ProposalT list, RoundID \<times> ProposalT) reaction" where
  "la_invoke spare P p m n = (case n of (la, proposed) \<Rightarrow>
     if p \<in> P \<and> next_batch spare proposed m then
       case Propose m la of
         Inl e \<Rightarrow> None
       | Inr (la, futures, es) \<Rightarrow>
           map_option (\<lambda>es. ((la, proposed @ map proposed_value (proposals m)), la_wire es)) (encode_effects es)
     else None)"

definition la_handle :: "PeerID \<Rightarrow> PeerID \<Rightarrow> Bytes \<Rightarrow> LatticeAgreement \<times> ProposalT list \<Rightarrow>
    (LatticeAgreement \<times> ProposalT list, RoundID \<times> ProposalT) reaction" where
  "la_handle d s b n = (case n of (la, proposed) \<Rightarrow>
     map_option (\<lambda>(la, es). ((la, proposed), la_wire es)) (LatticeAgreement_callback s b la))"

definition la_start :: "(PeerID \<Rightarrow> HostsTable) \<Rightarrow> PeerID \<Rightarrow> LatticeAgreement \<times> ProposalT list" where
  "la_start hosts p = (LatticeAgreement_init (hosts p), [])"

section \<open>Serialisation is transparent\<close>

definition on_la_wire :: "PeerID \<times> PeerID \<times> LAPayload \<Rightarrow> PeerID \<times> PeerID \<times> Bytes" where
  "on_la_wire x = (case x of (s, d, m) \<Rightarrow> (s, d, the (encode m)))"

lemma la_wire_eq:
  assumes "encode_effects es = Some bs" and "la_wire bs = (sends, outs)"
  shows "sent_by p (mset sends) = image_mset on_la_wire (effect_sends p es)" and "map (Pair p) outs = effect_decisions p es"
proof -
  have "sent_by p (mset (fst (la_wire bs))) = image_mset on_la_wire (effect_sends p es) \<and>
      map (Pair p) (snd (la_wire bs)) = effect_decisions p es"
    using assms(1)
  proof (induction es arbitrary: bs)
    case Nil
    then show ?case by (simp add: encode_effects_def sent_by_def)
  next
    case (Cons e es)
    then obtain b cs where "encode_effect e = Some b" "encode_effects es = Some cs" "bs = b # cs"
      by (auto simp: encode_effects_Cons split: bind_splits)
    with Cons.IH [of cs] show ?case by (cases e) (auto simp: sent_by_def on_la_wire_def split: prod.split)
  qed
  with assms(2) show "sent_by p (mset sends) = image_mset on_la_wire (effect_sends p es)"
    "map (Pair p) outs = effect_decisions p es" by simp_all
qed

section \<open>The transport carries lattice agreement\<close>

definition net_typed :: "u32 set \<Rightarrow> (PeerID \<times> PeerID \<times> LAPayload) multiset \<Rightarrow> bool" where
  "net_typed U M \<longleftrightarrow> (\<forall>(s, d, m)\<in>#M. payload_typed U m)"

definition la_rel :: "u32 \<Rightarrow> (PeerID \<Rightarrow> LatticeAgreement \<times> ProposalT list) \<Rightarrow> (PeerID \<times> PeerID \<times> Bytes) multiset \<Rightarrow>
    (PeerID \<times> RoundID \<times> ProposalT) list \<Rightarrow> la_system \<Rightarrow> bool" where
  "la_rel spare N M L \<sigma> \<longleftrightarrow> N = (\<lambda>p. (ls_nodes \<sigma> p, ls_proposed \<sigma> p)) \<and> M = image_mset on_la_wire (ls_net \<sigma>) \<and>
     L = ls_decisions \<sigma> \<and> (\<forall>p. node_typed (- {spare}) (ls_nodes \<sigma> p)) \<and> net_typed (- {spare}) (ls_net \<sigma>)"

lemma net_typed_sends: "effects_typed U es \<Longrightarrow> net_typed U (effect_sends p es)"
  by (force simp: net_typed_def effects_typed_def in_effect_sends)

lemma la_rel_apply:
  assumes "la_rel spare N (image_mset on_la_wire K) L (\<sigma>\<lparr>ls_net := K\<rparr>)" and "encode_effects es = Some bs" and "la_wire bs = (sends, outs)"
    and "node_typed (- {spare}) la" and "effects_typed (- {spare}) es"
  shows "la_rel spare (N(p := (la, ls_proposed \<sigma> p))) (image_mset on_la_wire K + sent_by p (mset sends)) (L @ map (Pair p) outs)
    (ls_apply p la es (\<sigma>\<lparr>ls_net := K\<rparr>))"
  using assms(1,4) net_typed_sends [OF assms(5), of p]
  by (auto simp: la_rel_def la_wire_eq [OF assms(2,3)] net_typed_def fun_eq_iff)

text \<open>What the handler of a typed node does with a typed message that arrives.\<close>

lemma la_handle_typed:
  assumes "payload_typed (- {spare}) m" and "node_typed (- {spare}) la" and "HandlePayload s m la = (la', es)"
  shows "\<exists>bs. encode_effects es = Some bs \<and> la_handle d s (the (encode m)) (la, proposed) = Some ((la', proposed), la_wire bs)"
proof -
  have "effects_typed (- {spare}) es" using HandlePayload_typed(2) [OF assms(2,1), of s] assms(3) by simp
  then obtain bs where "encode_effects es = Some bs" using encode_effects_typed by blast
  then show ?thesis using assms(3) by (simp add: la_handle_def LatticeAgreement_callback_def typed_roundtrip(2) [OF assms(1)])
qed

lemma la_invoke_cases:
  assumes "la_invoke spare P p m (la, proposed) = Some (n, sends, outs)"
  shows "\<exists>la' futures es bs. p \<in> P \<and> next_batch spare proposed m \<and> Propose m la = Inr (la', futures, es) \<and>
    encode_effects es = Some bs \<and> la_wire bs = (sends, outs) \<and> n = (la', proposed @ map proposed_value (proposals m))"
  using assms by (auto simp: la_invoke_def split: if_splits sum.splits)

lemma next_batch_typed: "next_batch spare proposed m \<Longrightarrow> payload_typed (- {spare}) (ProposalPayload m)"
  by (auto simp: next_batch_def value_typed_def)

lemma la_stack_invoke:
  assumes reach: "ls_reach P hosts \<sigma>" and rel: "la_rel spare N M L \<sigma>"
    and inv: "la_invoke spare P p m (N p) = Some (n, sends, outs)"
  shows "\<exists>\<tau>. ls_reach P hosts \<tau> \<and> la_rel spare (N(p := n)) (M + sent_by p (mset sends)) (L @ map (Pair p) outs) \<tau>"
proof -
  have np: "N p = (ls_nodes \<sigma> p, ls_proposed \<sigma> p)" and M: "M = image_mset on_la_wire (ls_net \<sigma>)"
    and typed: "node_typed (- {spare}) (ls_nodes \<sigma> p)" using rel by (simp_all add: la_rel_def)
  obtain la futures es bs where p: "p \<in> P" "next_batch spare (ls_proposed \<sigma> p) m" and step: "Propose m (ls_nodes \<sigma> p) = Inr (la, futures, es)"
    and bs: "encode_effects es = Some bs" "la_wire bs = (sends, outs)" and n: "n = (la, ls_proposed \<sigma> p @ map proposed_value (proposals m))"
    using la_invoke_cases [OF inv [unfolded np]] by blast
  have "proposal_batch \<sigma> p m" using p(2) by (auto simp: proposal_batch_def next_batch_def)
  let ?\<tau> = "(ls_apply p la es \<sigma>)\<lparr>ls_proposed := (ls_proposed \<sigma>)(p := ls_proposed \<sigma> p @ map proposed_value (proposals m))\<rparr>"
  have "ls_reach P hosts ?\<tau>" by (rule ls_reach.step [OF reach ls_step.propose [OF p(1) \<open>proposal_batch \<sigma> p m\<close> step]])
  moreover have "la_rel spare (N(p := n)) (M + sent_by p (mset sends)) (L @ map (Pair p) outs) ?\<tau>"
    using la_rel_apply [of spare N "ls_net \<sigma>" L \<sigma> es bs sends outs la p] rel bs n Propose_typed [OF step typed next_batch_typed [OF p(2)]]
    by (auto simp: M la_rel_def ls_apply_def fun_eq_iff split: if_splits)
  ultimately show ?thesis by blast
qed

lemma la_stack_handle:
  assumes reach: "ls_reach P hosts \<sigma>" and rel: "la_rel spare N (add_mset (s, d, b) M) L \<sigma>"
    and h: "la_handle d s b (N d) = Some (n, sends, outs)"
  shows "\<exists>\<tau>. ls_reach P hosts \<tau> \<and> la_rel spare (N(d := n)) (M + sent_by d (mset sends)) (L @ map (Pair d) outs) \<tau>"
proof -
  have nd: "N d = (ls_nodes \<sigma> d, ls_proposed \<sigma> d)" and net: "add_mset (s, d, b) M = image_mset on_la_wire (ls_net \<sigma>)"
    and typed: "node_typed (- {spare}) (ls_nodes \<sigma> d)" using rel by (simp_all add: la_rel_def)
  obtain x K where K: "ls_net \<sigma> = add_mset x K" "on_la_wire x = (s, d, b)" "M = image_mset on_la_wire K"
    using msed_map_invR [of on_la_wire "ls_net \<sigma>" "(s, d, b)" M] net by auto
  obtain m where x: "x = (s, d, m)" and b: "b = the (encode m)" using K(2) by (cases x) (auto simp: on_la_wire_def)
  have m: "payload_typed (- {spare}) m" using rel by (auto simp: la_rel_def net_typed_def K(1) x)
  obtain la es where step: "HandlePayload s m (ls_nodes \<sigma> d) = (la, es)" by fastforce
  obtain bs where bs: "encode_effects es = Some bs" "la_wire bs = (sends, outs)" and n: "n = (la, ls_proposed \<sigma> d)"
    using la_handle_typed [OF m typed step, of d "ls_proposed \<sigma> d"] h by (auto simp: nd b)
  let ?\<tau> = "ls_apply d la es (\<sigma>\<lparr>ls_net := ls_net \<sigma> - {#(s, d, m)#}\<rparr>)"
  have "ls_reach P hosts ?\<tau>" by (rule ls_reach.step [OF reach ls_step.deliver [OF _ step]]) (simp add: K(1) x)
  moreover have "la_rel spare (N(d := n)) (M + sent_by d (mset sends)) (L @ map (Pair d) outs) ?\<tau>"
    using la_rel_apply [of spare N K L \<sigma> es bs sends outs la d] rel bs n K(1) x HandlePayload_typed [OF typed m, of s] step
    by (simp add: K(3) la_rel_def net_typed_def)
  ultimately show ?thesis by blast
qed

interpretation la_stack: wire_protocol "la_invoke spare P" la_handle "la_start hosts" "ls_reach P hosts" "la_rel spare"
  for spare P hosts
proof
  show "\<exists>\<sigma>. ls_reach P hosts \<sigma> \<and> la_rel spare (la_start hosts) {#} [] \<sigma>"
    by (intro exI [of _ "ls_init hosts"] conjI ls_reach.start)
      (simp add: la_rel_def la_start_def ls_init_def fun_eq_iff net_typed_def init_typed)
qed (rule la_stack_invoke la_stack_handle; assumption)+

section \<open>A demonstration run\<close>

text \<open>
  Process 1 proposes; it answers its own proposal, process 2 gets it in a datagram and answers
  in another, and process 1 decides.
\<close>

definition la_demo_proposal :: LAPayload where
  "la_demo_proposal = ProposalPayload \<lparr>pm_first_round_id = 0, proposals = [\<lparr>proposed_value = [7], active_proposal_number = 0\<rparr>]\<rparr>"

definition la_demo_answer :: LAPayload where
  "la_demo_answer = AcceptPayload \<lparr>am_first_round_id = 0,
     accepts = [\<lparr>acc_status = kAck, acc_proposal_number = 0, acc_accepted_value = []\<rparr>]\<rparr>"

definition la_demo_bytes :: "LAPayload \<Rightarrow> Bytes" where
  "la_demo_bytes m = the (encode m)"

definition la_demo_packet :: "MessageID \<Rightarrow> PeerID \<Rightarrow> LAPayload \<Rightarrow> Bytes" where
  "la_demo_packet i p m = Packet_image \<lparr>pkt_type = kPayloadMessage, pkt_id = i, pkt_source = p, pkt_message = la_demo_bytes m\<rparr>"

definition la_demo_actions :: "ProposalMessage action list" where
  "la_demo_actions = [
     AInvoke 1 \<lparr>pm_first_round_id = 0, proposals = [\<lparr>proposed_value = [7], active_proposal_number = 0\<rparr>]\<rparr>,
     ASend 1 1 (la_demo_bytes la_demo_proposal), ABatch 1, ACallback 1,
     ASend 1 1 (la_demo_bytes la_demo_answer), ABatch 1, ACallback 1,
     ASend 1 2 (la_demo_bytes la_demo_proposal), AWrite 1 2, ARead 1 2 (la_demo_packet 0 1 la_demo_proposal), ABatch 2, ACallback 2]"

definition la_demo_stack :: "(LatticeAgreement \<times> ProposalT list, RoundID \<times> ProposalT) stack" where
  "la_demo_stack = act_run (la_invoke 0 {1, 2}) la_handle la_demo_actions (stack_init (la_start rel_demo_hosts) rel_demo_nodes)"

definition la_demo_decided :: "(LatticeAgreement \<times> ProposalT list, RoundID \<times> ProposalT) stack" where
  "la_demo_decided = act_run (la_invoke 0 {1, 2}) la_handle
     [ASend 2 1 (la_demo_bytes la_demo_answer), AWrite 2 1, ARead 2 1 (la_demo_packet 1 2 la_demo_answer), ABatch 1, ACallback 1] la_demo_stack"

lemma la_demo_reach:
  "st_reach (la_invoke 0 {1, 2}) la_handle (la_start rel_demo_hosts) la_demo_stack"
  "st_reach (la_invoke 0 {1, 2}) la_handle (la_start rel_demo_hosts) la_demo_decided"
  unfolding la_demo_decided_def la_demo_stack_def by (intro act_run_reach st_reach.start rel_demo_started)+

lemma la_demo_network: "same_network {1, 2} rel_demo_hosts"
  by (auto simp: same_network_def rel_demo_hosts_def enumerates_def peers_eq)

lemma la_demo_wire:
  "encode la_demo_proposal = Some (la_demo_bytes la_demo_proposal)" "decode (la_demo_bytes la_demo_proposal) = Some (Some la_demo_proposal)"
  "encode la_demo_answer = Some (la_demo_bytes la_demo_answer)" "decode (la_demo_bytes la_demo_answer) = Some (Some la_demo_answer)"
proof -
  have "payload_typed (- {0}) la_demo_proposal" "payload_typed (- {0}) la_demo_answer"
    by (simp_all add: la_demo_proposal_def la_demo_answer_def value_typed_def accept_typed_def)
  note typed_roundtrip [OF this(1)] typed_roundtrip [OF this(2)]
  then show "encode la_demo_proposal = Some (la_demo_bytes la_demo_proposal)" "decode (la_demo_bytes la_demo_proposal) = Some (Some la_demo_proposal)"
    "encode la_demo_answer = Some (la_demo_bytes la_demo_answer)" "decode (la_demo_bytes la_demo_answer) = Some (Some la_demo_answer)"
    by (simp_all add: la_demo_bytes_def)
qed

lemmas la_demo_defs = act_run_def la_demo_actions_def stack_init_def la_start_def la_invoke_def la_handle_def
  next_batch_def Propose_def LatticeAgreement_callback_def encode_effects_def
  la_demo_wire [unfolded la_demo_proposal_def la_demo_answer_def kAck_def] la_demo_proposal_def la_demo_answer_def la_demo_packet_def HandlePayload_def HandleProposalMessage_def
  HandleAcceptMessage_def HandlePropose_def HandleAccept_def HandleAck_def CheckAckNackConditions_def Decide_def Majority_def
  GetRoundState_def InitializeEmptyRoundStates.simps InitializeNextRoundState_def MakeContract_def emplace_round_def
  round_state_def set_round_state_def VectorSetUnion_eq RoundState_init_def BestEffortBroadcast_def LatticeAgreement_init_def GetNetworkSize_def GetPeers_def
  LocalID_def HostsTable_init_def rel_demo_hosts_def la_enum_defs
  react_def act_send_def act_batch_def Transport_Batch_def ProcessBatch_eq SendLocal_def rel_demo_defs

lemma la_demo_waiting: "st_sends la_demo_stack 2 = {#(1, la_demo_bytes la_demo_answer)#}"
  by (simp add: la_demo_stack_def la_demo_defs)

lemma la_demo_log: "st_log la_demo_decided = [(1, 0, [7])]" "snd (st_nodes la_demo_decided 1) = [[7]]"
  by (simp_all add: la_demo_decided_def la_demo_stack_def la_demo_defs)

lemma la_demo_decided_outcome:
  "st_sends la_demo_decided p = {#}" "st_calls la_demo_decided p = []" "rt_batch (rs_nodes (st_rel la_demo_decided) p) = []"
  "rs_sent (st_rel la_demo_decided) s d i \<noteq> None \<longleftrightarrow> s = 1 \<and> d = 2 \<and> i = 0 \<or> s = 2 \<and> d = 1 \<and> i = 1"
  "rs_delivered (st_rel la_demo_decided) = [(2, 1, 0, la_demo_bytes la_demo_proposal), (1, 2, 1, la_demo_bytes la_demo_answer)]"
  by (simp_all add: la_demo_decided_def la_demo_stack_def la_demo_defs started_batch [OF rel_demo_started])

lemma la_demo_decided_quiet: "st_net la_demo_decided = {#}"
  by (rule st_net_quiet) (auto simp: la_demo_decided_outcome simp del: not_None_eq)

section \<open>Guarantees from application to application\<close>

text \<open>C23. Every message on its way, from the call that sends it to the callback that gets it, is a
  well-formed message: it decodes to batches of duplicate-free vectors of proposable values, and
  the process it reaches handles it and encodes its answers without an error.\<close>

theorem lattice_stack_typed:
  assumes "st_reach (la_invoke spare P) la_handle (la_start hosts) st" and "(s, d, b) \<in># st_net st"
  shows "(\<exists>m. decode b = Some (Some m) \<and> payload_typed (- {spare}) m) \<and> la_handle d s b (st_nodes st d) \<noteq> None"
proof -
  obtain \<sigma> where rel: "la_rel spare (st_nodes st) (st_net st) (st_log st) \<sigma>" using la_stack.stack_follows [OF assms(1)] by blast
  then obtain m where "(s, d, m) \<in># ls_net \<sigma>" and b: "b = the (encode m)" using assms(2) by (auto simp: la_rel_def on_la_wire_def)
  then have m: "payload_typed (- {spare}) m" and typed: "node_typed (- {spare}) (ls_nodes \<sigma> d)"
    using rel by (auto simp: la_rel_def net_typed_def)
  moreover have "st_nodes st d = (ls_nodes \<sigma> d, ls_proposed \<sigma> d)" using rel by (simp add: la_rel_def)
  moreover obtain la es where "HandlePayload s m (ls_nodes \<sigma> d) = (la, es)" by fastforce
  ultimately show ?thesis
    using la_handle_typed [OF m typed, of s la es d "ls_proposed \<sigma> d"] typed_roundtrip(2) [OF m] by (auto simp: b)
qed

theorem lattice_stack_typed_witness:
  "decode (la_demo_bytes la_demo_answer) \<noteq> None \<and> la_handle 1 2 (la_demo_bytes la_demo_answer) (st_nodes la_demo_stack 1) \<noteq> None"
proof -
  have "sent_by 2 (st_sends la_demo_stack 2) \<subseteq># (\<Sum>p\<in>UNIV. sent_by p (st_sends la_demo_stack p))"
    using sum.remove [of UNIV 2 "\<lambda>p. sent_by p (st_sends la_demo_stack p)"] by simp
  then have "(2, 1, la_demo_bytes la_demo_answer) \<in># st_net la_demo_stack"
    by (auto simp: st_net_def la_demo_waiting sent_by_def)
  from lattice_stack_typed [OF la_demo_reach(1) this] show ?thesis by auto
qed

text \<open>Agreement and validity over the whole stack: however datagrams are lost, duplicated and
  reordered and however the processes interleave, the decisions reported to the applications in
  a round are comparable, and each contains the proposal of its process and only values that
  applications proposed in the round.\<close>

lemma lattice_stack_agreement:
  assumes "st_reach (la_invoke spare P) la_handle (la_start hosts) st" and "same_network P hosts"
    and "(p, round, v) \<in> set (st_log st)"
  shows "(\<forall>q w. (q, round, w) \<in> set (st_log st) \<longrightarrow> set v \<subseteq> set w \<or> set w \<subseteq> set v) \<and>
    set (snd (st_nodes st p) ! unat round) \<subseteq> set v \<and>
    set v \<subseteq> (\<Union>q\<in>{q \<in> P. unat round < length (snd (st_nodes st q))}. set (snd (st_nodes st q) ! unat round))"
proof -
  obtain \<sigma> where \<sigma>: "ls_reach P hosts \<sigma>" and rel: "la_rel spare (st_nodes st) (st_net st) (st_log st) \<sigma>"
    using la_stack.stack_follows [OF assms(1)] by blast
  have log: "st_log st = ls_decisions \<sigma>" and hist: "snd (st_nodes st q) = ls_proposed \<sigma> q" for q using rel by (simp_all add: la_rel_def)
  have in_log: "(p, round, v) \<in> set (ls_decisions \<sigma>)" using assms(3) by (simp add: log)
  show ?thesis
    using decided_comparable [OF \<sigma> assms(2) in_log] decided_valid [OF \<sigma> assms(2) in_log]
    by (simp add: log hist has_proposed_def)
qed

lemma lattice_stack_agreement_witness:
  "st_log la_demo_decided = [(1, 0, [7])] \<and> set (snd (st_nodes la_demo_decided 1) ! unat (0 :: RoundID)) \<subseteq> set [7] \<and>
   (\<forall>q w. (q, 0, w) \<in> set (st_log la_demo_decided) \<longrightarrow> set [7] \<subseteq> set w \<or> set w \<subseteq> set [7])"
  using lattice_stack_agreement [OF la_demo_reach(2) la_demo_network, of 1 0 "[7]"] by (simp add: la_demo_log)

end
