(* ===== verification/Rate_Limiter.thy ===== *)
theory Rate_Limiter
  imports Broadcast_Prelude
begin

text \<open>
  The rate limiters of uniform reliable broadcast and of lattice agreement. They differ only
  in the number of packets that one operation is reckoned to cause.
\<close>

record RateLimiter =
  batch_size :: u64
  current_fire :: u64

definition limiter_init :: "u64 \<Rightarrow> u64 \<Rightarrow> fault + RateLimiter" where
  "limiter_init packet_multiplier link_packet_limit =
     (if packet_multiplier = 0 then Inl DivisionByZero
      else Inr \<lparr>batch_size = max 1 (link_packet_limit div packet_multiplier), current_fire = 0\<rparr>)"

definition UniformReliableBroadcastRateLimiter :: "u64 \<Rightarrow> u64 \<Rightarrow> fault + RateLimiter" where
  "UniformReliableBroadcastRateLimiter network_size link_packet_limit =
     limiter_init (network_size * (network_size - 1)) link_packet_limit"

definition LatticeAgreementRateLimiter :: "u64 \<Rightarrow> u64 \<Rightarrow> fault + RateLimiter" where
  "LatticeAgreementRateLimiter network_size link_packet_limit =
     limiter_init (2 * network_size * network_size) link_packet_limit"

definition Fire :: "RateLimiter \<Rightarrow> bool \<times> RateLimiter" where
  "Fire l = (if current_fire l = batch_size l then (False, l) else (True, l\<lparr>current_fire := current_fire l + 1\<rparr>))"

definition Limiter_Reset :: "RateLimiter \<Rightarrow> RateLimiter" where
  "Limiter_Reset l = l\<lparr>current_fire := 0\<rparr>"

text \<open>How many operations may still be fired before the next reset.\<close>

definition remaining :: "RateLimiter \<Rightarrow> nat" where
  "remaining l = unat (batch_size l - current_fire l)"

lemma unat_pred: "(w :: u64) \<noteq> 0 \<Longrightarrow> unat (w - 1) = unat w - 1 \<and> unat w > 0"
  using unat_minus_one [of w] by (simp add: unat_gt_0)

lemma Fire_remaining_0: "remaining l = 0 \<Longrightarrow> Fire l = (False, l)"
  by (simp add: Fire_def remaining_def unat_0_iff)

lemma Fire_remaining:
  assumes "remaining l \<noteq> 0"
  shows "\<exists>l'. Fire l = (True, l') \<and> remaining l' = remaining l - 1 \<and> batch_size l' = batch_size l"
proof -
  let ?l = "l\<lparr>current_fire := current_fire l + 1\<rparr>"
  have ne: "batch_size l - current_fire l \<noteq> 0" using assms by (auto simp: remaining_def)
  then have "Fire l = (True, ?l)" by (auto simp: Fire_def)
  moreover have "remaining ?l = remaining l - 1"
  proof -
    have eq: "batch_size l - (current_fire l + 1) = batch_size l - current_fire l - 1"
      by (simp add: algebra_simps)
    have "remaining ?l = unat (batch_size l - (current_fire l + 1))" by (simp add: remaining_def)
    also have "\<dots> = unat (batch_size l - current_fire l - 1)" by (simp only: eq)
    also have "\<dots> = remaining l - 1" using unat_pred [OF ne] by (simp add: remaining_def)
    finally show ?thesis .
  qed
  ultimately show ?thesis by (intro exI [of _ ?l]) simp
qed

lemma Reset_remaining [simp]: "remaining (Limiter_Reset l) = unat (batch_size l)"
  by (simp add: remaining_def Limiter_Reset_def)

lemma Reset_batch_size [simp]: "batch_size (Limiter_Reset l) = batch_size l"
  by (simp add: Limiter_Reset_def)

lemma limiter_init_facts:
  assumes "limiter_init m limit = Inr l"
  shows "batch_size l \<noteq> 0" and "remaining l = unat (batch_size l)"
  using assms by (auto simp: limiter_init_def remaining_def max_def split: if_splits)

lemma limiter_of_network:
  assumes "1 < n" and "n < 2 ^ 16"
  shows "\<exists>l. UniformReliableBroadcastRateLimiter (of_nat n) limit = Inr l"
proof -
  have "n * (n - 1) < 2 ^ 16 * 2 ^ 16" using assms(2) by (intro mult_strict_mono') auto
  then have "unat (of_nat (n * (n - 1)) :: u64) = n * (n - 1)" by (simp add: unat_of_nat del: of_nat_mult)
  moreover have "n * (n - 1) \<noteq> 0" using assms(1) by simp
  ultimately have "(of_nat (n * (n - 1)) :: u64) \<noteq> 0" by (metis unat_0)
  moreover have "(of_nat n * (of_nat n - 1) :: u64) = of_nat (n * (n - 1))"
    using assms(1) by (simp add: of_nat_diff)
  ultimately show ?thesis by (simp add: UniformReliableBroadcastRateLimiter_def limiter_init_def)
qed

text \<open>A network of one process makes the constructor of the broadcast limiter divide by zero.\<close>

lemma single_process_divides_by_zero: "UniformReliableBroadcastRateLimiter 1 limit = Inl DivisionByZero"
  by (simp add: UniformReliableBroadcastRateLimiter_def limiter_init_def)

end
