(* ===== verification/Fiber_Sync.thy ===== *)
theory Fiber_Sync
  imports Concurrent_Containers
begin

text \<open>
  Synchronisation of threads and fibers: \<open>wait_group.hpp\<close>, \<open>fiber_sync.hpp\<close> and the
  scheduling of a fiber (\<open>src/concurrency/fiber.cpp\<close>). The operations of the fiber
  primitives run under the spin lock of the object, so each is one function on its state; a
  fiber that suspends itself hands its strategy object to the list of sleepers before the lock
  is released. Sleepers are named by their fibers.
\<close>

section \<open>Wait groups\<close>

definition WaitGroup_Add :: "u32 \<Rightarrow> u32 \<Rightarrow> u32" where
  "WaitGroup_Add num counter = counter + num"

text \<open>The first component tells whether the waiters are woken.\<close>

definition WaitGroup_Done :: "u32 \<Rightarrow> u32 \<Rightarrow> bool \<times> u32" where
  "WaitGroup_Done num counter = (counter - num = 0, counter - num)"

text \<open>
  \<open>Wait\<close> reads the counter again after every return of the futex call: the argument is the
  sequence of the values read, \<open>None\<close> a call that still waits.
\<close>

fun WaitGroup_Wait :: "u32 list \<Rightarrow> u32 list option" where
  "WaitGroup_Wait [] = None"
| "WaitGroup_Wait (count # reads) = (if count \<noteq> 0 then WaitGroup_Wait reads else Some reads)"

lemma WaitGroup_Wait_returns: "(\<exists>rest. WaitGroup_Wait reads = Some rest) \<longleftrightarrow> 0 \<in> set reads"
  by (induction reads) auto

section \<open>One-shot events\<close>

type_synonym fiber = nat

record FiberOneShotEvent =
  ev_sleepers :: "fiber list"
  ev_is_fired :: bool

text \<open>\<open>Wait\<close> tells whether the fiber goes on, \<open>Fire\<close> which fibers it awakes, in order.\<close>

definition Event_Wait :: "fiber \<Rightarrow> FiberOneShotEvent \<Rightarrow> bool \<times> FiberOneShotEvent" where
  "Event_Wait f e = (if ev_is_fired e then (True, e) else (False, e\<lparr>ev_sleepers := ev_sleepers e @ [f]\<rparr>))"

definition Event_Fire :: "FiberOneShotEvent \<Rightarrow> fiber list \<times> FiberOneShotEvent" where
  "Event_Fire e = (ev_sleepers e, e\<lparr>ev_sleepers := [], ev_is_fired := True\<rparr>)"

text \<open>After \<open>Fire\<close> nobody sleeps: those who waited are awake, those who come later go on at once.\<close>

lemma Event_Fire_wakes:
  assumes "Event_Fire e = (awake, e')"
  shows "awake = ev_sleepers e" and "ev_sleepers e' = []" and "Event_Wait f e' = (True, e')"
    and "Event_Fire e' = ([], e')"
  using assms by (auto simp: Event_Fire_def Event_Wait_def)

section \<open>The wait group of fibers\<close>

record FiberWaitGroup =
  fw_counter :: u64
  fw_event :: FiberOneShotEvent

definition FiberWaitGroup_Add :: "u64 \<Rightarrow> FiberWaitGroup \<Rightarrow> FiberWaitGroup" where
  "FiberWaitGroup_Add count w = w\<lparr>fw_counter := fw_counter w + count\<rparr>"

definition FiberWaitGroup_Done :: "u64 \<Rightarrow> FiberWaitGroup \<Rightarrow> fiber list \<times> FiberWaitGroup" where
  "FiberWaitGroup_Done count w =
     (let old = fw_counter w; w = w\<lparr>fw_counter := old - count\<rparr> in
      if old = 1 then let (awake, e) = Event_Fire (fw_event w) in (awake, w\<lparr>fw_event := e\<rparr>)
      else ([], w))"

definition FiberWaitGroup_Wait :: "fiber \<Rightarrow> FiberWaitGroup \<Rightarrow> bool \<times> FiberWaitGroup" where
  "FiberWaitGroup_Wait f w = (let (go_on, e) = Event_Wait f (fw_event w) in (go_on, w\<lparr>fw_event := e\<rparr>))"

text \<open>
  \<open>Done\<close> compares the old value of the counter with 1, not with \<open>count\<close>: finishing
  several tasks at once never wakes the waiters, although the counter reaches 0.
\<close>

lemma fiber_done_many_sleeps:
  assumes "count \<noteq> 1" and "\<not> ev_is_fired (fw_event w)" and "fw_counter w = 0"
  shows "FiberWaitGroup_Done count (FiberWaitGroup_Add count (snd (FiberWaitGroup_Wait f w))) =
    ([], w\<lparr>fw_event := (fw_event w)\<lparr>ev_sleepers := ev_sleepers (fw_event w) @ [f]\<rparr>\<rparr>)"
  using assms by (simp add: FiberWaitGroup_Done_def FiberWaitGroup_Add_def FiberWaitGroup_Wait_def Event_Wait_def)

lemma fiber_done_last_wakes:
  assumes "fw_counter w = 1" and "FiberWaitGroup_Done 1 w = (awake, w')"
  shows "awake = ev_sleepers (fw_event w)" and "fst (FiberWaitGroup_Wait f w')"
  using assms by (auto simp: FiberWaitGroup_Done_def FiberWaitGroup_Wait_def Event_Fire_def Event_Wait_def)

section \<open>The mutex of fibers\<close>

record FiberMutex =
  fm_sleepers :: "fiber list"
  fm_is_locked :: bool

text \<open>\<open>Lock\<close> tells whether the fiber has the mutex at once, \<open>Unlock\<close> whom it awakes.\<close>

definition FiberMutex_Lock :: "fiber \<Rightarrow> FiberMutex \<Rightarrow> bool \<times> FiberMutex" where
  "FiberMutex_Lock f m =
     (let was_locked = fm_is_locked m; m = m\<lparr>fm_is_locked := True\<rparr> in
      if was_locked then (False, m\<lparr>fm_sleepers := fm_sleepers m @ [f]\<rparr>) else (True, m))"

definition FiberMutex_Unlock :: "FiberMutex \<Rightarrow> fiber option \<times> FiberMutex" where
  "FiberMutex_Unlock m =
     (case fm_sleepers m of
        sleeper # rest \<Rightarrow> (Some sleeper, m\<lparr>fm_sleepers := rest\<rparr>)
      | [] \<Rightarrow> (None, m\<lparr>fm_is_locked := False\<rparr>))"

text \<open>
  The fibers around one mutex: who is in the critical section, and the fibers in the order in
  which they called \<open>Lock\<close> and in which they got the mutex.
\<close>

record mutex_system =
  ms_mutex :: FiberMutex
  ms_inside :: "fiber set"
  ms_requests :: "fiber list"
  ms_grants :: "fiber list"

definition ms_init :: mutex_system where
  "ms_init = \<lparr>ms_mutex = \<lparr>fm_sleepers = [], fm_is_locked = False\<rparr>, ms_inside = {}, ms_requests = [], ms_grants = []\<rparr>"

definition ms_lock :: "fiber \<Rightarrow> mutex_system \<Rightarrow> mutex_system" where
  "ms_lock f s =
     (let (got, m) = FiberMutex_Lock f (ms_mutex s);
          s = s\<lparr>ms_mutex := m, ms_requests := ms_requests s @ [f]\<rparr>
      in if got then s\<lparr>ms_inside := insert f (ms_inside s), ms_grants := ms_grants s @ [f]\<rparr> else s)"

definition ms_unlock :: "fiber \<Rightarrow> mutex_system \<Rightarrow> mutex_system" where
  "ms_unlock f s =
     (let (awake, m) = FiberMutex_Unlock (ms_mutex s);
          s = s\<lparr>ms_mutex := m, ms_inside := ms_inside s - {f}\<rparr>
      in case awake of
           None \<Rightarrow> s
         | Some g \<Rightarrow> s\<lparr>ms_inside := insert g (ms_inside s), ms_grants := ms_grants s @ [g]\<rparr>)"

inductive ms_reach :: "mutex_system \<Rightarrow> bool" where
  start: "ms_reach ms_init"
| lock: "\<lbrakk>ms_reach s; f \<notin> ms_inside s; f \<notin> set (fm_sleepers (ms_mutex s))\<rbrakk> \<Longrightarrow> ms_reach (ms_lock f s)"
| unlock: "\<lbrakk>ms_reach s; f \<in> ms_inside s\<rbrakk> \<Longrightarrow> ms_reach (ms_unlock f s)"

definition ms_inv :: "mutex_system \<Rightarrow> bool" where
  "ms_inv s \<longleftrightarrow>
     ms_requests s = ms_grants s @ fm_sleepers (ms_mutex s) \<and>
     (if fm_is_locked (ms_mutex s) then \<exists>f. ms_inside s = {f} \<and> f \<notin> set (fm_sleepers (ms_mutex s))
      else ms_inside s = {} \<and> fm_sleepers (ms_mutex s) = []) \<and>
     distinct (fm_sleepers (ms_mutex s))"

lemma ms_reach_inv: "ms_reach s \<Longrightarrow> ms_inv s"
proof (induction rule: ms_reach.induct)
  case start
  then show ?case by (simp add: ms_inv_def ms_init_def)
next
  case (lock s f)
  then show ?case
    by (cases "fm_is_locked (ms_mutex s)") (auto simp: ms_inv_def ms_lock_def FiberMutex_Lock_def Let_def)
next
  case (unlock s f)
  then show ?case
    by (cases "fm_sleepers (ms_mutex s)")
      (auto simp: ms_inv_def ms_unlock_def FiberMutex_Unlock_def Let_def split: if_splits)
qed

text \<open>C37. At most one fiber is inside the critical section of a fiber mutex, the mutex is
  granted in the order in which the fibers asked for it, each request once, and when nobody
  is inside every request has been granted.\<close>

theorem fiber_mutex_fair:
  assumes "ms_reach s"
  shows "(\<forall>f g. f \<in> ms_inside s \<longrightarrow> g \<in> ms_inside s \<longrightarrow> f = g) \<and>
    ms_requests s = ms_grants s @ fm_sleepers (ms_mutex s) \<and>
    (ms_inside s = {} \<longrightarrow> ms_grants s = ms_requests s)"
  using ms_reach_inv [OF assms] by (auto simp: ms_inv_def split: if_splits)

theorem fiber_mutex_fair_witness:
  "ms_grants (ms_unlock 1 (ms_lock 3 (ms_lock 2 (ms_lock 1 ms_init)))) = [1, 2] \<and>
   ms_requests (ms_unlock 1 (ms_lock 3 (ms_lock 2 (ms_lock 1 ms_init)))) =
     ms_grants (ms_unlock 1 (ms_lock 3 (ms_lock 2 (ms_lock 1 ms_init)))) @ [3]"
proof -
  let ?s = "ms_unlock 1 (ms_lock 3 (ms_lock 2 (ms_lock 1 ms_init)))"
  note eval = ms_lock_def ms_unlock_def ms_init_def FiberMutex_Lock_def FiberMutex_Unlock_def
  have reach: "ms_reach ?s"
    by (intro ms_reach.intros) (simp_all add: eval)
  have "ms_grants ?s = [1, 2]" and "fm_sleepers (ms_mutex ?s) = [3]" by (simp_all add: eval)
  with fiber_mutex_fair [OF reach] show ?thesis by simp
qed

section \<open>Scheduling a fiber\<close>

text \<open>
  The threads of the executor that are inside \<open>Fiber::Task\<close> of one fiber: the routine
  runs; it has switched back and \<open>Resume\<close> is about to look at the fiber; the strategy's
  \<open>Suspend\<close> has returned and \<open>suspender_\<close> is about to be reset. \<open>fb_waiting\<close>
  are the strategies that know the fiber and will schedule it, \<open>fb_rethrown\<close> counts the
  exceptions that left \<open>Task\<close>.
\<close>

datatype fiber_worker = InRoutine | SwitchedBack | AfterSuspend

record Fiber =
  fb_suspender :: "nat option"
  fb_exception :: bool
  fb_is_run_finished :: bool
  fb_deleted :: bool
  fb_rethrown :: nat
  fb_scheduled :: nat
  fb_workers :: "fiber_worker list"
  fb_waiting :: "nat list"

definition CreateFiber :: Fiber where
  "CreateFiber = \<lparr>fb_suspender = None, fb_exception = False, fb_is_run_finished = False, fb_deleted = False,
     fb_rethrown = 0, fb_scheduled = 0, fb_workers = [], fb_waiting = []\<rparr>"

definition Fiber_Schedule :: "Fiber \<Rightarrow> Fiber" where
  "Fiber_Schedule b = b\<lparr>fb_scheduled := fb_scheduled b + 1\<rparr>"

definition Fiber_Resume :: "Fiber \<Rightarrow> Fiber" where
  "Fiber_Resume b = b\<lparr>fb_scheduled := fb_scheduled b - 1, fb_workers := fb_workers b @ [InRoutine]\<rparr>"

definition Fiber_Suspend :: "nat \<Rightarrow> fiber_worker list \<Rightarrow> fiber_worker list \<Rightarrow> Fiber \<Rightarrow> Fiber" where
  "Fiber_Suspend k ws ws' b = b\<lparr>fb_suspender := Some k, fb_workers := ws @ SwitchedBack # ws'\<rparr>"

text \<open>The end of \<open>Run\<close>; the routine has returned or thrown.\<close>

definition Fiber_Run_end :: "bool \<Rightarrow> fiber_worker list \<Rightarrow> fiber_worker list \<Rightarrow> Fiber \<Rightarrow> Fiber" where
  "Fiber_Run_end threw ws ws' b =
     (let b = (if threw then b\<lparr>fb_exception := True\<rparr> else b)
      in b\<lparr>fb_is_run_finished := True, fb_workers := ws @ SwitchedBack # ws'\<rparr>)"

text \<open>The rest of \<open>Resume\<close>, which throws the exception again, and of \<open>Task\<close>.\<close>

definition Fiber_Task_check :: "fiber_worker list \<Rightarrow> fiber_worker list \<Rightarrow> Fiber \<Rightarrow> Fiber" where
  "Fiber_Task_check ws ws' b =
     (if fb_exception b then b\<lparr>fb_rethrown := fb_rethrown b + 1, fb_workers := ws @ ws'\<rparr>
      else if \<not> fb_is_run_finished b then
        case fb_suspender b of
          Some k \<Rightarrow> b\<lparr>fb_waiting := k # fb_waiting b, fb_workers := ws @ AfterSuspend # ws'\<rparr>
        | None \<Rightarrow> b\<lparr>fb_workers := ws @ ws'\<rparr>
      else b\<lparr>fb_deleted := True, fb_workers := ws @ ws'\<rparr>)"

definition Fiber_Task_reset :: "fiber_worker list \<Rightarrow> fiber_worker list \<Rightarrow> Fiber \<Rightarrow> Fiber" where
  "Fiber_Task_reset ws ws' b = b\<lparr>fb_suspender := None, fb_workers := ws @ ws'\<rparr>"

inductive fiber_step :: "Fiber \<Rightarrow> Fiber \<Rightarrow> bool" where
  resume: "fb_scheduled b > 0 \<Longrightarrow> fiber_step b (Fiber_Resume b)"
| suspend: "fb_workers b = ws @ InRoutine # ws' \<Longrightarrow> fiber_step b (Fiber_Suspend k ws ws' b)"
| run_end: "fb_workers b = ws @ InRoutine # ws' \<Longrightarrow> fiber_step b (Fiber_Run_end threw ws ws' b)"
| task_check: "fb_workers b = ws @ SwitchedBack # ws' \<Longrightarrow> fiber_step b (Fiber_Task_check ws ws' b)"
| task_reset: "fb_workers b = ws @ AfterSuspend # ws' \<Longrightarrow> fiber_step b (Fiber_Task_reset ws ws' b)"
| awake: "k \<in> set (fb_waiting b) \<Longrightarrow> fiber_step b (Fiber_Schedule (b\<lparr>fb_waiting := remove1 k (fb_waiting b)\<rparr>))"

text \<open>
  \<open>Go\<close> creates a fiber and schedules it. The other functions of \<open>runtime/api.cpp\<close>
  act on the fiber that runs on the calling thread and assert that there is one; the strategy
  of \<open>Yield\<close> schedules the fiber at once.
\<close>

definition Go_on :: Fiber where
  "Go_on = Fiber_Schedule CreateFiber"

definition Go_here :: "fiber option \<Rightarrow> fault + Fiber" where
  "Go_here current = (case current of None \<Rightarrow> Inl AssertFailed | Some _ \<Rightarrow> Inr (Fiber_Schedule CreateFiber))"

definition Suspend_here :: "fiber option \<Rightarrow> nat \<Rightarrow> fiber_worker list \<Rightarrow> fiber_worker list \<Rightarrow> Fiber \<Rightarrow> fault + Fiber" where
  "Suspend_here current strategy ws ws' b =
     (case current of None \<Rightarrow> Inl AssertFailed | Some _ \<Rightarrow> Inr (Fiber_Suspend strategy ws ws' b))"

definition Yield_strategy :: "nat \<Rightarrow> Fiber \<Rightarrow> Fiber" where
  "Yield_strategy k b = Fiber_Schedule (b\<lparr>fb_waiting := remove1 k (fb_waiting b)\<rparr>)"

inductive fiber_reach :: "Fiber \<Rightarrow> bool" where
  fiber_start: "fiber_reach Go_on"
| fiber_more: "\<lbrakk>fiber_reach b; fiber_step b b'\<rbrakk> \<Longrightarrow> fiber_reach b'"

lemmas fiber_ops = CreateFiber_def Go_on_def Fiber_Schedule_def Fiber_Resume_def Fiber_Suspend_def
  Fiber_Run_end_def Fiber_Task_check_def Fiber_Task_reset_def

text \<open>
  The right to run the fiber is with one party at a time: the executor's queue, the thread
  inside the routine, the thread that has switched back, or the strategy it waits for.
\<close>

definition fiber_tokens :: "Fiber \<Rightarrow> nat" where
  "fiber_tokens b = fb_scheduled b + length (filter (\<lambda>w. w \<noteq> AfterSuspend) (fb_workers b)) + length (fb_waiting b)"

definition fiber_inv :: "Fiber \<Rightarrow> bool" where
  "fiber_inv b \<longleftrightarrow> fiber_tokens b \<le> 1 \<and> (fb_exception b \<longrightarrow> fb_is_run_finished b) \<and>
     (fb_is_run_finished b \<longrightarrow>
        fb_scheduled b = 0 \<and> InRoutine \<notin> set (fb_workers b) \<and> fb_waiting b = [] \<and>
        fiber_tokens b + fb_rethrown b + (if fb_deleted b then 1 else 0) = 1) \<and>
     (fb_deleted b \<longrightarrow> fb_is_run_finished b \<and> \<not> fb_exception b) \<and>
     (fb_rethrown b > 0 \<longrightarrow> fb_exception b)"

lemma fiber_step_inv [inv_intro]: "fiber_step b b' \<Longrightarrow> fiber_inv b \<Longrightarrow> fiber_inv b'"
proof (induction rule: fiber_step.induct)
  case (awake k b)
  then show ?case by (cases "fb_waiting b") (auto simp: fiber_inv_def fiber_tokens_def fiber_ops)
next
  case (resume b)
  then have "length (filter (\<lambda>w. w \<noteq> AfterSuspend) (fb_workers b)) = 0" "length (fb_waiting b) = 0"
    by (simp_all only: fiber_inv_def fiber_tokens_def) linarith+
  with resume show ?case by (auto simp: fiber_inv_def fiber_tokens_def fiber_ops)
next
  case (run_end b ws ws' threw)
  then show ?case
    by (auto simp: fiber_inv_def fiber_tokens_def fiber_ops Let_def filter_empty_conv split: if_splits)
qed (auto simp: fiber_inv_def fiber_tokens_def fiber_ops Let_def split: option.splits if_splits)

lemma fiber_reach_inv: "fiber_reach b \<Longrightarrow> fiber_inv b"
proof (induction rule: fiber_reach.induct)
  case fiber_start
  then show ?case by (simp add: fiber_inv_def fiber_tokens_def fiber_ops)
qed (rule fiber_step_inv)

text \<open>C33. The routine of a fiber runs on one thread at a time and never while the fiber is in
  a queue or asleep. When the routine has returned, the fiber is deleted once, by the thread
  that ran it last; when it has thrown, the exception leaves \<open>Task\<close> once and the fiber is
  not deleted. Afterwards nobody runs it or waits for it.\<close>

theorem fiber_single_runner:
  assumes "fiber_reach b"
  shows "fiber_tokens b \<le> 1 \<and>
    (fb_deleted b \<longrightarrow> fb_is_run_finished b \<and> \<not> fb_exception b \<and> fiber_tokens b = 0) \<and>
    (fb_exception b \<longrightarrow> \<not> fb_deleted b \<and> fb_rethrown b + fiber_tokens b = 1) \<and>
    (fb_is_run_finished b \<and> fiber_tokens b = 0 \<and> \<not> fb_exception b \<longrightarrow> fb_deleted b)"
  using fiber_reach_inv [OF assms] by (auto simp: fiber_inv_def split: if_splits)

section \<open>The reset of the strategy\<close>

text \<open>
  The reset of \<open>suspender_\<close> comes after the strategy has published the fiber. When the
  fiber is awakened, runs on another thread and suspends itself again before the reset, the
  reset erases the second strategy: no thread will ever resume the fiber. When it ends
  instead, the reset writes to a fiber that has been deleted.
\<close>

definition fiber_lost :: "Fiber \<Rightarrow> bool" where
  "fiber_lost b \<longleftrightarrow> \<not> fb_is_run_finished b \<and> fb_scheduled b = 0 \<and> fb_workers b = [] \<and> fb_waiting b = []"

definition fiber_awake :: Fiber where
  "fiber_awake = Fiber_Resume (Yield_strategy 0 (Fiber_Task_check [] [] (Fiber_Suspend 0 [] [] (Fiber_Resume Go_on))))"

lemma fiber_awake_reach: "fiber_reach fiber_awake"
proof -
  let ?b = "Fiber_Task_check [] [] (Fiber_Suspend 0 [] [] (Fiber_Resume Go_on))"
  have "fiber_reach ?b"
    by (rule fiber_more [OF fiber_more [OF fiber_more [OF fiber_start resume] suspend] task_check])
      (simp_all add: fiber_ops)
  then show ?thesis unfolding fiber_awake_def Yield_strategy_def
    by (rule fiber_more [OF fiber_more [OF _ awake] resume]) (simp_all add: fiber_ops)
qed

lemmas fiber_eval = fiber_awake_def Yield_strategy_def fiber_ops

lemma fiber_can_be_lost: "\<exists>b. fiber_reach b \<and> fiber_lost b"
proof -
  let ?b = "Fiber_Task_check [] [] (Fiber_Task_reset [] [SwitchedBack] (Fiber_Suspend 1 [AfterSuspend] [] fiber_awake))"
  have "fiber_reach ?b"
    by (rule fiber_more [OF fiber_more [OF fiber_more [OF fiber_awake_reach suspend] task_reset] task_check])
      (simp_all add: fiber_eval)
  moreover have "fiber_lost ?b" by (simp add: fiber_lost_def fiber_eval)
  ultimately show ?thesis by blast
qed

lemma fiber_reset_after_delete: "\<exists>b. fiber_reach b \<and> fb_deleted b \<and> fb_workers b = [AfterSuspend]"
proof -
  let ?b = "Fiber_Task_check [AfterSuspend] [] (Fiber_Run_end False [AfterSuspend] [] fiber_awake)"
  have "fiber_reach ?b"
    by (rule fiber_more [OF fiber_more [OF fiber_awake_reach run_end] task_check]) (simp_all add: fiber_eval)
  moreover have "fb_deleted ?b \<and> fb_workers ?b = [AfterSuspend]" by (simp add: fiber_eval)
  ultimately show ?thesis by blast
qed

theorem fiber_single_runner_witness:
  "fiber_tokens (Fiber_Run_end True [AfterSuspend] [] fiber_awake) \<le> 1 \<and>
   \<not> fb_deleted (Fiber_Run_end True [AfterSuspend] [] fiber_awake)"
proof -
  have "fiber_reach (Fiber_Run_end True [AfterSuspend] [] fiber_awake)"
    by (rule fiber_more [OF fiber_awake_reach run_end]) (simp add: fiber_eval)
  from fiber_single_runner [OF this] show ?thesis by (simp add: fiber_eval)
qed

end
