(* ===== verification/Thread_Pool.thy ===== *)
theory Thread_Pool
  imports Fiber_Sync "HOL-Library.Multiset"
begin

text \<open>
  The thread pool of \<open>src/runtime/thread_pool.cpp\<close>: a closable queue of tasks, a wait
  group that counts the pending ones, and worker threads. One step is one call on the queue or
  on the wait group.
\<close>

section \<open>State\<close>

text \<open>
  \<open>tp_adding\<close> are the calls of \<open>Execute\<close> between \<open>Add\<close> and \<open>Put\<close>,
  \<open>tp_rejected\<close> counts those whose \<open>Put\<close> failed, \<open>tp_running\<close> are the tasks that
  workers execute, \<open>tp_finishing\<close> counts the workers between the end of a task and
  \<open>Done\<close>. The last three fields record the tasks that were accepted, executed, and dropped
  by \<open>Shutdown\<close>.
\<close>

record 'a ThreadPool =
  tp_tasks :: "'a UnboundedQueue"
  tp_pending_tasks :: u32
  tp_workers :: nat
  tp_adding :: "'a multiset"
  tp_rejected :: nat
  tp_running :: "'a multiset"
  tp_finishing :: nat
  tp_accepted :: "'a multiset"
  tp_executed :: "'a multiset"
  tp_dropped :: "'a multiset"

definition ThreadPool_Start :: "nat \<Rightarrow> 'a ThreadPool" where
  "ThreadPool_Start num_workers =
     \<lparr>tp_tasks = \<lparr>uq_buffer = [], uq_is_closed = False\<rparr>, tp_pending_tasks = 0, tp_workers = num_workers,
      tp_adding = {#}, tp_rejected = 0, tp_running = {#}, tp_finishing = 0,
      tp_accepted = {#}, tp_executed = {#}, tp_dropped = {#}\<rparr>"

section \<open>Operations\<close>

definition Execute_add :: "'a \<Rightarrow> 'a ThreadPool \<Rightarrow> 'a ThreadPool" where
  "Execute_add task p =
     p\<lparr>tp_pending_tasks := WaitGroup_Add 1 (tp_pending_tasks p), tp_adding := add_mset task (tp_adding p)\<rparr>"

definition Execute_put :: "'a \<Rightarrow> 'a ThreadPool \<Rightarrow> 'a ThreadPool" where
  "Execute_put task p =
     (let (ok, q) = UQ_Put task (tp_tasks p);
          p = p\<lparr>tp_tasks := q, tp_adding := tp_adding p - {#task#}\<rparr>
      in if ok then p\<lparr>tp_accepted := add_mset task (tp_accepted p)\<rparr>
         else p\<lparr>tp_rejected := tp_rejected p + 1\<rparr>)"

definition Execute_undo :: "'a ThreadPool \<Rightarrow> 'a ThreadPool" where
  "Execute_undo p =
     p\<lparr>tp_pending_tasks := snd (WaitGroup_Done 1 (tp_pending_tasks p)), tp_rejected := tp_rejected p - 1\<rparr>"

text \<open>\<open>Take\<close> of an idle worker: it gets a task, or it leaves its loop; \<open>None\<close> when it waits.\<close>

definition Routine_take :: "'a ThreadPool \<Rightarrow> 'a ThreadPool option" where
  "Routine_take p =
     (case UQ_Take (tp_tasks p) of
        None \<Rightarrow> None
      | Some (None, q) \<Rightarrow> Some (p\<lparr>tp_tasks := q, tp_workers := tp_workers p - 1\<rparr>)
      | Some (Some task, q) \<Rightarrow> Some (p\<lparr>tp_tasks := q, tp_running := add_mset task (tp_running p)\<rparr>))"

definition Routine_finish :: "'a \<Rightarrow> 'a ThreadPool \<Rightarrow> 'a ThreadPool" where
  "Routine_finish task p =
     p\<lparr>tp_running := tp_running p - {#task#}, tp_finishing := tp_finishing p + 1,
       tp_executed := add_mset task (tp_executed p)\<rparr>"

definition Routine_done :: "'a ThreadPool \<Rightarrow> 'a ThreadPool" where
  "Routine_done p =
     p\<lparr>tp_pending_tasks := snd (WaitGroup_Done 1 (tp_pending_tasks p)), tp_finishing := tp_finishing p - 1\<rparr>"

definition SignalStop :: "'a ThreadPool \<Rightarrow> 'a ThreadPool" where
  "SignalStop p = p\<lparr>tp_tasks := UQ_Close (tp_tasks p)\<rparr>"

definition Shutdown :: "'a ThreadPool \<Rightarrow> 'a ThreadPool" where
  "Shutdown p = p\<lparr>tp_tasks := UQ_Clear (tp_tasks p), tp_dropped := tp_dropped p + mset (uq_buffer (tp_tasks p))\<rparr>"

definition busy :: "'a ThreadPool \<Rightarrow> nat" where
  "busy p = size (tp_running p) + tp_finishing p"

inductive tp_step :: "'a ThreadPool \<Rightarrow> 'a ThreadPool \<Rightarrow> bool" where
  add: "tp_step p (Execute_add task p)"
| put: "task \<in># tp_adding p \<Longrightarrow> tp_step p (Execute_put task p)"
| undo: "tp_rejected p > 0 \<Longrightarrow> tp_step p (Execute_undo p)"
| take: "\<lbrakk>busy p < tp_workers p; Routine_take p = Some p'\<rbrakk> \<Longrightarrow> tp_step p p'"
| finish: "task \<in># tp_running p \<Longrightarrow> tp_step p (Routine_finish task p)"
| done_step: "tp_finishing p > 0 \<Longrightarrow> tp_step p (Routine_done p)"
| signal_stop: "tp_step p (SignalStop p)"
| shutdown: "tp_step p (Shutdown p)"

inductive tp_reach :: "nat \<Rightarrow> 'a ThreadPool \<Rightarrow> bool" for n where
  tp_start: "tp_reach n (ThreadPool_Start n)"
| tp_more: "\<lbrakk>tp_reach n p; tp_step p p'\<rbrakk> \<Longrightarrow> tp_reach n p'"

section \<open>The invariant\<close>

definition outstanding :: "'a ThreadPool \<Rightarrow> nat" where
  "outstanding p = size (tp_adding p) + tp_rejected p + length (uq_buffer (tp_tasks p)) +
     size (tp_running p) + tp_finishing p + size (tp_dropped p)"

definition tp_inv :: "'a ThreadPool \<Rightarrow> bool" where
  "tp_inv p \<longleftrightarrow>
     tp_pending_tasks p = of_nat (outstanding p) \<and>
     tp_accepted p = tp_executed p + tp_running p + mset (uq_buffer (tp_tasks p)) + tp_dropped p \<and>
     busy p \<le> tp_workers p \<and>
     (\<not> uq_is_closed (tp_tasks p) \<longrightarrow> tp_dropped p = {#})"

lemmas tp_ops = Execute_add_def Execute_put_def Execute_undo_def Routine_take_def Routine_finish_def
  Routine_done_def SignalStop_def Shutdown_def WaitGroup_Add_def WaitGroup_Done_def
  UQ_Put_def UQ_Take_def UQ_Close_def UQ_Clear_def

lemma tp_step_inv [inv_intro]: "tp_step p p' \<Longrightarrow> tp_inv p \<Longrightarrow> tp_inv p'"
proof (induction rule: tp_step.induct)
  case (put task p)
  then obtain A where "tp_adding p = add_mset task A" by (metis mset_add)
  with put show ?case by (auto simp: tp_inv_def outstanding_def busy_def tp_ops split: if_splits)
next
  case (undo p)
  then obtain k where "tp_rejected p = Suc k" by (cases "tp_rejected p") auto
  with undo show ?case by (auto simp: tp_inv_def outstanding_def busy_def tp_ops)
next
  case (take p p')
  then show ?case
    by (auto simp: tp_inv_def outstanding_def busy_def tp_ops split: if_splits list.splits)
next
  case (finish task p)
  then obtain A where "tp_running p = add_mset task A" by (metis mset_add)
  with finish show ?case by (auto simp: tp_inv_def outstanding_def busy_def tp_ops)
next
  case (done_step p)
  then obtain k where "tp_finishing p = Suc k" by (cases "tp_finishing p") auto
  with done_step show ?case by (auto simp: tp_inv_def outstanding_def busy_def tp_ops)
qed (auto simp: tp_inv_def outstanding_def busy_def tp_ops algebra_simps)

lemma tp_reach_inv: "tp_reach n p \<Longrightarrow> tp_inv p"
proof (induction rule: tp_reach.induct)
  case tp_start
  then show ?case by (simp add: tp_inv_def outstanding_def busy_def ThreadPool_Start_def)
qed (rule tp_step_inv)

lemma outstanding_zero:
  assumes "tp_inv p" and "tp_pending_tasks p = 0" and "outstanding p < 2 ^ 32"
  shows "outstanding p = 0"
proof -
  have "unat (of_nat (outstanding p) :: u32) = outstanding p" using assms(3) by (simp add: unat_of_nat)
  with assms(1,2) show ?thesis by (simp add: tp_inv_def)
qed

text \<open>C35. When \<open>Wait\<close> of a thread pool reads 0, and fewer than \<open>2 ^ 32\<close> tasks are
  outstanding, no call of \<open>Execute\<close> is under way, no task is queued or running, and
  exactly the accepted tasks have been executed, each as often as it was accepted.\<close>

theorem thread_pool_wait_complete:
  assumes "tp_reach n p" and "tp_pending_tasks p = 0" and "outstanding p < 2 ^ 32"
  shows "tp_executed p = tp_accepted p \<and> tp_adding p = {#} \<and> tp_running p = {#} \<and> uq_buffer (tp_tasks p) = []"
proof -
  have inv: "tp_inv p" using assms(1) by (rule tp_reach_inv)
  from outstanding_zero [OF inv assms(2,3)] inv show ?thesis by (simp add: outstanding_def tp_inv_def)
qed

definition tp_demo :: "nat ThreadPool" where
  "tp_demo = Routine_done (Routine_finish 5 (the (Routine_take (Execute_put 5 (Execute_add 5 (ThreadPool_Start 1))))))"

lemma tp_demo_reach: "tp_reach 1 tp_demo"
proof -
  let ?p = "Execute_put 5 (Execute_add 5 (ThreadPool_Start 1)) :: nat ThreadPool"
  have "tp_reach 1 ?p"
    by (rule tp_more [OF tp_more [OF tp_start add] put]) (simp add: ThreadPool_Start_def tp_ops)
  moreover have "tp_step ?p (the (Routine_take ?p))"
    by (rule take) (simp_all add: busy_def ThreadPool_Start_def tp_ops)
  ultimately have "tp_reach 1 (the (Routine_take ?p))" by (rule tp_more)
  then show ?thesis
    unfolding tp_demo_def
    by (rule tp_more [OF tp_more [OF _ finish] done_step]) (simp_all add: ThreadPool_Start_def tp_ops)
qed

theorem thread_pool_wait_complete_witness: "tp_executed tp_demo = {#5#} \<and> tp_accepted tp_demo = {#5#}"
  using thread_pool_wait_complete [OF tp_demo_reach]
  by (simp add: tp_demo_def outstanding_def ThreadPool_Start_def tp_ops)

text \<open>
  A worker leaves its loop only when the queue is closed and empty, so a closed pool executes
  everything it accepted before the last worker leaves.
\<close>

lemma worker_leaves_empty:
  "Routine_take p = Some p' \<Longrightarrow> tp_workers p' \<noteq> tp_workers p \<Longrightarrow>
   uq_is_closed (tp_tasks p) \<and> uq_buffer (tp_tasks p) = []"
  by (auto simp: tp_ops split: if_splits list.splits)

text \<open>
  \<open>Shutdown\<close> drops the queued tasks without \<open>Done\<close>: a later \<open>Wait\<close> never
  reads 0.
\<close>

lemma shutdown_blocks_wait:
  assumes "tp_reach n p" and "tp_dropped p \<noteq> {#}" and "outstanding p < 2 ^ 32"
  shows "tp_pending_tasks p \<noteq> 0"
  using outstanding_zero [OF tp_reach_inv [OF assms(1)] _ assms(3)] assms(2) by (auto simp: outstanding_def)

end
