(* ===== verification/Application_Common.thy ===== *)
theory Application_Common
  imports Reliable_Transport Thread_Pool
begin

text \<open>
  What the three applications share: the runtime configuration and the retry policies
  (\<open>GetRuntimeConfig\<close>, \<open>GetReliableRetryPolicy\<close>), the runtime that owns the thread pool
  and the timer service (\<open>include/runtime/runtime.hpp\<close>), the effects of the sending
  loops and the sequences of payloads they produce.
\<close>

section \<open>Configuration and runtime\<close>

record RuntimeConfig =
  threadpool_workers :: nat
  eventloop_runners :: nat
  eventloop_max_num_events :: nat
  timerservice_tick_duration :: DurationMs
  max_send_budget :: u64

text \<open>
  Every application has its own copy of these two functions; the configurations differ in the
  send budget only.
\<close>

definition runtime_config :: "u64 \<Rightarrow> RuntimeConfig" where
  "runtime_config budget = \<lparr>threadpool_workers = 7, eventloop_runners = 4, eventloop_max_num_events = 100,
     timerservice_tick_duration = 100, max_send_budget = budget\<rparr>"

definition GetReliableRetryPolicy :: "DurationMs \<Rightarrow> ReliableRetryPolicy" where
  "GetReliableRetryPolicy timer_service_max_timeout =
     (let error_policy = RetryPolicy_init 100 (3, 2) timer_service_max_timeout False;
          empty_write_policy = RetryPolicy_init 100 (3, 2) timer_service_max_timeout False;
          msg_policy = RetryPolicy_init 1000 (3, 1) timer_service_max_timeout False
      in \<lparr>msg_policy = msg_policy,
          fair_loss_policy = \<lparr>error_policy = error_policy, empty_write_policy = empty_write_policy\<rparr>\<rparr>)"

text \<open>
  The runtime. Its tasks are named by numbers; the tasks that \<open>Start\<close> submits are the
  runners of the event loop.
\<close>

record Runtime =
  rn_config :: RuntimeConfig
  rn_thread_pool :: "nat ThreadPool"
  rn_timer_service :: "TimerObject TimerService"
  rn_transport :: "ReliableTransport option"

definition Runtime_init :: "RuntimeConfig \<Rightarrow> Runtime" where
  "Runtime_init config =
     \<lparr>rn_config = config, rn_thread_pool = ThreadPool_Start 0,
      rn_timer_service = TimerService_init (timerservice_tick_duration config), rn_transport = None\<rparr>"

definition Runtime_Start :: "Runtime \<Rightarrow> Runtime" where
  "Runtime_Start r =
     r\<lparr>rn_thread_pool := fold (\<lambda>runner p. Execute_put runner (Execute_add runner p)) [0..<eventloop_runners (rn_config r)]
         (ThreadPool_Start (threadpool_workers (rn_config r)))\<rparr>"

definition Runtime_SetTransport :: "HostsTable \<Rightarrow> ReliableRetryPolicy \<Rightarrow> Runtime \<Rightarrow> Runtime" where
  "Runtime_SetTransport hosts policy r =
     r\<lparr>rn_transport := Some (ReliableTransport_init hosts policy (max_send_budget (rn_config r))
         (timerservice_tick_duration (rn_config r)))\<rparr>"

definition Runtime_Shutdown :: "Runtime \<Rightarrow> Runtime" where
  "Runtime_Shutdown r = r\<lparr>rn_thread_pool := Shutdown (rn_thread_pool r)\<rparr>"

lemma runtime_start_reach: "tp_reach (threadpool_workers (rn_config r)) (rn_thread_pool (Runtime_Start r))"
proof -
  have "tp_reach n (fold (\<lambda>runner p. Execute_put runner (Execute_add runner p)) rs p)" if "tp_reach n p" for rs n and p :: "nat ThreadPool"
    using that
  proof (induction rs arbitrary: p)
    case (Cons t ts)
    have "tp_reach n (Execute_add t p)" using Cons.prems add by (rule tp_more)
    then have "tp_reach n (Execute_put t (Execute_add t p))" by (rule tp_more [OF _ put]) (simp add: Execute_add_def)
    with Cons.IH show ?case by simp
  qed simp
  then show ?thesis by (simp add: Runtime_Start_def tp_start)
qed

text \<open>The runners are all accepted, and workers are left for the tasks of the transport.\<close>

lemma runtime_runners:
  "uq_buffer (tp_tasks (rn_thread_pool (Runtime_Start (Runtime_init (runtime_config b))))) = [0, 1, 2, 3] \<and>
   eventloop_runners (runtime_config b) < threadpool_workers (runtime_config b)"
  by (simp add: Runtime_Start_def Runtime_init_def runtime_config_def ThreadPool_Start_def Execute_add_def Execute_put_def UQ_Put_def upt_rec)

text \<open>
  With this policy an unacknowledged message is sent again after 1, 3, 9, 27 and 81 seconds,
  five times in all.
\<close>

lemma application_retransmissions:
  "timeouts R (Suc (Suc (Suc (Suc (Suc (Suc n)))))) (msg_policy (GetReliableRetryPolicy (MaxDuration (TimerService_init 100 :: nat TimerService)))) =
   [1000, 3000, 9000, 27000, 81000]"
  by (simp add: GetReliableRetryPolicy_def RetryPolicy_init_def MaxDuration_def TimerService_init_def
      kMaxTicksDuration_def Next_def IsValid_def GetTimeout_def)

section \<open>Effects of a sending loop\<close>

text \<open>What the loop does: log a line \<open>b payload\<close>, broadcast, wait for a batch of futures.\<close>

datatype app_effect = LogBroadcast u32 | BroadcastMessage Bytes | AwaitAll nat

text \<open>A callback applied to the messages that are delivered, one after the other.\<close>

fun deliver_all :: "(Bytes \<Rightarrow> fault + 'l list) \<Rightarrow> Bytes list \<Rightarrow> fault + 'l list" where
  "deliver_all callback [] = Inr []"
| "deliver_all callback (b # bs) =
     fbind (callback b) (\<lambda>ls. fbind (deliver_all callback bs) (\<lambda>ls'. Inr (ls @ ls')))"

fun logged :: "app_effect list \<Rightarrow> u32 list" where
  "logged [] = []"
| "logged (LogBroadcast p # es) = p # logged es"
| "logged (_ # es) = logged es"

fun broadcasts :: "app_effect list \<Rightarrow> Bytes list" where
  "broadcasts [] = []"
| "broadcasts (BroadcastMessage b # es) = b # broadcasts es"
| "broadcasts (_ # es) = broadcasts es"

lemma logged_append [simp]: "logged (es @ fs) = logged es @ logged fs"
  by (induction es rule: logged.induct) auto

lemma broadcasts_append [simp]: "broadcasts (es @ fs) = broadcasts es @ broadcasts fs"
  by (induction es rule: broadcasts.induct) auto

lemma logged_map [simp]: "logged (map LogBroadcast ps) = ps"
  by (induction ps) auto

lemma broadcasts_map [simp]: "broadcasts (map LogBroadcast ps) = []"
  by (induction ps) auto

lemma deliver_all_append:
  "deliver_all callback (bs @ cs) =
     fbind (deliver_all callback bs) (\<lambda>ls. fbind (deliver_all callback cs) (\<lambda>ls'. Inr (ls @ ls')))"
proof (induction bs)
  case Nil
  then show ?case by (cases "deliver_all callback cs") auto
next
  case (Cons b bs)
  then show ?case
    by (cases "callback b"; cases "deliver_all callback bs"; cases "deliver_all callback cs") auto
qed

text \<open>The payloads \<open>c\<close>, \<open>c + 1\<close>, ... below \<open>d\<close>.\<close>

definition payloads :: "nat \<Rightarrow> nat \<Rightarrow> u32 list" where
  "payloads c d = map of_nat [c..<d]"

lemma payloads_Cons: "c < d \<Longrightarrow> payloads c d = of_nat c # payloads (Suc c) d"
  by (simp add: payloads_def upt_conv_Cons)

lemma payloads_Nil: "d \<le> c \<Longrightarrow> payloads c d = []"
  by (simp add: payloads_def)

lemma payloads_append: "c \<le> d \<Longrightarrow> d \<le> e \<Longrightarrow> payloads c d @ payloads d e = payloads c e"
  using upt_add_eq_append [of c d "e - d"] by (simp add: payloads_def flip: map_append)

lemma length_payloads [simp]: "length (payloads c d) = d - c"
  by (simp add: payloads_def)

end
