(* ===== verification/Host_Address.thy ===== *)
theory Host_Address
  imports Hosts
begin

text \<open>
  Addresses of hosts (\<open>Parser::Host\<close> in \<open>include/parser.hpp\<close>): a host is given by its
  dotted address or by a name, which is looked up. Of the C library, \<open>inet_pton\<close>,
  \<open>inet_ntop\<close> and \<open>inet_addr\<close> are modelled for dotted IPv4 addresses on a little-endian
  machine; the answer of \<open>getaddrinfo\<close> is a parameter. Characters and decimal numbers, which
  the parser uses too, come first.
\<close>

section \<open>Characters and numbers\<close>

definition isspace :: "char \<Rightarrow> bool" where
  "isspace c \<longleftrightarrow> of_char c \<in> {9, 10, 11, 12, 13, 32 :: nat}"

definition isdigit :: "char \<Rightarrow> bool" where
  "isdigit c \<longleftrightarrow> 48 \<le> (of_char c :: nat) \<and> (of_char c :: nat) \<le> 57"

fun digits_value :: "nat \<Rightarrow> string \<Rightarrow> nat" where
  "digits_value acc [] = acc"
| "digits_value acc (c # cs) = digits_value (10 * acc + (of_char c - 48)) cs"

fun show_nat :: "nat \<Rightarrow> string" where
  "show_nat n = (if n < 10 then [char_of (48 + n)] else show_nat (n div 10) @ [char_of (48 + n mod 10)])"

declare show_nat.simps [simp del]

lemma of_char_digit: "d < 10 \<Longrightarrow> (of_char (char_of (48 + d) :: char) :: nat) = 48 + d"
  by (simp add: of_char_of)

lemma digits_value_snoc: "digits_value acc (cs @ [c]) = 10 * digits_value acc cs + (of_char c - 48)"
  by (induction cs arbitrary: acc) auto

lemma show_nat_facts: "list_all isdigit (show_nat n) \<and> show_nat n \<noteq> [] \<and> digits_value 0 (show_nat n) = n"
proof (induction n rule: show_nat.induct)
  case (1 n)
  show ?case
  proof (cases "n < 10")
    case True
    then show ?thesis by (simp add: show_nat.simps [of n] isdigit_def of_char_digit)
  next
    case False
    with 1 show ?thesis by (simp add: show_nat.simps [of n] digits_value_snoc isdigit_def of_char_digit)
  qed
qed

lemma isdigit_not_space: "isdigit c \<Longrightarrow> \<not> isspace c"
  by (auto simp: isdigit_def isspace_def)

lemma show_nat_no_zero: "hd (show_nat n) = CHR ''0'' \<Longrightarrow> n = 0"
proof (induction n rule: show_nat.induct)
  case (1 n)
  show ?case
  proof (cases "n < 10")
    case True
    have "(of_char (CHR ''0'') :: nat) = 48" by simp
    with True 1(2) show ?thesis using of_char_digit [OF True] by (simp add: show_nat.simps [of n])
  next
    case False
    then have "hd (show_nat (n div 10)) = CHR ''0''"
      using 1(2) show_nat_facts [of "n div 10"] by (simp add: show_nat.simps [of n])
    then show ?thesis using 1(1) [OF False] False by simp
  qed
qed

section \<open>Dotted addresses\<close>

fun split_dots :: "string \<Rightarrow> string list" where
  "split_dots [] = [[]]"
| "split_dots (c # cs) =
     (if c = CHR ''.'' then [] # split_dots cs
      else case split_dots cs of [] \<Rightarrow> [[c]] | p # ps \<Rightarrow> (c # p) # ps)"

text \<open>\<open>inet_pton\<close> accepts a decimal number up to 255 without a leading zero.\<close>

definition octet :: "string \<Rightarrow> nat option" where
  "octet s =
     (if s \<noteq> [] \<and> list_all isdigit s \<and> (hd s = CHR ''0'' \<longrightarrow> length s = 1) \<and> digits_value 0 s \<le> 255
      then Some (digits_value 0 s) else None)"

definition inet_pton :: "string \<Rightarrow> u32 option" where
  "inet_pton s =
     (case map octet (split_dots s) of
        [Some a, Some b, Some c, Some d] \<Rightarrow> Some (of_nat (a + 256 * (b + 256 * (c + 256 * d))))
      | _ \<Rightarrow> None)"

text \<open>\<open>inet_addr\<close> is called on strings that \<open>inet_pton\<close> accepts; \<open>INADDR_NONE\<close> otherwise.\<close>

definition inet_addr :: "string \<Rightarrow> u32" where
  "inet_addr s = (case inet_pton s of Some a \<Rightarrow> a | None \<Rightarrow> 0xFFFFFFFF)"

definition inet_ntop :: "u32 \<Rightarrow> string" where
  "inet_ntop a =
     (let n = unat a
      in show_nat (n mod 256) @ ''.'' @ show_nat (n div 256 mod 256) @ ''.'' @
         show_nat (n div 65536 mod 256) @ ''.'' @ show_nat (n div 16777216))"

definition isValidIpAddress :: "string \<Rightarrow> bool" where
  "isValidIpAddress ipAddress \<longleftrightarrow> inet_pton ipAddress \<noteq> None"

definition ipReadable :: "Host \<Rightarrow> string" where
  "ipReadable h = inet_ntop (host_ip h)"

section \<open>Looking a name up\<close>

record addrinfo =
  ai_family :: int
  ai_sin_addr :: u32

definition AF_INET :: int where "AF_INET = 2"

datatype lookup_error = CouldNotResolve | NoIPv4

text \<open>
  The loop over the answers. The first component is what \<open>freeaddrinfo\<close> is given: the list
  from the current entry on when it returns, the null pointer at the end.
\<close>

fun lookup_loop :: "addrinfo list \<Rightarrow> addrinfo list \<times> (lookup_error + u32)" where
  "lookup_loop [] = ([], Inl NoIPv4)"
| "lookup_loop (res # rest) =
     (if ai_family res = AF_INET then (res # rest, Inr (inet_addr (inet_ntop (ai_sin_addr res))))
      else lookup_loop rest)"

definition ipLookup :: "(string \<Rightarrow> addrinfo list option) \<Rightarrow> string \<Rightarrow> addrinfo list \<times> (lookup_error + u32)" where
  "ipLookup getaddrinfo host =
     (case getaddrinfo host of None \<Rightarrow> ([], Inl CouldNotResolve) | Some res \<Rightarrow> lookup_loop res)"

definition host_address :: "(string \<Rightarrow> addrinfo list option) \<Rightarrow> string \<Rightarrow> lookup_error + u32" where
  "host_address getaddrinfo ip_or_hostname =
     (if isValidIpAddress ip_or_hostname then Inr (inet_addr ip_or_hostname)
      else snd (ipLookup getaddrinfo ip_or_hostname))"

section \<open>Printing and reading addresses\<close>

lemma digit_not_dot: "isdigit c \<Longrightarrow> c \<noteq> CHR ''.''"
  by (auto simp: isdigit_def)

lemma split_dots_digits: "list_all isdigit p \<Longrightarrow> split_dots p = [p]"
  by (induction p) (auto dest: digit_not_dot)

lemma split_dots_dot: "list_all isdigit p \<Longrightarrow> split_dots (p @ CHR ''.'' # r) = p # split_dots r"
  by (induction p) (auto dest: digit_not_dot)

lemma octet_show: "n \<le> 255 \<Longrightarrow> octet (show_nat n) = Some n"
  using show_nat_facts [of n] show_nat_no_zero [of n] by (auto simp: octet_def show_nat.simps [of 0])

lemma quad_value:
  fixes n :: nat
  shows "n mod 256 + 256 * (n div 256 mod 256 + 256 * (n div 65536 mod 256 + 256 * (n div 16777216))) = n"
proof -
  have "n div 65536 = n div 256 div 256" "n div 16777216 = n div 256 div 256 div 256"
    by (simp_all flip: div_mult2_eq)
  then show ?thesis by (simp only: mod_mult_div_eq)
qed

lemma inet_pton_ntop [simp]: "inet_pton (inet_ntop a) = Some a"
proof -
  let ?n = "unat a"
  have "?n div 16777216 \<le> 255" using unat_u32_bound [of a] by simp
  moreover have "m mod 256 \<le> 255" for m :: nat by (simp add: Suc_le_eq flip: less_Suc_eq_le)
  ultimately show ?thesis
    using show_nat_facts quad_value [of ?n]
    by (simp add: inet_pton_def inet_ntop_def Let_def split_dots_dot split_dots_digits octet_show)
qed

lemma inet_addr_ntop [simp]: "inet_addr (inet_ntop a) = a"
  by (simp add: inet_addr_def)

text \<open>A dotted address is taken as it is, whatever the resolver answers.\<close>

lemma host_address_dotted: "host_address getaddrinfo (inet_ntop a) = Inr a"
  by (simp add: host_address_def isValidIpAddress_def)

text \<open>A name gets the first IPv4 address among the answers.\<close>

lemma lookup_loop_first:
  "snd (lookup_loop res) = (case filter (\<lambda>x. ai_family x = AF_INET) res of
     [] \<Rightarrow> Inl NoIPv4 | x # _ \<Rightarrow> Inr (ai_sin_addr x))"
  by (induction res) auto

lemma host_address_name:
  assumes "\<not> isValidIpAddress name"
  shows "host_address getaddrinfo name =
    (case getaddrinfo name of
       None \<Rightarrow> Inl CouldNotResolve
     | Some res \<Rightarrow> (case filter (\<lambda>x. ai_family x = AF_INET) res of
         [] \<Rightarrow> Inl NoIPv4 | x # _ \<Rightarrow> Inr (ai_sin_addr x)))"
  using assms by (simp add: host_address_def ipLookup_def lookup_loop_first split: option.split)

text \<open>
  The answers before the first IPv4 address are never released, nor is any answer when there is
  no IPv4 address: the pointer to the head of the list is lost by the loop.
\<close>

lemma lookup_leaks:
  "fst (lookup_loop res) = dropWhile (\<lambda>x. ai_family x \<noteq> AF_INET) res"
  by (induction res) auto

lemma lookup_leak_example:
  "fst (ipLookup (\<lambda>_. Some [\<lparr>ai_family = 10, ai_sin_addr = 0\<rparr>, \<lparr>ai_family = AF_INET, ai_sin_addr = 7\<rparr>]) name) =
     [\<lparr>ai_family = AF_INET, ai_sin_addr = 7\<rparr>]"
  by (simp add: ipLookup_def AF_INET_def)

lemma isspace_ntop: "list_all (\<lambda>c. \<not> isspace c) (inet_ntop a)" "inet_ntop a \<noteq> []"
proof -
  have "list_all (\<lambda>c. \<not> isspace c) (show_nat n)" for n
    using show_nat_facts [of n] isdigit_not_space by (auto simp: list_all_iff)
  then show "list_all (\<lambda>c. \<not> isspace c) (inet_ntop a)"
    by (simp add: inet_ntop_def Let_def isspace_def)
  show "inet_ntop a \<noteq> []" by (simp add: inet_ntop_def Let_def)
qed

end
