(* ===== verification/Parser.thy ===== *)
theory Parser
  imports Host_Address
begin

text \<open>
  The command line and the hosts file (\<open>include/parser.hpp\<close>). Strings are lists of
  characters, files the string of their content; \<open>getline\<close>, \<open>operator>>\<close> and
  \<open>stoul\<close> of the C++ library are modelled for the "C" locale as far as the parser uses
  them. The answer of the name lookup is a parameter.
\<close>

section \<open>Reading words and numbers\<close>

text \<open>
  \<open>is >> x\<close> for an unsigned integer of \<open>w\<close> bits: leading space is skipped, a sign is
  accepted, a minus sign negates modulo \<open>2 ^ w\<close>, a number that is too large fails. The
  result is the value and the rest of the input.
\<close>

definition extract_sign :: "string \<Rightarrow> bool \<times> string" where
  "extract_sign s =
     (case s of [] \<Rightarrow> (False, [])
      | c # cs \<Rightarrow> if c = CHR ''-'' then (True, cs) else if c = CHR ''+'' then (False, cs) else (False, s))"

definition extract_unsigned :: "nat \<Rightarrow> string \<Rightarrow> (nat \<times> string) option" where
  "extract_unsigned w s =
     (let (neg, s) = extract_sign (dropWhile isspace s);
          ds = takeWhile isdigit s;
          v = digits_value 0 ds
      in if ds = [] \<or> v \<ge> 2 ^ w then None
         else Some (if neg then (2 ^ w - v) mod 2 ^ w else v, dropWhile isdigit s))"

definition extract_string :: "string \<Rightarrow> (string \<times> string) option" where
  "extract_string s =
     (let s = dropWhile isspace s; t = takeWhile (\<lambda>c. \<not> isspace c) s
      in if t = [] then None else Some (t, drop (length t) s))"

text \<open>\<open>std::stoul\<close> of a string that begins with a digit; \<open>None\<close> is an exception.\<close>

definition stoul :: "string \<Rightarrow> nat option" where
  "stoul s = (let ds = takeWhile isdigit s; v = digits_value 0 ds
              in if ds = [] \<or> v \<ge> 2 ^ 64 then None else Some v)"

text \<open>The lines that a loop of \<open>getline\<close> reads.\<close>

fun getlines_acc :: "string \<Rightarrow> string \<Rightarrow> string list" where
  "getlines_acc line [] = (if line = [] then [] else [line])"
| "getlines_acc line (c # cs) =
     (if c = CHR 0x0A then line # getlines_acc [] cs else getlines_acc (line @ [c]) cs)"

definition getlines :: "string \<Rightarrow> string list" where
  "getlines content = getlines_acc [] content"

section \<open>The command line\<close>

datatype parse_error =
    HelpAndExit
  | NotParsed
  | ConfigIgnored
  | CannotResolve lookup_error
  | NoHostsFile
  | BadLine nat
  | TooFewHosts
  | IdsNotCompact

record Parser =
  ps_argv :: "string list"
  ps_withConfig :: bool
  ps_parsed :: bool
  ps_id :: nat
  ps_hostsPath :: string
  ps_outputPath :: string
  ps_configPath :: string
  ps_mode :: string

definition isPositiveNumber :: "string \<Rightarrow> bool" where
  "isPositiveNumber s \<longleftrightarrow> s \<noteq> [] \<and> list_all isdigit s"

definition argc :: "Parser \<Rightarrow> nat" where
  "argc p = length (ps_argv p)"

definition parseID :: "Parser \<Rightarrow> Parser option" where
  "parseID p =
     (if argc p < 3 then None
      else if ps_argv p ! 1 = ''--id'' then
        if isPositiveNumber (ps_argv p ! 2) then
          case stoul (ps_argv p ! 2) of None \<Rightarrow> None | Some n \<Rightarrow> Some (p\<lparr>ps_id := n\<rparr>)
        else None
      else None)"

definition parseHostPath :: "Parser \<Rightarrow> Parser option" where
  "parseHostPath p =
     (if argc p < 5 then None
      else if ps_argv p ! 3 = ''--hosts'' then Some (p\<lparr>ps_hostsPath := ps_argv p ! 4\<rparr>) else None)"

definition parseOutputPath :: "Parser \<Rightarrow> Parser option" where
  "parseOutputPath p =
     (if argc p < 7 then None
      else if ps_argv p ! 5 = ''--output'' then Some (p\<lparr>ps_outputPath := ps_argv p ! 6\<rparr>) else None)"

definition parseConfigPath :: "Parser \<Rightarrow> Parser option" where
  "parseConfigPath p =
     (if \<not> ps_withConfig p then Some p
      else if argc p < 8 then None
      else Some (p\<lparr>ps_configPath := ps_argv p ! 7\<rparr>))"

definition parseMode :: "Parser \<Rightarrow> Parser option" where
  "parseMode p = (if argc p < 9 then None else Some (p\<lparr>ps_mode := ps_argv p ! 8\<rparr>))"

definition parseInternal :: "Parser \<Rightarrow> Parser option" where
  "parseInternal p =
     do { p \<leftarrow> parseID p; p \<leftarrow> parseHostPath p; p \<leftarrow> parseOutputPath p; p \<leftarrow> parseConfigPath p; parseMode p }"

text \<open>\<open>help\<close> prints the usage and ends the process.\<close>

definition Parser_parse :: "Parser \<Rightarrow> parse_error + Parser" where
  "Parser_parse p = (case parseInternal p of None \<Rightarrow> Inl HelpAndExit | Some p \<Rightarrow> Inr (p\<lparr>ps_parsed := True\<rparr>))"

definition checkParsed :: "Parser \<Rightarrow> 'a \<Rightarrow> parse_error + 'a" where
  "checkParsed p a = (if ps_parsed p then Inr a else Inl NotParsed)"

definition Parser_id :: "Parser \<Rightarrow> parse_error + nat" where
  "Parser_id p = checkParsed p (ps_id p)"

definition hostsPath :: "Parser \<Rightarrow> parse_error + string" where
  "hostsPath p = checkParsed p (ps_hostsPath p)"

definition outputPath :: "Parser \<Rightarrow> parse_error + string" where
  "outputPath p = checkParsed p (ps_outputPath p)"

definition configPath :: "Parser \<Rightarrow> parse_error + string" where
  "configPath p =
     (case checkParsed p () of
        Inl e \<Rightarrow> Inl e
      | Inr _ \<Rightarrow> if ps_withConfig p then Inr (ps_configPath p) else Inl ConfigIgnored)"

definition Parser_mode :: "Parser \<Rightarrow> parse_error + string" where
  "Parser_mode p = checkParsed p (ps_mode p)"

section \<open>The hosts file\<close>

definition ltrim :: "string \<Rightarrow> string" where
  "ltrim s = dropWhile isspace s"

definition rtrim :: "string \<Rightarrow> string" where
  "rtrim s = rev (dropWhile isspace (rev s))"

definition trim :: "string \<Rightarrow> string" where
  "trim s = rtrim (ltrim s)"

definition htons :: "u16 \<Rightarrow> u16" where
  "htons p = of_nat (unat p div 256 + 256 * (unat p mod 256))"

definition portReadable :: "Host \<Rightarrow> u16" where
  "portReadable h = htons (host_port h)"

definition Host_init :: "(string \<Rightarrow> addrinfo list option) \<Rightarrow> nat \<Rightarrow> string \<Rightarrow> u16 \<Rightarrow> parse_error + Host" where
  "Host_init getaddrinfo i ip_or_hostname port =
     (case host_address getaddrinfo ip_or_hostname of
        Inl e \<Rightarrow> Inl (CannotResolve e)
      | Inr ip \<Rightarrow> Inr \<lparr>host_id = of_nat i, host_ip = ip, host_port = htons port\<rparr>)"

definition parse_line :: "string \<Rightarrow> (nat \<times> string \<times> u16) option" where
  "parse_line line =
     do { (i, s) \<leftarrow> extract_unsigned 64 line;
          (ip, s) \<leftarrow> extract_string s;
          (port, s) \<leftarrow> extract_unsigned 16 s;
          Some (i, ip, of_nat port) }"

fun parse_lines :: "(string \<Rightarrow> addrinfo list option) \<Rightarrow> nat \<Rightarrow> string list \<Rightarrow> parse_error + Host list" where
  "parse_lines getaddrinfo lineNum [] = Inr []"
| "parse_lines getaddrinfo lineNum (line # ls) =
     (if trim line = [] then parse_lines getaddrinfo (lineNum + 1) ls
      else case parse_line line of
             None \<Rightarrow> Inl (BadLine (lineNum + 1))
           | Some (i, ip, port) \<Rightarrow>
               (case Host_init getaddrinfo i ip port of
                  Inl e \<Rightarrow> Inl e
                | Inr h \<Rightarrow> (case parse_lines getaddrinfo (lineNum + 1) ls of Inl e \<Rightarrow> Inl e | Inr hs \<Rightarrow> Inr (h # hs))))"

text \<open>
  The content of the file is \<open>None\<close> when it cannot be opened. \<open>std::sort\<close> leaves the
  order of hosts with the same id open; the model keeps them in the order of the file.
\<close>

definition Parser_hosts :: "(string \<Rightarrow> addrinfo list option) \<Rightarrow> string option \<Rightarrow> Parser \<Rightarrow> parse_error + Host list" where
  "Parser_hosts getaddrinfo content p =
     (case hostsPath p of
        Inl e \<Rightarrow> Inl e
      | Inr _ \<Rightarrow>
        (case content of
           None \<Rightarrow> Inl NoHostsFile
         | Some text \<Rightarrow>
           (case parse_lines getaddrinfo 0 (getlines text) of
              Inl e \<Rightarrow> Inl e
            | Inr hs \<Rightarrow>
                if length hs < 2 then Inl TooFewHosts
                else let ids = map host_id hs; minID = Min (set ids); maxID = Max (set ids)
                     in if minID \<noteq> 1 \<or> maxID \<noteq> of_nat (length hs) then Inl IdsNotCompact
                        else Inr (sort_key host_id hs))))"

section \<open>What the hosts file guarantees\<close>

lemma sorted_ids_exact:
  assumes "sorted ns" and "distinct ns" and "set ns \<subseteq> {1..length ns}"
  shows "ns = [1..<Suc (length ns)]"
proof -
  have "card (set ns) = card {1..length ns}" using assms(2) by (simp add: distinct_card)
  then have "set ns = {1..length ns}" using assms(3) by (intro card_subset_eq) auto
  then have "set ns = set [1..<Suc (length ns)]" by (simp only: set_upt atLeastLessThanSuc_atLeastAtMost)
  with assms(1,2) show ?thesis by (intro sorted_distinct_set_unique) (simp_all only: sorted_upt distinct_upt)
qed

text \<open>A hosts file is accepted only if its hosts, sorted by id, start at 1 and end at
  their number, with at least two of them; and when no id is repeated the ids are exactly
  \<open>1, ..., n\<close>.\<close>

lemma accepted_hosts_compact:
  assumes "Parser_hosts getaddrinfo content p = Inr hs" and "length hs < 2 ^ 64"
  shows "sorted (map host_id hs) \<and> 2 \<le> length hs \<and>
    (\<forall>h\<in>set hs. 1 \<le> unat (host_id h) \<and> unat (host_id h) \<le> length hs) \<and>
    1 \<in> set (map host_id hs) \<and> of_nat (length hs) \<in> set (map host_id hs) \<and>
    (distinct (map host_id hs) \<longrightarrow> map (unat \<circ> host_id) hs = [1..<Suc (length hs)])"
proof -
  from assms(1) obtain hs0 where hs0: "hs = sort_key host_id hs0" "2 \<le> length hs0"
      "Min (host_id ` set hs0) = 1" "Max (host_id ` set hs0) = of_nat (length hs0)"
    by (auto simp: Parser_hosts_def Let_def split: sum.splits option.splits if_splits)
  have ne: "hs0 \<noteq> []" using hs0(2) by auto
  have len: "unat (of_nat (length hs0) :: u64) = length hs0" using assms(2) hs0(1) by (simp add: unat_of_nat)
  have bounds: "1 \<le> unat (host_id h) \<and> unat (host_id h) \<le> length hs0" if "h \<in> set hs0" for h
  proof -
    have "1 \<le> host_id h" using that hs0(3) by (metis Min_le finite_imageI finite_set imageI)
    moreover have "host_id h \<le> of_nat (length hs0)" using that hs0(4) by (metis Max_ge finite_imageI finite_set imageI)
    ultimately show ?thesis using len by (simp add: word_le_nat_alt)
  qed
  have ends: "1 \<in> host_id ` set hs0" "of_nat (length hs0) \<in> host_id ` set hs0"
    using Min_in [of "host_id ` set hs0"] Max_in [of "host_id ` set hs0"] ne hs0(3,4) by auto
  have sorted: "sorted (map host_id hs)" using hs0(1) by simp
  have "map (unat \<circ> host_id) hs = [1..<Suc (length hs)]" if "distinct (map host_id hs)"
  proof -
    have "sorted (map (unat \<circ> host_id) hs)"
      using sorted by (simp add: sorted_map word_le_nat_alt)
    moreover have "distinct (map (unat \<circ> host_id) hs)"
      using that by (simp add: distinct_map inj_on_def word_unat_eq_iff)
    moreover have "set (map (unat \<circ> host_id) hs) \<subseteq> {1..length (map (unat \<circ> host_id) hs)}"
      using bounds hs0(1) by auto
    ultimately show ?thesis using sorted_ids_exact by fastforce
  qed
  with bounds ends sorted hs0 show ?thesis by auto
qed

section \<open>Printing and parsing\<close>

definition print_host :: "nat \<times> string \<times> u16 \<Rightarrow> string" where
  "print_host h = (case h of (i, ip, port) \<Rightarrow> show_nat i @ '' '' @ ip @ '' '' @ show_nat (unat port))"

definition print_hosts :: "(nat \<times> string \<times> u16) list \<Rightarrow> string" where
  "print_hosts hs = concat (map (\<lambda>h. print_host h @ [CHR 0x0A]) hs)"

lemma isdigit_not_sign: "isdigit c \<Longrightarrow> c \<noteq> CHR ''-'' \<and> c \<noteq> CHR ''+''"
  by (auto simp: isdigit_def)

lemma space_facts [simp]: "isspace CHR '' ''" "\<not> isdigit CHR '' ''" "isspace CHR 0x0A" "\<not> isdigit CHR 0x0A"
  by (simp_all add: isspace_def isdigit_def)

lemma takeWhile_digits: "list_all isdigit ds \<Longrightarrow> (\<And>c cs. rest = c # cs \<Longrightarrow> \<not> isdigit c) \<Longrightarrow>
   takeWhile isdigit (ds @ rest) = ds \<and> dropWhile isdigit (ds @ rest) = rest"
  by (induction ds) (cases rest; auto)+

lemma extract_unsigned_show:
  assumes "n < 2 ^ w" and "\<And>c cs. rest = c # cs \<Longrightarrow> \<not> isdigit c"
  shows "extract_unsigned w (show_nat n @ rest) = Some (n, rest)"
    and "extract_unsigned w (CHR '' '' # show_nat n @ rest) = Some (n, rest)"
proof -
  note facts = show_nat_facts [of n]
  then obtain c cs where c: "show_nat n = c # cs" "isdigit c" by (cases "show_nat n") auto
  then have "dropWhile isspace (show_nat n @ rest) = show_nat n @ rest" by (simp add: isdigit_not_space)
  moreover have "extract_sign (show_nat n @ rest) = (False, show_nat n @ rest)"
    using c isdigit_not_sign by (simp add: extract_sign_def)
  moreover have "takeWhile isdigit (show_nat n @ rest) = show_nat n"
      and "dropWhile isdigit (show_nat n @ rest) = rest"
    using takeWhile_digits [of "show_nat n" rest] facts assms(2) by blast+
  ultimately show "extract_unsigned w (show_nat n @ rest) = Some (n, rest)"
    and "extract_unsigned w (CHR '' '' # show_nat n @ rest) = Some (n, rest)"
    using facts assms(1) by (simp_all add: extract_unsigned_def)
qed

definition word_like :: "string \<Rightarrow> bool" where
  "word_like s \<longleftrightarrow> s \<noteq> [] \<and> list_all (\<lambda>c. \<not> isspace c) s"

lemma extract_string_word:
  assumes "word_like s"
  shows "extract_string (CHR '' '' # s @ CHR '' '' # rest) = Some (s, CHR '' '' # rest)"
proof -
  have "dropWhile isspace (s @ CHR '' '' # rest) = s @ CHR '' '' # rest"
    using assms by (cases s) (auto simp: word_like_def)
  moreover have "takeWhile (\<lambda>c. \<not> isspace c) (s @ CHR '' '' # rest) = s"
    using assms by (auto simp: word_like_def list_all_iff takeWhile_append2)
  ultimately show ?thesis using assms by (simp add: extract_string_def word_like_def)
qed

lemma parse_line_print:
  assumes "i < 2 ^ 64" and "word_like ip"
  shows "parse_line (print_host (i, ip, port)) = Some (i, ip, port)"
proof -
  have port: "unat port < 2 ^ 16" using unsigned_less [of port] by simp
  show ?thesis
    using extract_unsigned_show(1) [OF assms(1), of "CHR '' '' # ip @ CHR '' '' # show_nat (unat port)"]
      extract_string_word [OF assms(2), of "show_nat (unat port)"] extract_unsigned_show(2) [OF port, of "[]"]
    by (simp add: parse_line_def print_host_def)
qed
lemma getlines_acc_line:
  "CHR 0x0A \<notin> set l \<Longrightarrow> getlines_acc acc (l @ CHR 0x0A # rest) = (acc @ l) # getlines_acc [] rest"
  by (induction l arbitrary: acc) auto

lemma getlines_concat:
  "\<forall>l\<in>set ls. CHR 0x0A \<notin> set l \<Longrightarrow> getlines (concat (map (\<lambda>l. l @ [CHR 0x0A]) ls)) = ls"
  by (induction ls) (auto simp: getlines_def getlines_acc_line)

lemma no_newline_print:
  assumes "word_like ip"
  shows "CHR 0x0A \<notin> set (print_host (i, ip, port))"
proof -
  have "CHR 0x0A \<notin> set (show_nat n)" for n
    using show_nat_facts [of n] space_facts(4) by (auto simp: list_all_iff)
  moreover have "CHR 0x0A \<notin> set ip"
    using assms space_facts(3) unfolding word_like_def list_all_iff by blast
  ultimately show ?thesis by (simp add: print_host_def)
qed

lemma trim_print: "trim (print_host (i, ip, port)) \<noteq> []"
proof -
  obtain c cs where c: "show_nat i = c # cs" "isdigit c" using show_nat_facts [of i] by (cases "show_nat i") auto
  then have "c \<in> set (ltrim (print_host (i, ip, port)))" by (simp add: print_host_def ltrim_def isdigit_not_space)
  then have "\<exists>x \<in> set (rev (ltrim (print_host (i, ip, port)))). \<not> isspace x" using c(2) isdigit_not_space by auto
  then show ?thesis by (auto simp: trim_def rtrim_def)
qed

definition to_host :: "(string \<Rightarrow> u32) \<Rightarrow> nat \<times> string \<times> u16 \<Rightarrow> Host" where
  "to_host address h = (case h of (i, ip, port) \<Rightarrow>
     \<lparr>host_id = of_nat i, host_ip = address ip, host_port = htons port\<rparr>)"

lemma parse_lines_print:
  assumes "\<forall>(i, ip, port)\<in>set hs. i < 2 ^ 64 \<and> word_like ip \<and> host_address getaddrinfo ip = Inr (address ip)"
  shows "parse_lines getaddrinfo n (map print_host hs) = Inr (map (to_host address) hs)"
  using assms
proof (induction hs arbitrary: n)
  case (Cons h hs)
  obtain i ip port where "h = (i, ip, port)" by (cases h) auto
  with Cons show ?case
    by (auto simp: parse_line_print trim_print Host_init_def to_host_def)
qed simp

lemma htons_involution: "htons (htons p) = p"
proof -
  let ?m = "unat p div 256 + 256 * (unat p mod 256)"
  have p: "unat p < 65536" using unsigned_less [of p] by simp
  then have hi: "unat p div 256 < 256" by auto
  have "unat p mod 256 < 256" by simp
  with hi have m: "?m < 65536" by linarith
  then have u: "unat (htons p) = ?m" by (simp only: htons_def unat_of_nat) simp
  have "?m div 256 = unat p mod 256" and "?m mod 256 = unat p div 256" using hi by auto
  then have "?m div 256 + 256 * (?m mod 256) = unat p" by simp
  then show ?thesis by (simp add: htons_def [of "htons p"] u)
qed

lemma insort_key_map:
  "\<forall>y\<in>set xs. (g (f x) \<le> g (f y)) = (k x \<le> k y) \<Longrightarrow> insort_key g (f x) (map f xs) = map f (insort_key k x xs)"
  by (induction xs) auto

lemma sort_key_map:
  "\<forall>x\<in>set xs. \<forall>y\<in>set xs. (g (f x) \<le> g (f y)) = (k x \<le> k y) \<Longrightarrow> sort_key g (map f xs) = map f (sort_key k xs)"
  by (induction xs) (auto simp: insort_key_map)

lemma unat_of_nat_u64: "n < 2 ^ 64 \<Longrightarrow> unat (of_nat n :: u64) = n"
  by (simp add: unat_of_nat)

lemma compact_ids:
  assumes "0 < n" and "n < 2 ^ 64"
  shows "Min (of_nat ` {1..n}) = (1 :: u64)" and "Max (of_nat ` {1..n}) = (of_nat n :: u64)"
proof -
  show "Min (of_nat ` {1..n}) = (1 :: u64)"
  proof (rule Min_eqI)
    show "(1 :: u64) \<le> y" if "y \<in> of_nat ` {1..n}" for y
      using that assms(2) by (auto simp: word_le_nat_alt unat_of_nat_u64)
    show "(1 :: u64) \<in> of_nat ` {1..n}" using assms(1) by (intro image_eqI [of _ _ 1]) auto
  qed simp
  show "Max (of_nat ` {1..n}) = (of_nat n :: u64)"
  proof (rule Max_eqI)
    show "y \<le> (of_nat n :: u64)" if "y \<in> of_nat ` {1..n}" for y
      using that assms(2) by (auto simp: word_le_nat_alt unat_of_nat_u64)
    show "(of_nat n :: u64) \<in> of_nat ` {1..n}" using assms(1) by (intro imageI) auto
  qed simp
qed

lemma host_id_to_host: "host_id (to_host address h) = of_nat (fst h)"
  by (cases h) (simp add: to_host_def)

lemma getlines_print:
  assumes "\<forall>(i, ip, port)\<in>set hs. word_like ip"
  shows "getlines (print_hosts hs) = map print_host hs"
proof -
  have "\<forall>l\<in>set (map print_host hs). CHR 0x0A \<notin> set l" using assms no_newline_print by fastforce
  from getlines_concat [OF this] show ?thesis by (simp add: print_hosts_def comp_def)
qed

lemma Parser_hosts_print:
  assumes "ps_parsed p" and words: "\<forall>(i, ip, port)\<in>set hs. i < 2 ^ 64 \<and> word_like ip \<and> host_address getaddrinfo ip = Inr (address ip)"
  shows "Parser_hosts getaddrinfo (Some (print_hosts hs)) p =
    (if length hs < 2 then Inl TooFewHosts
     else if Min (of_nat ` fst ` set hs) \<noteq> (1 :: u64) \<or> Max (of_nat ` fst ` set hs) \<noteq> (of_nat (length hs) :: u64)
       then Inl IdsNotCompact
     else Inr (sort_key host_id (map (to_host address) hs)))"
proof -
  have "\<forall>(i, ip, port)\<in>set hs. word_like ip" using words by auto
  then have lines: "parse_lines getaddrinfo 0 (getlines (print_hosts hs)) = Inr (map (to_host address) hs)"
    using parse_lines_print [OF words, of 0] by (simp add: getlines_print)
  with assms(1) show ?thesis
    by (simp add: Parser_hosts_def hostsPath_def checkParsed_def Let_def image_image host_id_to_host)
qed

lemma Parser_hosts_sorted:
  assumes "ps_parsed p" and "2 \<le> length hs" and "length hs < 2 ^ 64" and ids: "fst ` set hs = {1..length hs}"
    and words: "\<forall>(i, ip, port)\<in>set hs. word_like ip \<and> host_address getaddrinfo ip = Inr (address ip)"
  shows "Parser_hosts getaddrinfo (Some (print_hosts hs)) p = Inr (map (to_host address) (sort_key fst hs))"
proof -
  have range: "fst h < 2 ^ 64" if "h \<in> set hs" for h
    using that ids assms(3) by (metis atLeastAtMost_iff imageI le_less_trans)
  then have "\<forall>(i, ip, port)\<in>set hs. i < 2 ^ 64 \<and> word_like ip \<and> host_address getaddrinfo ip = Inr (address ip)"
    using words by fastforce
  note parsed = Parser_hosts_print [OF assms(1) this]
  have sorted: "sort_key host_id (map (to_host address) hs) = map (to_host address) (sort_key fst hs)"
  proof (rule sort_key_map, intro ballI)
    fix x y assume "x \<in> set hs" and "y \<in> set hs"
    with range have "fst x < 2 ^ 64" "fst y < 2 ^ 64" by blast+
    then show "(host_id (to_host address x) \<le> host_id (to_host address y)) = (fst x \<le> fst y)"
      by (simp add: host_id_to_host word_le_nat_alt unat_of_nat_u64)
  qed
  have pos: "0 < length hs" using assms(2) by linarith
  from parsed sorted compact_ids [OF pos assms(3)] ids assms(2) show ?thesis by simp
qed

lemma portReadable_to_host: "map portReadable (map (to_host address) hs) = map (\<lambda>(i, ip, port). port) hs"
  by (auto simp: portReadable_def to_host_def htons_involution)

text \<open>The line of the hosts file that describes a host.\<close>

definition host_line :: "Host \<Rightarrow> nat \<times> string \<times> u16" where
  "host_line h = (unat (host_id h), ipReadable h, portReadable h)"

lemma to_host_line: "to_host inet_addr (host_line h) = h"
  by (simp add: to_host_def host_line_def ipReadable_def portReadable_def htons_involution)

lemma host_line_words:
  "\<forall>(i, ip, port)\<in>set (map host_line hosts).
     i < 2 ^ 64 \<and> word_like ip \<and> host_address getaddrinfo ip = Inr (inet_addr ip)"
proof -
  have "unat (host_id h) < 2 ^ 64" for h using unsigned_less [of "host_id h"] by simp
  then show ?thesis
    using isspace_ntop by (auto simp: host_line_def ipReadable_def word_like_def host_address_dotted)
qed

text \<open>C40. Parsing is the inverse of printing: a file that lists the hosts \<open>1, ..., n\<close> in
  any order, one line "id address port" each, with the address and the port in their
  readable form, is accepted by a parser that has read its arguments, and the result is exactly
  those hosts in the order of their ids. The resolver is not asked.\<close>

theorem hosts_roundtrip:
  assumes "ps_parsed p" and "2 \<le> length hosts" and "length hosts < 2 ^ 64"
    and "(unat \<circ> host_id) ` set hosts = {1..length hosts}"
  shows "Parser_hosts getaddrinfo (Some (print_hosts (map host_line hosts))) p = Inr (sort_key host_id hosts)"
proof -
  have same: "map (to_host inet_addr) (map host_line hosts) = hosts"
    by (simp add: comp_def to_host_line)
  have ids: "fst ` set (map host_line hosts) = {1..length hosts}"
    using assms(4) by (simp add: image_image host_line_def)
  have pos: "0 < length hosts" using assms(2) by linarith
  note parsed = Parser_hosts_print [OF assms(1) host_line_words, of getaddrinfo hosts]
  from assms(2) compact_ids [OF pos assms(3)] show ?thesis
    unfolding parsed ids same by simp
qed

section \<open>Examples\<close>

definition parser_demo :: Parser where
  "parser_demo = \<lparr>ps_argv = [''da'', ''--id'', ''2'', ''--hosts'', ''h'', ''--output'', ''o'', ''c'', ''fifo''],
     ps_withConfig = True, ps_parsed = True, ps_id = 2, ps_hostsPath = ''h'', ps_outputPath = ''o'',
     ps_configPath = ''c'', ps_mode = ''fifo''\<rparr>"

lemma parser_demo_parsed: "ps_parsed parser_demo"
  by (simp add: parser_demo_def)

text \<open>A resolver that answers an IPv6 and an IPv4 address.\<close>

definition address_demo :: "string \<Rightarrow> u32" where
  "address_demo s = of_nat (length s)"

definition getaddrinfo_demo :: "string \<Rightarrow> addrinfo list option" where
  "getaddrinfo_demo s = Some [\<lparr>ai_family = 10, ai_sin_addr = 0\<rparr>, \<lparr>ai_family = AF_INET, ai_sin_addr = address_demo s\<rparr>]"

lemma host_address_demo: "\<not> isValidIpAddress s \<Longrightarrow> host_address getaddrinfo_demo s = Inr (address_demo s)"
  by (simp add: host_address_name getaddrinfo_demo_def AF_INET_def)

definition hosts_demo :: "(nat \<times> string \<times> u16) list" where
  "hosts_demo = [(2, ''b'', 12), (1, ''a'', 11)]"

lemma demo_names: "s \<in> {''a'', ''b'', ''c''} \<Longrightarrow> word_like s \<and> host_address getaddrinfo_demo s = Inr (address_demo s)"
  by (auto simp: word_like_def isspace_def isValidIpAddress_def inet_pton_def octet_def isdigit_def intro!: host_address_demo)

lemma hosts_demo_words:
  "\<forall>(i, ip, port)\<in>set hosts_demo. word_like ip \<and> host_address getaddrinfo_demo ip = Inr (address_demo ip)"
  using demo_names by (simp add: hosts_demo_def)

definition dotted_demo :: "Host list" where
  "dotted_demo = [\<lparr>host_id = 2, host_ip = 0x0200A8C0, host_port = 1\<rparr>, \<lparr>host_id = 1, host_ip = 0x0100007F, host_port = 2\<rparr>]"

theorem hosts_roundtrip_witness:
  "map (ipReadable) dotted_demo = [''192.168.0.2'', ''127.0.0.1''] \<and>
   Parser_hosts (\<lambda>_. None) (Some (print_hosts (map host_line dotted_demo))) parser_demo = Inr (rev dotted_demo)"
proof
  show "map ipReadable dotted_demo = [''192.168.0.2'', ''127.0.0.1'']"
    by (simp add: dotted_demo_def ipReadable_def inet_ntop_def show_nat.simps char_of_def bit_0)
  have "{1..length dotted_demo} = {1, 2}" by (auto simp: dotted_demo_def)
  then have ids: "(unat \<circ> host_id) ` set dotted_demo = {1..length dotted_demo}" by (simp add: dotted_demo_def insert_commute)
  have sorted: "sort_key host_id dotted_demo = rev dotted_demo" by (simp add: dotted_demo_def word_le_nat_alt)
  show "Parser_hosts (\<lambda>_. None) (Some (print_hosts (map host_line dotted_demo))) parser_demo = Inr (rev dotted_demo)"
    using hosts_roundtrip [OF parser_demo_parsed _ _ ids] sorted by (simp add: dotted_demo_def)
qed

lemma hosts_demo_accepted:
  "Parser_hosts getaddrinfo_demo (Some (print_hosts hosts_demo)) parser_demo =
     Inr [\<lparr>host_id = 1, host_ip = 1, host_port = htons 11\<rparr>, \<lparr>host_id = 2, host_ip = 1, host_port = htons 12\<rparr>]"
proof -
  have "\<forall>(i, ip, port)\<in>set hosts_demo. i < 2 ^ 64 \<and> word_like ip \<and> host_address getaddrinfo_demo ip = Inr (address_demo ip)"
    using hosts_demo_words by (auto simp: hosts_demo_def)
  note printed = Parser_hosts_print [OF parser_demo_parsed this]
  show ?thesis unfolding printed
    by (simp add: hosts_demo_def to_host_def address_demo_def word_le_nat_alt)
qed

lemma accepted_hosts_compact_witness:
  "map (unat \<circ> host_id) [\<lparr>host_id = 1, host_ip = 1, host_port = htons 11\<rparr>, \<lparr>host_id = 2, host_ip = 1, host_port = htons 12\<rparr>]
     = [1, 2]"
  using accepted_hosts_compact [OF hosts_demo_accepted] by simp

text \<open>
  The check compares the smallest and the largest id with 1 and the number of hosts; a file in
  which an id is repeated and another one is missing passes it.
\<close>

lemma duplicate_ids_accepted:
  "Parser_hosts getaddrinfo_demo (Some (print_hosts [(1, ''a'', 1), (1, ''b'', 2), (3, ''c'', 3)])) parser_demo =
   Inr (map (to_host address_demo) [(1, ''a'', 1), (1, ''b'', 2), (3, ''c'', 3)])"
proof -
  let ?hs = "[(1, ''a'', 1), (1, ''b'', 2), (3, ''c'', 3)] :: (nat \<times> string \<times> u16) list"
  have "\<forall>(i, ip, port)\<in>set ?hs. i < 2 ^ 64 \<and> word_like ip \<and> host_address getaddrinfo_demo ip = Inr (address_demo ip)"
    using demo_names by simp
  note printed = Parser_hosts_print [OF parser_demo_parsed this]
  show ?thesis unfolding printed
    by (simp add: to_host_def word_le_nat_alt)
qed

text \<open>A command line in the documented form is understood.\<close>

lemma parse_documented:
  assumes "isPositiveNumber i" and "stoul i = Some n"
  shows "\<exists>q. Parser_parse (p\<lparr>ps_argv := [prog, ''--id'', i, ''--hosts'', h, ''--output'', out, config, m], ps_withConfig := True\<rparr>) = Inr q \<and>
    Parser_id q = Inr n \<and> hostsPath q = Inr h \<and> outputPath q = Inr out \<and> configPath q = Inr config \<and> Parser_mode q = Inr m"
  using assms
  by (simp add: Parser_parse_def parseInternal_def parseID_def parseHostPath_def parseOutputPath_def parseConfigPath_def
      parseMode_def argc_def Parser_id_def hostsPath_def outputPath_def configPath_def Parser_mode_def checkParsed_def)

end
