(* ===== verification/FIFO_Application.thy ===== *)
theory FIFO_Application
  imports Rate_Limiter FIFO_System Application_Common Parser
begin

text \<open>
  The FIFO broadcast application (\<open>include/applications/fifo.hpp\<close>): the application
  message, the delivery callback and the loop that broadcasts the configured number of
  messages, eight payloads per message, in batches bounded by the rate limiter.
\<close>

section \<open>Configuration\<close>

text \<open>The number of messages; \<open>None\<close> when the file does not begin with a number.\<close>

definition FIFO_ParseConfig :: "string \<Rightarrow> u32 option" where
  "FIFO_ParseConfig config = map_option (of_nat \<circ> fst) (extract_unsigned 32 config)"

definition FIFO_GetRuntimeConfig :: RuntimeConfig where
  "FIFO_GetRuntimeConfig = runtime_config 50"

section \<open>Application messages\<close>

definition kNumMessages :: nat where "kNumMessages = 8"

text \<open>\<open>messages\<close> is an array of eight 32-bit integers; 0 marks an unused cell.\<close>

type_synonym FIFOMessage = "u32 list"

definition FIFOMessage_Size :: "FIFOMessage \<Rightarrow> nat" where
  "FIFOMessage_Size m = 4 * 8"

definition FIFOMessage_write :: "FIFOMessage \<Rightarrow> Bytes \<Rightarrow> Bytes option" where
  "FIFOMessage_write m bytes = map_option (\<lambda>(d, r). d @ r) (BinaryMarshalArrayType m 8 ([], bytes))"

definition FIFOMessage_Marshal :: "FIFOMessage \<Rightarrow> Bytes option" where
  "FIFOMessage_Marshal m = marshal_fresh FIFOMessage_Size FIFOMessage_write m"

definition FIFOMessage_Unmarshal :: "Bytes \<Rightarrow> FIFOMessage option" where
  "FIFOMessage_Unmarshal bytes = (if length bytes \<ge> 4 * 8 then BinaryUnmarshalArrayType 8 bytes else None)"

interpretation fifo_message: serializable FIFOMessage_Size FIFOMessage_write FIFOMessage_Unmarshal array_bytes "\<lambda>m. length m = 8"
proof
  fix m :: FIFOMessage and buf r :: Bytes
  assume m: "length m = 8"
  show "length (array_bytes m) \<le> FIFOMessage_Size m" using m by (simp add: FIFOMessage_Size_def)
  show "FIFOMessage_write m buf = Some (array_bytes m @ drop (length (array_bytes m)) buf)"
    if "length buf = FIFOMessage_Size m"
    using m that by (simp add: FIFOMessage_write_def FIFOMessage_Size_def BinaryMarshalArrayType_def wire)
  show "FIFOMessage_Unmarshal (array_bytes m @ r) = Some m" if "length r = FIFOMessage_Size m - length (array_bytes m)"
    using m array_value_u32 [of m r] by (simp add: FIFOMessage_Unmarshal_def BinaryUnmarshalArrayType_def)
qed

section \<open>Delivering\<close>

text \<open>The lines \<open>d peer payload\<close> that the callback appends to the output.\<close>

definition FIFO_app_callback :: "PeerID \<Rightarrow> Bytes \<Rightarrow> fault + (PeerID \<times> u32) list" where
  "FIFO_app_callback peer message =
     (case FIFOMessage_Unmarshal message of
        None \<Rightarrow> Inl AssertFailed
      | Some m \<Rightarrow> Inr [(peer, payload). payload \<leftarrow> m, payload \<noteq> 0])"

section \<open>Broadcasting\<close>

fun fill_payloads :: "nat \<Rightarrow> u32 \<Rightarrow> u32 \<Rightarrow> u32 \<Rightarrow> u32 list" where
  "fill_payloads 0 current_payload payload_idx num_messages = []"
| "fill_payloads (Suc cells) current_payload payload_idx num_messages =
     (if current_payload + payload_idx \<le> num_messages
      then (current_payload + payload_idx) # fill_payloads cells current_payload (payload_idx + 1) num_messages
      else [])"

definition prepare_message :: "u32 \<Rightarrow> u32 \<Rightarrow> u32 list \<times> FIFOMessage" where
  "prepare_message current_payload num_messages =
     (let logged = fill_payloads kNumMessages current_payload 0 num_messages
      in (logged, logged @ replicate (kNumMessages - length logged) 0))"

text \<open>The inner loop: it ends because the limiter stops firing.\<close>

function broadcast_batch ::
    "u32 \<Rightarrow> RateLimiter \<Rightarrow> u32 \<Rightarrow> fault + (RateLimiter \<times> u32 \<times> app_effect list \<times> nat)" where
  "broadcast_batch num_messages l current_payload =
     (let (fired, l') = Fire l in
      if fired \<and> current_payload \<le> num_messages then
        let (logged, message) = prepare_message current_payload num_messages in
        case FIFOMessage_Marshal message of
          None \<Rightarrow> Inl AssertFailed
        | Some bytes \<Rightarrow>
            fbind (broadcast_batch num_messages l' (current_payload + of_nat kNumMessages))
              (\<lambda>(l', current_payload, es, futures).
                 Inr (l', current_payload, map LogBroadcast logged @ [BroadcastMessage bytes] @ es, Suc futures))
      else Inr (l', current_payload, [], 0))"
  by pat_completeness auto
termination
proof (relation "measure (\<lambda>(n, l, c). remaining l)")
  fix num_messages current_payload :: u32 and l l' :: RateLimiter and fired x
  assume "x = Fire l" and "(fired, l') = x" and "fired \<and> current_payload \<le> num_messages"
  then have "Fire l = (True, l')" by auto
  then have "remaining l \<noteq> 0" using Fire_remaining_0 [of l] by auto
  with Fire_remaining [of l] \<open>Fire l = (True, l')\<close>
  show "((num_messages, l', current_payload + of_nat kNumMessages), (num_messages, l, current_payload))
      \<in> measure (\<lambda>(n, l, c). remaining l)" by auto
qed simp

text \<open>
  The outer loop. \<open>All\<close> asserts that there is a future to wait for, and the loop asserts
  that the combined future has a value (\<open>answers\<close>, by the number of the batch). When the
  32-bit counter wraps the loop does not end.
\<close>

partial_function (option) broadcast_loop ::
    "(nat \<Rightarrow> bool) \<Rightarrow> u32 \<Rightarrow> nat \<Rightarrow> RateLimiter \<Rightarrow> u32 \<Rightarrow> (fault + app_effect list) option" where
  "broadcast_loop answers num_messages batch l current_payload =
     (if current_payload \<le> num_messages then
        case broadcast_batch num_messages l current_payload of
          Inl e \<Rightarrow> Some (Inl e)
        | Inr (l, current_payload, es, futures) \<Rightarrow>
            if futures = 0 \<or> \<not> answers batch then Some (Inl AssertFailed)
            else Option.bind (broadcast_loop answers num_messages (Suc batch) (Limiter_Reset l) current_payload)
                   (\<lambda>r. Some (fbind r (\<lambda>es'. Inr (es @ [AwaitAll futures] @ es'))))
      else Some (Inr []))"

declare broadcast_loop.simps [code]

definition kLinkPacketLimit :: u64 where "kLinkPacketLimit = 18000"

definition RunAsBroadcaster :: "(nat \<Rightarrow> bool) \<Rightarrow> u64 \<Rightarrow> u32 \<Rightarrow> (fault + app_effect list) option" where
  "RunAsBroadcaster answers network_size num_messages =
     (case UniformReliableBroadcastRateLimiter network_size kLinkPacketLimit of
        Inl e \<Rightarrow> Some (Inl e)
      | Inr l \<Rightarrow> broadcast_loop answers num_messages 0 l 1)"

section \<open>What a run logs and sends\<close>

lemma fill_payloads_eq:
  "unat c + unat i + n < 2 ^ 32 \<Longrightarrow>
   fill_payloads n c i num = payloads (unat c + unat i) (min (unat c + unat i + n) (Suc (unat num)))"
proof (induction n arbitrary: i)
  case 0
  then show ?case by (simp add: payloads_def)
next
  case (Suc n)
  have sum: "unat (c + i) = unat c + unat i" using Suc.prems by (simp add: unat_word_ariths)
  have inc: "unat (i + 1) = unat i + 1" using Suc.prems by (simp add: unat_word_ariths)
  have le: "c + i \<le> num \<longleftrightarrow> unat c + unat i \<le> unat num" by (simp add: word_le_nat_alt sum)
  show ?case
  proof (cases "unat c + unat i \<le> unat num")
    case True
    with Suc le show ?thesis by (subst payloads_Cons) (simp_all add: inc)
  next
    case False
    with le show ?thesis by (simp add: payloads_Nil)
  qed
qed

lemma prepare_message_eq:
  assumes "unat c \<le> unat num" and "unat num + 8 < 2 ^ 32"
  shows "prepare_message c num = (payloads (unat c) (min (unat c + 8) (Suc (unat num))),
     payloads (unat c) (min (unat c + 8) (Suc (unat num))) @
       replicate (8 - (min (unat c + 8) (Suc (unat num)) - unat c)) 0)"
proof -
  have "fill_payloads 8 c 0 num = payloads (unat c) (min (unat c + 8) (Suc (unat num)))"
    using fill_payloads_eq [of c 0 8 num] assms by simp
  then show ?thesis by (simp add: prepare_message_def kNumMessages_def Let_def)
qed

lemma FIFO_app_callback_message:
  assumes "length m = 8"
  shows "\<exists>bs. FIFOMessage_Marshal m = Some bs \<and> FIFO_app_callback peer bs = Inr [(peer, p). p \<leftarrow> m, p \<noteq> 0]"
  using fifo_message.fresh_roundtrip [OF assms] by (auto simp: FIFOMessage_Marshal_def FIFO_app_callback_def)

lemma nonzero_payloads:
  assumes "0 < c" and "d \<le> 2 ^ 32"
  shows "[(peer, p). p \<leftarrow> payloads c d @ replicate k 0, p \<noteq> 0] = map (Pair peer) (payloads c d)"
proof -
  have ne: "p \<noteq> 0" if "p \<in> set (payloads c d)" for p
  proof
    from that obtain i where i: "p = of_nat i" "c \<le> i" "i < d" by (auto simp: payloads_def)
    then have "unat p = i" using assms(2) by (simp add: unat_of_nat)
    moreover assume "p = 0"
    ultimately show False using i(2) assms(1) by simp
  qed
  have zero: "[(peer, p). p \<leftarrow> replicate k 0, p \<noteq> 0] = []" for k by (induction k) auto
  have "[(peer, p). p \<leftarrow> ps, p \<noteq> 0] = map (Pair peer) ps" if "\<forall>p \<in> set ps. p \<noteq> 0" for ps :: "u32 list"
    using that by (induction ps) auto
  then show ?thesis using ne zero by simp
qed
section \<open>Runs of the loops\<close>

lemma broadcast_batch_run:
  assumes "unat num + 8 < 2 ^ 32" and "0 < unat c" and "unat c \<le> unat num + 8"
  shows "\<exists>l' c' es k. broadcast_batch num l c = Inr (l', c', es, k) \<and> batch_size l' = batch_size l \<and>
    unat c \<le> unat c' \<and> unat c' \<le> unat num + 8 \<and>
    logged es = payloads (min (unat c) (Suc (unat num))) (min (unat c') (Suc (unat num))) \<and>
    deliver_all (FIFO_app_callback peer) (broadcasts es) = Inr (map (Pair peer) (logged es)) \<and>
    k \<le> remaining l \<and> (remaining l \<noteq> 0 \<and> unat c \<le> unat num \<longrightarrow> k \<noteq> 0 \<and> unat c < unat c')"
  using assms(2,3)
proof (induction "remaining l" arbitrary: l c)
  case 0
  then show ?case by (simp add: Fire_remaining_0 payloads_Nil)
next
  case (Suc r)
  obtain l1 where l1: "Fire l = (True, l1)" "remaining l1 = r" "batch_size l1 = batch_size l"
    using Fire_remaining [of l] Suc.hyps(2) by (metis diff_Suc_1 nat.simps(3))
  show ?case
  proof (cases "unat c \<le> unat num")
    case False
    then show ?thesis using l1 Suc.prems(2) by (simp add: word_le_nat_alt payloads_Nil)
  next
    case True
    let ?d = "min (unat c + 8) (Suc (unat num))"
    let ?m = "payloads (unat c) ?d @ replicate (8 - (?d - unat c)) 0"
    have next_c: "unat (c + 8) = unat c + 8" using True assms(1) by (simp add: unat_word_ariths)
    obtain bs where bs: "FIFOMessage_Marshal ?m = Some bs"
        "FIFO_app_callback peer bs = Inr (map (Pair peer) (payloads (unat c) ?d))"
      using FIFO_app_callback_message [of ?m peer] nonzero_payloads [of "unat c" ?d peer] Suc.prems(1) assms(1) by auto
    obtain l' c' es k where rec: "broadcast_batch num l1 (c + 8) = Inr (l', c', es, k)" "batch_size l' = batch_size l1"
        "unat c + 8 \<le> unat c'" "unat c' \<le> unat num + 8"
        "logged es = payloads ?d (min (unat c') (Suc (unat num)))"
        "deliver_all (FIFO_app_callback peer) (broadcasts es) = Inr (map (Pair peer) (logged es))" "k \<le> remaining l1"
      using Suc.hyps(1) [of l1 "c + 8"] l1(2) Suc.prems True next_c by auto
    have "broadcast_batch num l c = Inr (l', c', map LogBroadcast (payloads (unat c) ?d) @ [BroadcastMessage bs] @ es, Suc k)"
      using l1(1) True bs(1) rec(1) prepare_message_eq [OF True assms(1)]
      by (simp add: word_le_nat_alt kNumMessages_def)
    moreover have "payloads (unat c) ?d @ logged es = payloads (unat c) (min (unat c') (Suc (unat num)))"
      unfolding rec(5) using True rec(3) by (intro payloads_append) auto
    ultimately show ?thesis
      using rec l1 bs(2) True Suc.hyps(2) by (simp add: deliver_all_append flip: map_append)
  qed
qed

declare broadcast_batch.simps [simp del]

lemma broadcast_loop_run:
  assumes "unat num + 8 < 2 ^ 32" and "\<forall>b. answers b" and "0 < unat c" and "unat c \<le> unat num + 8"
    and "remaining l \<noteq> 0" and "batch_size l \<noteq> 0"
  shows "\<exists>es. broadcast_loop answers num b l c = Some (Inr es) \<and>
    logged es = payloads (min (unat c) (Suc (unat num))) (Suc (unat num)) \<and>
    deliver_all (FIFO_app_callback peer) (broadcasts es) = Inr (map (Pair peer) (logged es))"
  using assms(3-6)
proof (induction "unat num + 8 - unat c" arbitrary: b l c rule: less_induct)
  case less
  show ?case
  proof (cases "unat c \<le> unat num")
    case False
    then show ?thesis by (subst broadcast_loop.simps) (simp add: word_le_nat_alt payloads_Nil)
  next
    case True
    obtain l' c' es k where batch: "broadcast_batch num l c = Inr (l', c', es, k)" "batch_size l' = batch_size l"
        "unat c < unat c'" "unat c' \<le> unat num + 8" "k \<noteq> 0"
        "logged es = payloads (unat c) (min (unat c') (Suc (unat num)))"
        "deliver_all (FIFO_app_callback peer) (broadcasts es) = Inr (map (Pair peer) (logged es))"
      using broadcast_batch_run [OF assms(1) less.prems(1,2), of l peer] True less.prems(3) by auto
    have dec: "unat num + 8 - unat c' < unat num + 8 - unat c" using batch(3) True by linarith
    obtain es' where rest: "broadcast_loop answers num (Suc b) (Limiter_Reset l') c' = Some (Inr es')"
        "logged es' = payloads (min (unat c') (Suc (unat num))) (Suc (unat num))"
        "deliver_all (FIFO_app_callback peer) (broadcasts es') = Inr (map (Pair peer) (logged es'))"
      using less.hyps [OF dec, of "Limiter_Reset l'" "Suc b"] batch True less.prems by (auto simp: unat_0_iff)
    have "broadcast_loop answers num b l c = Some (Inr (es @ [AwaitAll k] @ es'))"
      using True batch(1,5) rest(1) assms(2) by (subst broadcast_loop.simps) (simp add: word_le_nat_alt)
    moreover have "logged es @ logged es' = payloads (unat c) (Suc (unat num))"
      unfolding batch(6) rest(2) using batch(3) True by (intro payloads_append) auto
    ultimately show ?thesis using batch(7) rest(3) True by (simp add: deliver_all_append flip: map_append)
  qed
qed
lemma RunAsBroadcaster_run:
  assumes "UniformReliableBroadcastRateLimiter n kLinkPacketLimit = Inr l"
    and "unat num + 8 < 2 ^ 32" and "\<forall>b. answers b"
  shows "\<exists>es. RunAsBroadcaster answers n num = Some (Inr es) \<and> logged es = payloads 1 (Suc (unat num)) \<and>
    deliver_all (FIFO_app_callback peer) (broadcasts es) = Inr (map (Pair peer) (payloads 1 (Suc (unat num))))"
proof -
  have "batch_size l \<noteq> 0" and "remaining l \<noteq> 0"
    using limiter_init_facts assms(1) by (auto simp: UniformReliableBroadcastRateLimiter_def unat_0_iff)
  then show ?thesis
    using broadcast_loop_run [OF assms(2,3), where c = 1 and l = l and b = 0 and peer = peer] assms(1) by (auto simp: RunAsBroadcaster_def)
qed

text \<open>The broadcaster of the FIFO application returns from its loop, as long as every
  batch of futures completes with a value and the number of messages is below \<open>2 ^ 32 - 8\<close>:
  no assertion fails, it logs the payloads \<open>1, ..., m\<close>, in order and each once, and what
  a process logs for the messages it broadcast is exactly that sequence.\<close>

lemma fifo_application_complete:
  assumes "1 < n" and "n < 2 ^ 16" and "unat num + 8 < 2 ^ 32" and "\<forall>b. answers b"
  shows "\<exists>es. RunAsBroadcaster answers (of_nat n) num = Some (Inr es) \<and>
    logged es = map of_nat [1..<Suc (unat num)] \<and>
    deliver_all (FIFO_app_callback peer) (broadcasts es) = Inr (map (\<lambda>i. (peer, of_nat i)) [1..<Suc (unat num)])"
proof -
  obtain l where l: "UniformReliableBroadcastRateLimiter (of_nat n) kLinkPacketLimit = Inr l"
    using limiter_of_network [OF assms(1,2)] by blast
  show ?thesis using RunAsBroadcaster_run [OF l assms(3,4), of peer] by (simp add: payloads_def comp_def)
qed

lemma fifo_application_complete_witness:
  "\<exists>es. RunAsBroadcaster (\<lambda>_. True) (of_nat 3) 10 = Some (Inr es) \<and>
    logged es = map of_nat [1..<11] \<and> deliver_all (FIFO_app_callback 2) (broadcasts es) = Inr (map (\<lambda>i. (2, of_nat i)) [1..<11])"
  using fifo_application_complete [of 3 10 "\<lambda>_. True" 2] by simp

section \<open>The output of the application\<close>

lemma deliver_all_prefix:
  assumes "prefix bs cs" and "deliver_all callback cs = Inr ls"
  shows "\<exists>ls'. deliver_all callback bs = Inr ls' \<and> prefix ls' ls"
proof -
  from assms(1) obtain ds where "cs = bs @ ds" by (auto simp: prefix_def)
  with assms(2) show ?thesis by (auto simp: deliver_all_append fbind_eq_Inr)
qed

lemma prefix_map_upt:
  assumes "prefix ls (map f [1..<Suc m])"
  shows "\<exists>k \<le> m. ls = map f [1..<Suc k]"
proof -
  from assms obtain k where "ls = take k (map f [1..<Suc m])"
    by (metis append_eq_conv_conj prefix_def)
  then have "ls = map f [1..<Suc (min k m)]" by (simp add: take_map take_upt min_def del: upt_Suc)
  then show ?thesis by (intro exI [of _ "min k m"]) simp
qed

lemma broadcasts_output:
  assumes "RunAsBroadcaster answers (of_nat n) num = Some (Inr es)" and "unat num + 8 < 2 ^ 32" and "\<forall>b. answers b"
  shows "deliver_all (FIFO_app_callback src) (broadcasts es) = Inr (map (\<lambda>i. (src, of_nat i)) [1..<Suc (unat num)])"
proof -
  obtain l where l: "UniformReliableBroadcastRateLimiter (of_nat n) kLinkPacketLimit = Inr l"
    using assms(1) by (auto simp: RunAsBroadcaster_def split: sum.splits)
  show ?thesis
    using RunAsBroadcaster_run [OF l assms(2,3), of src] assms(1) by (auto simp: payloads_def comp_def simp del: upt_Suc)
qed

lemma broadcast_prefix_output:
  assumes "RunAsBroadcaster answers (of_nat n) num = Some (Inr es)" and "prefix bs (broadcasts es)"
    and "unat num + 8 < 2 ^ 32" and "\<forall>b. answers b"
  shows "\<exists>k \<le> unat num. deliver_all (FIFO_app_callback src) bs = Inr (map (\<lambda>i. (src, of_nat i)) [1..<Suc k])"
  using deliver_all_prefix [OF assms(2) broadcasts_output [OF assms(1,3,4)]] prefix_map_upt by blast

text \<open>A process that is configured with two payloads.\<close>

definition app_demo_bytes :: Bytes where
  "app_demo_bytes = [1, 0, 0, 0, 2, 0, 0, 0] @ replicate 24 0"

definition app_demo_effects :: "app_effect list" where
  "app_demo_effects = [LogBroadcast 1, LogBroadcast 2, BroadcastMessage app_demo_bytes, AwaitAll 1]"

lemma app_demo_run: "RunAsBroadcaster (\<lambda>_. True) (of_nat 2) 2 = Some (Inr app_demo_effects)"
  by code_simp

end
