(* ===== verification/Lattice_Application.thy ===== *)
theory Lattice_Application
  imports Application_Common Rate_Limiter Parser Lattice_Agreement
begin

text \<open>
  The lattice agreement application (\<open>include/applications/lattice_agreement.hpp\<close>): reading
  the proposals, proposing them eight rounds per message in batches bounded by the rate
  limiter, and writing the decisions in the order of the rounds.
\<close>

section \<open>Configuration and input\<close>

record LAConfig =
  num_proposals :: u32
  max_num_elements_in_proposal :: u32
  max_num_distinct_elements :: u32

text \<open>
  The header is read with \<open>operator>>\<close>, which also crosses line ends; the rest of the
  line of the third number is skipped. The result is the configuration and the lines that follow.
\<close>

definition ParseConfigHeader :: "string \<Rightarrow> (LAConfig \<times> string list) option" where
  "ParseConfigHeader input =
     do { (n, s) \<leftarrow> extract_unsigned 32 input;
          (m, s) \<leftarrow> extract_unsigned 32 s;
          (d, s) \<leftarrow> extract_unsigned 32 s;
          Some (\<lparr>num_proposals = of_nat n, max_num_elements_in_proposal = of_nat m,
                 max_num_distinct_elements = of_nat d\<rparr>,
                getlines (drop 1 (dropWhile (\<lambda>c. c \<noteq> CHR 0x0A) s))) }"

definition LA_GetRuntimeConfig :: RuntimeConfig where
  "LA_GetRuntimeConfig = runtime_config 50"

text \<open>Numbers are read until an extraction fails, at the end of the line at the latest.\<close>

lemma extract_sign_length: "extract_sign s = (neg, t) \<Longrightarrow> length t \<le> length s"
  by (cases s) (auto simp: extract_sign_def split: if_splits)

lemma extract_unsigned_shorter: "extract_unsigned w s = Some (v, rest) \<Longrightarrow> length rest < length s"
proof -
  assume ex: "extract_unsigned w s = Some (v, rest)"
  obtain neg t where t: "extract_sign (dropWhile isspace s) = (neg, t)" by fastforce
  with ex have ds: "takeWhile isdigit t \<noteq> []" "rest = dropWhile isdigit t"
    by (auto simp: extract_unsigned_def Let_def split: if_splits)
  have "length (takeWhile isdigit t) + length (dropWhile isdigit t) = length t"
    by (metis length_append takeWhile_dropWhile_id)
  moreover have "length t \<le> length (dropWhile isspace s)"
    using t by (rule extract_sign_length)
  moreover have "length (dropWhile isspace s) \<le> length s" by (rule length_dropWhile_le)
  ultimately show "length rest < length s" using ds by (cases "takeWhile isdigit t") auto
qed

function read_values :: "string \<Rightarrow> ProposalT" where
  "read_values s = (case extract_unsigned 32 s of None \<Rightarrow> [] | Some (v, rest) \<Rightarrow> of_nat v # read_values rest)"
  by pat_completeness auto
termination by (relation "measure length") (auto dest: extract_unsigned_shorter)

declare read_values.simps [simp del]

text \<open>A failing \<open>getline\<close> leaves an empty line.\<close>

definition ReadProposalFromInput :: "string list \<Rightarrow> ProposalT \<times> string list" where
  "ReadProposalFromInput lines =
     (case lines of [] \<Rightarrow> (read_values [], []) | line # rest \<Rightarrow> (read_values line, rest))"

section \<open>Proposing\<close>

lemma Propose_rounds_length: "Propose_rounds r ps la = Inr (la', fs) \<Longrightarrow> length fs = length ps"
  by (induction r ps la arbitrary: la' fs rule: Propose_rounds.induct) (auto simp: fbind_eq_Inr)

definition kMaxNumProposalsInMessage :: nat where "kMaxNumProposalsInMessage = 8"

fun read_proposals :: "nat \<Rightarrow> u32 \<Rightarrow> u32 \<Rightarrow> u32 \<Rightarrow> string list \<Rightarrow> Proposal list \<times> string list" where
  "read_proposals 0 current_round proposal_idx num lines = ([], lines)"
| "read_proposals (Suc k) current_round proposal_idx num lines =
     (if current_round + proposal_idx < num then
        let (v, lines) = ReadProposalFromInput lines;
            (ps, lines) = read_proposals k current_round (proposal_idx + 1) num lines
        in (\<lparr>proposed_value = v, active_proposal_number = 0\<rparr> # ps, lines)
      else ([], lines))"

text \<open>
  The inner loop: the messages it proposes, in order. \<open>Propose\<close> returns one future per
  proposal (lemma \<open>Propose_rounds_length\<close>), so the round advances by their number.
\<close>

function propose_batch ::
    "u32 \<Rightarrow> RateLimiter \<Rightarrow> u32 \<Rightarrow> string list \<Rightarrow> RateLimiter \<times> u32 \<times> string list \<times> ProposalMessage list" where
  "propose_batch num l current_round lines =
     (let (fired, l') = Fire l in
      if fired \<and> current_round < num then
        let (ps, lines) = read_proposals kMaxNumProposalsInMessage current_round 0 num lines;
            message = \<lparr>pm_first_round_id = current_round, proposals = ps\<rparr>;
            (l', current_round, lines, ms) = propose_batch num l' (current_round + of_nat (length ps)) lines
        in (l', current_round, lines, message # ms)
      else (l', current_round, lines, []))"
  by pat_completeness auto
termination
proof (relation "measure (\<lambda>(n, l, c, ls). remaining l)")
  fix num current_round :: u32 and l l' :: RateLimiter and lines ls fired x y ps
  assume "x = Fire l" and "(fired, l') = x" and "fired \<and> current_round < num"
  then have "Fire l = (True, l')" by auto
  then have "remaining l \<noteq> 0" using Fire_remaining_0 [of l] by auto
  with Fire_remaining [of l] \<open>Fire l = (True, l')\<close>
  show "((num, l', current_round + of_nat (length ps), ls), (num, l, current_round, lines))
      \<in> measure (\<lambda>(n, l, c, ls). remaining l)" by auto
qed simp

declare propose_batch.simps [simp del]

text \<open>
  The outer loop: the messages of all batches. \<open>All\<close> asserts that there is a future, and
  the loop asserts that the combined future has a value.
\<close>

partial_function (option) propose_loop ::
    "(nat \<Rightarrow> bool) \<Rightarrow> u32 \<Rightarrow> nat \<Rightarrow> RateLimiter \<Rightarrow> u32 \<Rightarrow> string list \<Rightarrow> (fault + ProposalMessage list) option" where
  "propose_loop answers num batch l current_round lines =
     (if current_round < num then
        case propose_batch num l current_round lines of
          (l, current_round, lines, ms) \<Rightarrow>
            if concat (map proposals ms) = [] \<or> \<not> answers batch then Some (Inl AssertFailed)
            else Option.bind (propose_loop answers num (Suc batch) (Limiter_Reset l) current_round lines)
                   (\<lambda>r. Some (fbind r (\<lambda>ms'. Inr (ms @ ms'))))
      else Some (Inr []))"

definition RunAsProposerAndAcceptor ::
    "(nat \<Rightarrow> bool) \<Rightarrow> u64 \<Rightarrow> u32 \<Rightarrow> string list \<Rightarrow> (fault + ProposalMessage list) option" where
  "RunAsProposerAndAcceptor answers network_size num lines =
     (case LatticeAgreementRateLimiter network_size 18000 of
        Inl e \<Rightarrow> Some (Inl e)
      | Inr l \<Rightarrow> propose_loop answers num 0 l 0 lines)"

section \<open>Writing decisions\<close>

text \<open>The cache of the decisions that arrived early, as the list of its entries.\<close>

type_synonym decision_cache = "(RoundID \<times> ProposalT) list"

record decision_log =
  dl_next_round_to_log :: RoundID
  dl_out_of_order_cache :: decision_cache
  dl_output :: "ProposalT list"

definition cache_erase :: "RoundID \<Rightarrow> decision_cache \<Rightarrow> decision_cache" where
  "cache_erase round c = filter (\<lambda>e. fst e \<noteq> round) c"

definition cache_assign :: "RoundID \<Rightarrow> ProposalT \<Rightarrow> decision_cache \<Rightarrow> decision_cache" where
  "cache_assign round v c = (round, v) # cache_erase round c"

definition WriteProposalToOutput :: "ProposalT \<Rightarrow> decision_log \<Rightarrow> decision_log" where
  "WriteProposalToOutput v d = d\<lparr>dl_output := dl_output d @ [v]\<rparr>"

function write_cached :: "decision_log \<Rightarrow> decision_log" where
  "write_cached d =
     (case map_of (dl_out_of_order_cache d) (dl_next_round_to_log d) of
        None \<Rightarrow> d
      | Some v \<Rightarrow>
          let round = dl_next_round_to_log d;
              d = WriteProposalToOutput v (d\<lparr>dl_next_round_to_log := round + 1\<rparr>)
          in write_cached (d\<lparr>dl_out_of_order_cache := cache_erase round (dl_out_of_order_cache d)\<rparr>))"
  by pat_completeness auto
termination
proof (relation "measure (\<lambda>d. length (dl_out_of_order_cache d))")
  fix d d' :: decision_log and v round
  assume v: "map_of (dl_out_of_order_cache d) (dl_next_round_to_log d) = Some v"
    and r: "round = dl_next_round_to_log d"
    and d': "d' = WriteProposalToOutput v (d\<lparr>dl_next_round_to_log := round + 1\<rparr>)"
  have "(round, v) \<in> set (dl_out_of_order_cache d)" using map_of_SomeD [OF v] r by simp
  then have "length (cache_erase round (dl_out_of_order_cache d)) < length (dl_out_of_order_cache d)"
    unfolding cache_erase_def by (rule length_filter_less) simp
  then show "(d'\<lparr>dl_out_of_order_cache := cache_erase round (dl_out_of_order_cache d')\<rparr>, d)
      \<in> measure (\<lambda>d. length (dl_out_of_order_cache d))"
    by (simp add: d' WriteProposalToOutput_def)
qed simp

declare write_cached.simps [simp del]

definition LA_app_callback :: "RoundID \<Rightarrow> ProposalT \<Rightarrow> decision_log \<Rightarrow> decision_log" where
  "LA_app_callback round decided_set d =
     (if round \<noteq> dl_next_round_to_log d then
        d\<lparr>dl_out_of_order_cache := cache_assign round decided_set (dl_out_of_order_cache d)\<rparr>
      else
        let d = WriteProposalToOutput decided_set (d\<lparr>dl_next_round_to_log := dl_next_round_to_log d + 1\<rparr>)
        in if dl_out_of_order_cache d = [] then d else write_cached d)"

definition decision_log_init :: decision_log where
  "decision_log_init = \<lparr>dl_next_round_to_log = 0, dl_out_of_order_cache = [], dl_output = []\<rparr>"

section \<open>Decisions are written in order\<close>

text \<open>The decisions \<open>ds\<close> have arrived, in some order of the rounds.\<close>

definition dl_inv :: "(RoundID \<times> ProposalT) list \<Rightarrow> decision_log \<Rightarrow> bool" where
  "dl_inv ds d \<longleftrightarrow>
     length (dl_output d) = unat (dl_next_round_to_log d) \<and>
     (\<forall>i < unat (dl_next_round_to_log d). map_of ds (of_nat i) = Some (dl_output d ! i)) \<and>
     (\<forall>r. map_of (dl_out_of_order_cache d) r = (if unat r < unat (dl_next_round_to_log d) then None else map_of ds r))"

lemma map_of_cache_erase: "map_of (cache_erase r c) x = (if x = r then None else map_of c x)"
  by (induction c) (auto simp: cache_erase_def)

lemma map_of_cache_assign: "map_of (cache_assign r v c) x = (if x = r then Some v else map_of c x)"
  by (simp add: cache_assign_def map_of_cache_erase)

lemma unat_less_Suc: "unat (n :: u32) + 1 < 2 ^ 32 \<Longrightarrow> unat r < unat (n + 1) \<longleftrightarrow> unat r < unat n \<or> r = n"
  by (auto simp: unat_add_one_u32 less_Suc_eq word_unat_eq_iff)

text \<open>Writing the decision of the round that is due.\<close>

lemma dl_inv_write:
  assumes inv: "dl_inv ds d" and v: "map_of ds (dl_next_round_to_log d) = Some v"
    and small: "unat (dl_next_round_to_log d) + 1 < 2 ^ 32"
    and e: "dl_next_round_to_log e = dl_next_round_to_log d + 1" "dl_output e = dl_output d @ [v]"
      "\<And>r. map_of (dl_out_of_order_cache e) r = (if r = dl_next_round_to_log d then None else map_of (dl_out_of_order_cache d) r)"
  shows "dl_inv ds e"
proof -
  let ?n = "dl_next_round_to_log d"
  have next_e: "unat (dl_next_round_to_log e) = Suc (unat ?n)" using small e(1) by (simp add: unat_add_one_u32)
  have len: "length (dl_output d) = unat ?n" using inv by (simp add: dl_inv_def)
  have "map_of ds (of_nat i) = Some (dl_output e ! i)" if "i < Suc (unat ?n)" for i
    using that inv len e(2) v by (cases "i = unat ?n") (auto simp: dl_inv_def nth_append)
  moreover have "map_of (dl_out_of_order_cache e) r = (if unat r < unat (dl_next_round_to_log e) then None else map_of ds r)" for r
    using inv e(3) [of r] unat_less_Suc [OF small, of r] e(1) by (auto simp: dl_inv_def)
  ultimately show ?thesis using next_e len e(2) by (simp add: dl_inv_def)
qed

lemma write_cached_inv:
  assumes "dl_inv ds d" and "\<forall>r v. map_of ds r = Some v \<longrightarrow> unat r + 1 < 2 ^ 32"
  shows "dl_inv ds (write_cached d) \<and> map_of ds (dl_next_round_to_log (write_cached d)) = None"
  using assms(1)
proof (induction d rule: write_cached.induct)
  case (1 d)
  let ?n = "dl_next_round_to_log d"
  have cache: "map_of (dl_out_of_order_cache d) ?n = map_of ds ?n" using "1.prems" by (simp add: dl_inv_def)
  show ?case
  proof (cases "map_of ds ?n")
    case None
    then show ?thesis using "1.prems" cache by (simp add: write_cached.simps [of d])
  next
    case (Some v)
    let ?e = "(WriteProposalToOutput v (d\<lparr>dl_next_round_to_log := ?n + 1\<rparr>))
      \<lparr>dl_out_of_order_cache := cache_erase ?n (dl_out_of_order_cache d)\<rparr>"
    have "dl_inv ds ?e"
      using "1.prems" Some assms(2) by (intro dl_inv_write [OF "1.prems" Some])
        (auto simp: WriteProposalToOutput_def map_of_cache_erase)
    moreover have "write_cached d = write_cached ?e"
      using Some cache by (subst write_cached.simps) (simp add: Let_def WriteProposalToOutput_def)
    ultimately show ?thesis
      using "1.IH" [of v ?n] Some cache by (simp add: WriteProposalToOutput_def)
  qed
qed

lemma LA_app_callback_inv:
  assumes inv: "dl_inv ds d" and due: "map_of ds (dl_next_round_to_log d) = None"
    and fresh: "map_of ds round = None"
    and small: "\<forall>r v. map_of ((round, v0) # ds) r = Some v \<longrightarrow> unat r + 1 < 2 ^ 32"
  shows "dl_inv ((round, v0) # ds) (LA_app_callback round v0 d) \<and>
    map_of ((round, v0) # ds) (dl_next_round_to_log (LA_app_callback round v0 d)) = None"
proof (cases "round = dl_next_round_to_log d")
  case False
  have "unat (dl_next_round_to_log d) \<le> unat round"
  proof (rule ccontr)
    assume "\<not> unat (dl_next_round_to_log d) \<le> unat round"
    then have "unat round < unat (dl_next_round_to_log d)" by simp
    then have "map_of ds (of_nat (unat round)) = Some (dl_output d ! unat round)"
      using inv unfolding dl_inv_def by blast
    with fresh show False by simp
  qed
  moreover have "round \<noteq> of_nat i" if "i < unat (dl_next_round_to_log d)" for i
  proof -
    have "map_of ds (of_nat i) \<noteq> None" using inv that by (simp add: dl_inv_def)
    with fresh show ?thesis by auto
  qed
  ultimately show ?thesis
    using inv due False by (auto simp: dl_inv_def LA_app_callback_def map_of_cache_assign)
next
  case True
  let ?ds = "(round, v0) # ds"
  have "dl_inv ?ds (d\<lparr>dl_out_of_order_cache := cache_assign round v0 (dl_out_of_order_cache d)\<rparr>)"
  proof -
    have "of_nat i \<noteq> round" if "i < unat round" for i
      using that inv fresh True by (auto simp: dl_inv_def)
    then show ?thesis using inv True by (auto simp: dl_inv_def map_of_cache_assign)
  qed
  then have inv': "dl_inv ?ds (WriteProposalToOutput v0 (d\<lparr>dl_next_round_to_log := dl_next_round_to_log d + 1\<rparr>))"
  proof (rule dl_inv_write [where v = v0])
    show "map_of (dl_out_of_order_cache (WriteProposalToOutput v0 (d\<lparr>dl_next_round_to_log := dl_next_round_to_log d + 1\<rparr>))) r =
      (if r = dl_next_round_to_log (d\<lparr>dl_out_of_order_cache := cache_assign round v0 (dl_out_of_order_cache d)\<rparr>) then None
       else map_of (dl_out_of_order_cache (d\<lparr>dl_out_of_order_cache := cache_assign round v0 (dl_out_of_order_cache d)\<rparr>)) r)" for r
      using inv due True by (auto simp: dl_inv_def WriteProposalToOutput_def map_of_cache_assign)
  qed (use True small in \<open>auto simp: WriteProposalToOutput_def\<close>)
  have "write_cached e = e" if "dl_out_of_order_cache e = []" for e
    using that by (simp add: write_cached.simps [of e])
  then have "LA_app_callback round v0 d =
      write_cached (WriteProposalToOutput v0 (d\<lparr>dl_next_round_to_log := dl_next_round_to_log d + 1\<rparr>))"
    using True by (simp add: LA_app_callback_def Let_def)
  with write_cached_inv [OF inv' small] show ?thesis by simp
qed
definition LA_app_run :: "(RoundID \<times> ProposalT) list \<Rightarrow> decision_log" where
  "LA_app_run ds = foldr (\<lambda>(round, v) d. LA_app_callback round v d) ds decision_log_init"

lemma LA_app_run_inv:
  assumes "distinct (map fst ds)" and "\<forall>r\<in>set (map fst ds). unat r + 1 < 2 ^ 32"
  shows "dl_inv ds (LA_app_run ds) \<and> map_of ds (dl_next_round_to_log (LA_app_run ds)) = None"
  using assms
proof (induction ds)
  case Nil
  then show ?case by (simp add: dl_inv_def LA_app_run_def decision_log_init_def)
next
  case (Cons e ds)
  obtain round v0 where e: "e = (round, v0)" by (cases e)
  have IH: "dl_inv ds (LA_app_run ds)" "map_of ds (dl_next_round_to_log (LA_app_run ds)) = None"
    using Cons by auto
  have fresh: "map_of ds round = None" using Cons.prems(1) e by (simp add: map_of_eq_None_iff)
  have small: "\<forall>r v. map_of ((round, v0) # ds) r = Some v \<longrightarrow> unat r + 1 < 2 ^ 32"
  proof (intro allI impI)
    fix r v assume "map_of ((round, v0) # ds) r = Some v"
    then have "r \<in> set (map fst (e # ds))" using e by (auto simp: rev_image_eqI dest!: map_of_SomeD split: if_splits)
    with Cons.prems(2) show "unat r + 1 < 2 ^ 32" by blast
  qed
  have "LA_app_run (e # ds) = LA_app_callback round v0 (LA_app_run ds)" by (simp add: LA_app_run_def e)
  with LA_app_callback_inv [OF IH fresh small] e show ?case by simp
qed

text \<open>Whatever the order in which the decisions of different rounds arrive, the
  application has written exactly the decisions of the rounds \<open>0, ..., k - 1\<close>, one per
  line and in this order, where \<open>k\<close> is the first round that is not decided yet. (The list
  has the latest decision first; rounds stay below the number of proposals.)\<close>

lemma decisions_written_in_order:
  assumes "distinct (map fst ds)" and "\<forall>r\<in>set (map fst ds). r < num" and "LA_app_run ds = d"
  shows "(\<forall>i < length (dl_output d). map_of ds (of_nat i) = Some (dl_output d ! i)) \<and>
    map_of ds (of_nat (length (dl_output d))) = None"
proof -
  have "unat r + 1 < 2 ^ 32" if "r \<in> set (map fst ds)" for r
  proof -
    have "unat r < unat num" using assms(2) that by (auto simp: word_less_nat_alt)
    moreover have "unat num < 2 ^ 32" using unat_u32_bound [of num] by simp
    ultimately show ?thesis by linarith
  qed
  then show ?thesis using LA_app_run_inv [OF assms(1)] assms(3) by (auto simp: dl_inv_def)
qed

lemma decisions_written_in_order_witness:
  "dl_output (LA_app_run [(0, [7]), (3, [9]), (1, [8])]) ! 1 = [8 :: u32] \<and>
   length (dl_output (LA_app_run [(0, [7]), (3, [9]), (1, [8])])) = 2"
proof -
  let ?ds = "[(0, [7]), (3, [9]), (1, [8])] :: (RoundID \<times> ProposalT) list"
  have out: "dl_output (LA_app_run ?ds) = [[7], [8]]"
    by (simp add: LA_app_run_def LA_app_callback_def decision_log_init_def cache_assign_def cache_erase_def
        WriteProposalToOutput_def write_cached.simps)
  have "map_of ?ds (of_nat 1) = Some (dl_output (LA_app_run ?ds) ! 1)"
    using decisions_written_in_order [of ?ds 4 "LA_app_run ?ds"] out by simp
  then show ?thesis using out by simp
qed

section \<open>All proposals are proposed\<close>

fun read_many :: "nat \<Rightarrow> string list \<Rightarrow> ProposalT list \<times> string list" where
  "read_many 0 lines = ([], lines)"
| "read_many (Suc n) lines =
     (let (v, lines) = ReadProposalFromInput lines; (vs, lines) = read_many n lines in (v # vs, lines))"

lemma read_many_length: "length (fst (read_many n lines)) = n"
  by (induction n arbitrary: lines) (auto split: prod.splits, metis fst_conv)

lemma read_many_add:
  "read_many (a + b) lines =
     (let (vs, lines) = read_many a lines; (ws, lines) = read_many b lines in (vs @ ws, lines))"
  by (induction a arbitrary: lines) (auto split: prod.splits)

definition fresh_proposal :: "ProposalT \<Rightarrow> Proposal" where
  "fresh_proposal v = \<lparr>proposed_value = v, active_proposal_number = 0\<rparr>"

lemma read_proposals_eq:
  "unat c + unat i + k < 2 ^ 32 \<Longrightarrow> read_proposals k c i num lines =
     (let (vs, lines) = read_many (min k (unat num - (unat c + unat i))) lines in (map fresh_proposal vs, lines))"
proof (induction k arbitrary: i lines)
  case (Suc k)
  have sum: "unat (c + i) = unat c + unat i" using Suc.prems by (simp add: unat_word_ariths)
  have inc: "unat (i + 1) = unat i + 1" using Suc.prems by (simp add: unat_word_ariths)
  show ?case
  proof (cases "unat c + unat i < unat num")
    case True
    then have "min (Suc k) (unat num - (unat c + unat i)) = Suc (min k (unat num - (unat c + unat (i + 1))))"
      using inc by auto
    with True Suc.IH [of "i + 1"] Suc.prems inc show ?thesis
      by (simp add: word_less_nat_alt sum fresh_proposal_def split: prod.splits)
  next
    case False
    then show ?thesis by (simp add: word_less_nat_alt sum)
  qed
qed simp

text \<open>The rounds of a message and the values proposed in them.\<close>

definition message_rounds :: "ProposalMessage \<Rightarrow> nat list" where
  "message_rounds m = [unat (pm_first_round_id m)..<unat (pm_first_round_id m) + length (proposals m)]"

definition message_values :: "ProposalMessage \<Rightarrow> ProposalT list" where
  "message_values m = map proposed_value (proposals m)"

lemma proposed_value_fresh [simp]: "proposed_value \<circ> fresh_proposal = id"
  by (simp add: fresh_proposal_def comp_def id_def)

text \<open>One message, prepared in round \<open>c\<close>.\<close>

lemma read_message:
  assumes "unat num + 8 < 2 ^ 32" and "unat c < unat num"
    and "read_proposals kMaxNumProposalsInMessage c 0 num lines = (ps, lines')"
  shows "\<exists>vs. read_many (min 8 (unat num - unat c)) lines = (vs, lines') \<and> map proposed_value ps = vs \<and>
    length ps = min 8 (unat num - unat c)"
  using assms(3) read_proposals_eq [of c 0 8 num lines] assms(1,2) read_many_length [of "min 8 (unat num - unat c)" lines]
  by (auto simp: kMaxNumProposalsInMessage_def split: prod.splits)

lemma propose_batch_run:
  assumes "unat num + 8 < 2 ^ 32" and "unat c \<le> unat num"
  shows "\<exists>l' c' lines' ms. propose_batch num l c lines = (l', c', lines', ms) \<and> batch_size l' = batch_size l \<and>
    unat c \<le> unat c' \<and> unat c' \<le> unat num \<and> concat (map message_rounds ms) = [unat c..<unat c'] \<and>
    read_many (unat c' - unat c) lines = (concat (map message_values ms), lines') \<and>
    (\<forall>m\<in>set ms. 1 \<le> length (proposals m) \<and> length (proposals m) \<le> 8) \<and>
    (remaining l \<noteq> 0 \<and> unat c < unat num \<longrightarrow> ms \<noteq> [] \<and> unat c < unat c')"
  using assms(2)
proof (induction "remaining l" arbitrary: l c lines)
  case 0
  then show ?case by (simp add: propose_batch.simps [of num l] Fire_remaining_0)
next
  case (Suc r)
  obtain l1 where l1: "Fire l = (True, l1)" "remaining l1 = r" "batch_size l1 = batch_size l"
    using Fire_remaining [of l] Suc.hyps(2) by (metis diff_Suc_1 nat.simps(3))
  show ?case
  proof (cases "unat c < unat num")
    case False
    then show ?thesis using l1 Suc.prems by (simp add: propose_batch.simps [of num l] word_less_nat_alt)
  next
    case True
    obtain ps lines1 where ps: "read_proposals kMaxNumProposalsInMessage c 0 num lines = (ps, lines1)" by fastforce
    let ?k = "min 8 (unat num - unat c)"
    from read_message [OF assms(1) True ps]
    have msg: "read_many ?k lines = (map proposed_value ps, lines1)" "length ps = ?k" by auto
    have next_c: "unat (c + of_nat (length ps)) = unat c + ?k"
      using msg(2) True assms(1) by (simp add: unat_word_ariths unat_of_nat)
    obtain l' c' lines' ms where rec: "propose_batch num l1 (c + of_nat (length ps)) lines1 = (l', c', lines', ms)"
        "batch_size l' = batch_size l1" "unat c + ?k \<le> unat c'" "unat c' \<le> unat num"
        "concat (map message_rounds ms) = [unat c + ?k..<unat c']"
        "read_many (unat c' - (unat c + ?k)) lines1 = (concat (map message_values ms), lines')"
        "\<forall>m\<in>set ms. 1 \<le> length (proposals m) \<and> length (proposals m) \<le> 8"
    proof -
      have le: "unat (c + of_nat (length ps)) \<le> unat num" using next_c True by simp
      from Suc.hyps(1) [OF l1(2) [symmetric] le, of lines1] show ?thesis using that unfolding next_c by blast
    qed
    let ?m = "\<lparr>pm_first_round_id = c, proposals = ps\<rparr>"
    have run: "propose_batch num l c lines = (l', c', lines', ?m # ms)"
      using l1(1) True ps rec(1) by (simp add: propose_batch.simps [of num l] word_less_nat_alt)
    have "concat (map message_rounds (?m # ms)) = [unat c..<unat c']"
      using rec(3,5) msg(2) upt_add_eq_append [of "unat c" "unat c + ?k" "unat c' - (unat c + ?k)"]
      by (simp add: message_rounds_def)
    moreover have "read_many (unat c' - unat c) lines = (concat (map message_values (?m # ms)), lines')"
      using read_many_add [of ?k "unat c' - (unat c + ?k)" lines] msg(1) rec(3,6) by (simp add: message_values_def)
    ultimately show ?thesis using run rec l1(3) msg(2) True by auto
  qed
qed
lemma propose_loop_run:
  assumes "unat num + 8 < 2 ^ 32" and "\<forall>b. answers b" and "unat c \<le> unat num"
    and "remaining l \<noteq> 0" and "batch_size l \<noteq> 0"
  shows "\<exists>ms. propose_loop answers num b l c lines = Some (Inr ms) \<and>
    concat (map message_rounds ms) = [unat c..<unat num] \<and>
    concat (map message_values ms) = fst (read_many (unat num - unat c) lines) \<and>
    (\<forall>m\<in>set ms. 1 \<le> length (proposals m) \<and> length (proposals m) \<le> 8)"
  using assms(3-5)
proof (induction "unat num - unat c" arbitrary: b l c lines rule: less_induct)
  case less
  show ?case
  proof (cases "unat c < unat num")
    case False
    then show ?thesis using less.prems(1) by (subst propose_loop.simps) (simp add: word_less_nat_alt)
  next
    case True
    obtain l' c' lines' ms where batch: "propose_batch num l c lines = (l', c', lines', ms)" "batch_size l' = batch_size l"
        "unat c < unat c'" "unat c' \<le> unat num" "concat (map message_rounds ms) = [unat c..<unat c']"
        "read_many (unat c' - unat c) lines = (concat (map message_values ms), lines')"
        "\<forall>m\<in>set ms. 1 \<le> length (proposals m) \<and> length (proposals m) \<le> 8" "ms \<noteq> []"
      using propose_batch_run [OF assms(1) less.prems(1), of l lines] True less.prems(2) by auto
    have dec: "unat num - unat c' < unat num - unat c" using batch(3,4) by linarith
    have "remaining (Limiter_Reset l') \<noteq> 0" using less.prems(3) batch(2) by (simp add: unat_0_iff)
    from less.hyps [OF dec batch(4) this, of "Suc b" lines'] less.prems(3) batch(2)
    obtain ms' where rest: "propose_loop answers num (Suc b) (Limiter_Reset l') c' lines' = Some (Inr ms')"
        "concat (map message_rounds ms') = [unat c'..<unat num]"
        "concat (map message_values ms') = fst (read_many (unat num - unat c') lines')"
        "\<forall>m\<in>set ms'. 1 \<le> length (proposals m) \<and> length (proposals m) \<le> 8" by auto
    have "concat (map proposals ms) \<noteq> []" using batch(7,8) by (cases ms) auto
    then have "propose_loop answers num b l c lines = Some (Inr (ms @ ms'))"
      using True batch(1) rest(1) assms(2) by (subst propose_loop.simps) (simp add: word_less_nat_alt)
    moreover have "concat (map message_rounds (ms @ ms')) = [unat c..<unat num]"
      using batch(3-5) rest(2) upt_add_eq_append [of "unat c" "unat c'" "unat num - unat c'"] by simp
    moreover have "concat (map message_values (ms @ ms')) = fst (read_many (unat num - unat c) lines)"
      using read_many_add [of "unat c' - unat c" "unat num - unat c'" lines] batch(3,4,6) rest(3)
      by (auto split: prod.splits)
    ultimately show ?thesis using batch(7) rest(4) by auto
  qed
qed


end
