(* ===== verification/End_To_End.thy ===== *)
theory End_To_End
  imports FIFO_Stack Lattice_Stack FIFO_Application Lattice_Application
begin

text \<open>
  From the configuration of an application to the lines of its output: the loops and callbacks
  of the applications on top of the protocols, their messages as bytes, the transports and a
  network that loses, duplicates and reorders datagrams.
\<close>

section \<open>FIFO broadcast\<close>

text \<open>C18. End to end: when a process has handed the first messages of its run to FIFO
  broadcast, the lines that any process has logged for it are \<open>d src 1, ..., d src k\<close> for
  some \<open>k\<close> up to the configured number of messages: in order, without gaps, repetitions
  or invented payloads, however datagrams are lost, duplicated and reordered.\<close>

theorem fifo_output:
  assumes "st_reach (fifo_invoke P) fifo_handle (fifo_start hosts) st" and "urb_network P hosts" and "p \<in> P"
    and "RunAsBroadcaster answers (of_nat n) num = Some (Inr es)" and "prefix (snd (st_nodes st src)) (broadcasts es)"
    and "unat num + 8 < 2 ^ 32" and "\<forall>b. answers b"
  shows "\<exists>k \<le> unat num. deliver_all (FIFO_app_callback src) (delivered_from (st_log st) p src) =
    Inr (map (\<lambda>i. (src, of_nat i)) [1..<Suc k])"
proof -
  have "prefix (delivered_from (st_log st) p src) (snd (st_nodes st src))" using assms(1-3) by (rule fifo_stack_prefix)
  then have "prefix (delivered_from (st_log st) p src) (broadcasts es)" using assms(5) by (rule prefix_order.trans)
  with assms(4) show ?thesis using assms(6,7) by (rule broadcast_prefix_output)
qed

theorem fifo_output_witness:
  "\<exists>k \<le> unat (2 :: u32). deliver_all (FIFO_app_callback 1) (delivered_from (st_log (stack_demo app_demo_bytes)) 2 1) =
    Inr (map (\<lambda>i. (1, of_nat i)) [1..<Suc k])"
proof (rule fifo_output [OF stack_demo_reach stack_demo_network _ app_demo_run])
  show "prefix (snd (st_nodes (stack_demo app_demo_bytes) 1)) (broadcasts app_demo_effects)"
    by (simp add: stack_demo_outcome app_demo_effects_def)
qed simp_all

text \<open>C20. Nothing is lost: when a process has handed all messages of its run to FIFO broadcast and a
  majority of processes with it has no message to each other on its way any more, every process
  of the majority has logged \<open>d src 1, ..., d src m\<close> for all \<open>m\<close> configured messages, whatever
  happened to the other processes.\<close>

theorem fifo_output_complete:
  assumes "st_reach (fifo_invoke P) fifo_handle (fifo_start hosts) st" and "urb_network P hosts"
    and "majority_of P C" and "src \<in> C" and "p \<in> C" and "\<forall>q r b. (q, r, b) \<in># st_net st \<longrightarrow> \<not> (q \<in> C \<and> r \<in> C)"
    and "RunAsBroadcaster answers (of_nat n) num = Some (Inr es)" and "snd (st_nodes st src) = broadcasts es"
    and "unat num + 8 < 2 ^ 32" and "\<forall>b. answers b"
  shows "deliver_all (FIFO_app_callback src) (delivered_from (st_log st) p src) =
    Inr (map (\<lambda>i. (src, of_nat i)) [1..<Suc (unat num)])"
proof -
  obtain \<sigma> where \<sigma>: "fs_reach 0 P hosts \<sigma>" and rel: "fifo_rel (st_nodes st) (st_net st) (st_log st) \<sigma>"
    using fifo_wire.stack_follows [OF assms(1)] by blast
  have "\<not> (q \<in> C \<and> r \<in> C)" if "(q, r, m) \<in># fs_net \<sigma>" for q r m
  proof -
    have "on_wire (q, r, m) \<in># st_net st" using that rel by (auto simp: fifo_rel_def)
    then show ?thesis using assms(6) by (auto simp: on_wire_def)
  qed
  then have "fs_out \<sigma> p src = fs_sent \<sigma> src"
    using fifo_validity [OF \<sigma> assms(2-5)] by blast
  then have "delivered_from (st_log st) p src = broadcasts es" using rel assms(8) by (simp add: fifo_rel_def)
  then show ?thesis using broadcasts_output [OF assms(7,9,10)] by simp
qed

theorem fifo_output_complete_witness:
  "deliver_all (FIFO_app_callback 1) (delivered_from (st_log (stack_demo_done app_demo_bytes)) 2 1) =
    Inr (map (\<lambda>i. (1, of_nat i)) [1..<Suc (unat (2 :: u32))])"
proof (rule fifo_output_complete [OF stack_demo_done_reach stack_demo_network _ _ _ _ app_demo_run])
  show "majority_of {1, 2} {1, 2 :: PeerID}" by (simp add: majority_of_def)
  show "snd (st_nodes (stack_demo_done app_demo_bytes) 1) = broadcasts app_demo_effects"
    by (simp add: stack_demo_done_outcome app_demo_effects_def)
qed (simp_all add: stack_demo_done_quiet)

section \<open>Lattice agreement\<close>

text \<open>The decisions reported to the application of \<open>p\<close>, the latest first, and what it has written.\<close>

definition reported :: "PeerID \<Rightarrow> (PeerID \<times> RoundID \<times> ProposalT) list \<Rightarrow> (RoundID \<times> ProposalT) list" where
  "reported p L = rev (map snd (filter (\<lambda>x. fst x = p) L))"

definition la_written :: "PeerID \<Rightarrow> (PeerID \<times> RoundID \<times> ProposalT) list \<Rightarrow> ProposalT list" where
  "la_written p L = dl_output (LA_app_run (reported p L))"

lemma in_reported: "(r, v) \<in> set (reported p L) \<longleftrightarrow> (p, r, v) \<in> set L"
  by (force simp: reported_def image_iff)

lemma distinct_rounds:
  assumes "\<And>r. length (filter (\<lambda>x. unat (fst x) = r) (xs :: (RoundID \<times> 'b) list)) \<le> 1"
  shows "distinct (map fst xs)"
  using assms
proof (induction xs)
  case (Cons x xs)
  have "length (filter (\<lambda>y. unat (fst y) = r) xs) \<le> 1" for r using Cons.prems [of r] by (simp split: if_splits)
  then have "distinct (map fst xs)" by (rule Cons.IH)
  moreover have "fst x \<notin> set (map fst xs)"
  proof
    assume "fst x \<in> set (map fst xs)"
    then obtain y where "y \<in> set xs" "fst y = fst x" by auto
    then have "filter (\<lambda>y. unat (fst y) = unat (fst x)) xs \<noteq> []"
      unfolding filter_empty_conv by (metis (full_types))
    then show False using Cons.prems [of "unat (fst x)"] by simp
  qed
  ultimately show ?case by simp
qed simp

lemma reported_distinct:
  assumes "ls_reach P hosts \<sigma>" and "same_network P hosts" and "p \<in> P"
  shows "distinct (map fst (reported p (ls_decisions \<sigma>)))"
proof -
  have "length (filter (\<lambda>x. unat (fst x) = r) (reported p (ls_decisions \<sigma>))) \<le> 1" for r
  proof -
    have "length (decisions_of p r \<sigma>) \<le> 1" using decided_once [OF assms, of r] by simp
    moreover have "length (filter (\<lambda>x. unat (fst x) = r) (reported p L)) =
        length (filter (\<lambda>(q, _, _). q = p) (in_round r L))" for L
      by (simp add: reported_def in_round_def filter_map comp_def case_prod_beta conj_commute flip: rev_filter)
    ultimately show ?thesis by (simp add: decisions_of_def)
  qed
  then show ?thesis by (rule distinct_rounds)
qed

lemma reported_log:
  assumes "ls_reach P hosts \<sigma>" and "same_network P hosts" and "p \<in> P" and "length (ls_proposed \<sigma> p) < 2 ^ 32"
  defines "ds \<equiv> reported p (ls_decisions \<sigma>)"
  shows "dl_inv ds (LA_app_run ds)" and "map_of ds (dl_next_round_to_log (LA_app_run ds)) = None"
proof -
  have "unat r + 1 < 2 ^ 32" if "r \<in> set (map fst ds)" for r
  proof -
    from that obtain v where "(p, r, v) \<in> set (ls_decisions \<sigma>)" by (auto simp: ds_def in_reported)
    then have "unat r < length (ls_proposed \<sigma> p)" using decided_valid [OF assms(1,2)] by (auto simp: has_proposed_def)
    then show ?thesis using assms(4) by simp
  qed
  then show "dl_inv ds (LA_app_run ds)" "map_of ds (dl_next_round_to_log (LA_app_run ds)) = None"
    using LA_app_run_inv [OF reported_distinct [OF assms(1-3)]] unfolding ds_def by blast+
qed

lemma written_decided:
  assumes "ls_reach P hosts \<sigma>" and "same_network P hosts" and "p \<in> P" and "length (ls_proposed \<sigma> p) < 2 ^ 32"
    and "i < length (la_written p (ls_decisions \<sigma>))"
  shows "(p, of_nat i, la_written p (ls_decisions \<sigma>) ! i) \<in> set (ls_decisions \<sigma>) \<and> unat (of_nat i :: RoundID) = i"
proof -
  have "map_of (reported p (ls_decisions \<sigma>)) (of_nat i) = Some (la_written p (ls_decisions \<sigma>) ! i)"
    and "length (la_written p (ls_decisions \<sigma>)) < 2 ^ 32"
    using reported_log(1) [OF assms(1-4)] assms(5) unat_u32_bound by (auto simp: dl_inv_def la_written_def)
  then show ?thesis using assms(5) by (auto simp: in_reported unat_of_nat_u32 dest!: map_of_SomeD)
qed

text \<open>C19. End to end: the output files of lattice agreement. However datagrams are lost,
  duplicated and reordered, in whatever order the rounds are decided, line \<open>i\<close> of the output
  of a process contains what it proposed in round \<open>i\<close> and only what was proposed in that round,
  and line \<open>i\<close> of any two outputs are comparable.\<close>

theorem lattice_output:
  assumes "st_reach (la_invoke spare P) la_handle (la_start hosts) st" and "same_network P hosts" and "p \<in> P" and "q \<in> P"
    and "length (snd (st_nodes st p)) < 2 ^ 32" and "length (snd (st_nodes st q)) < 2 ^ 32"
    and "i < length (la_written p (st_log st))" and "i < length (la_written q (st_log st))"
  defines "v \<equiv> set (la_written p (st_log st) ! i)" and "w \<equiv> set (la_written q (st_log st) ! i)"
  shows "(v \<subseteq> w \<or> w \<subseteq> v) \<and> set (snd (st_nodes st p) ! i) \<subseteq> v \<and>
    v \<subseteq> (\<Union>q\<in>{q \<in> P. i < length (snd (st_nodes st q))}. set (snd (st_nodes st q) ! i))"
proof -
  obtain \<sigma> where \<sigma>: "ls_reach P hosts \<sigma>" and rel: "la_rel spare (st_nodes st) (st_net st) (st_log st) \<sigma>"
    using la_stack.stack_follows [OF assms(1)] by blast
  have log: "st_log st = ls_decisions \<sigma>" and hist: "snd (st_nodes st q) = ls_proposed \<sigma> q" for q
    using rel by (simp_all add: la_rel_def)
  note lines = written_decided [OF \<sigma> assms(2,3) assms(5) [unfolded hist] assms(7) [unfolded log]]
    written_decided [OF \<sigma> assms(2,4) assms(6) [unfolded hist] assms(8) [unfolded log]]
  note in_p = lines(1) [THEN conjunct1] and in_q = lines(2) [THEN conjunct1] and i = lines(1) [THEN conjunct2]
  show ?thesis
    using decided_comparable [OF \<sigma> assms(2) in_p in_q] decided_valid [OF \<sigma> assms(2) in_p]
    unfolding v_def w_def log hist has_proposed_def i by (intro conjI) (elim conjE, assumption)+
qed

lemma la_demo_written: "la_written 1 [(1, 0, [7])] = [[7]]"
  by (simp add: la_written_def reported_def LA_app_run_def LA_app_callback_def decision_log_init_def WriteProposalToOutput_def)

theorem lattice_output_witness:
  "la_written 1 (st_log la_demo_decided) = [[7]] \<and> set (snd (st_nodes la_demo_decided 1) ! 0) \<subseteq> set (la_written 1 (st_log la_demo_decided) ! 0)"
  using lattice_output [OF la_demo_reach(2) la_demo_network, of 1 1 0] by (simp add: la_demo_written la_demo_log)

lemma all_rounds_written:
  assumes "ls_reach P hosts \<sigma>" and "same_network P hosts" and "p \<in> P" and "length (ls_proposed \<sigma> p) < 2 ^ 32"
    and "ls_net \<sigma> = {#}"
  shows "length (la_written p (ls_decisions \<sigma>)) = length (ls_proposed \<sigma> p)"
proof -
  let ?ds = "reported p (ls_decisions \<sigma>)" and ?n = "length (la_written p (ls_decisions \<sigma>))"
  note log = reported_log [OF assms(1-4)]
  have "?n \<le> length (ls_proposed \<sigma> p)"
  proof (rule ccontr)
    let ?i = "length (ls_proposed \<sigma> p)"
    assume "\<not> ?n \<le> ?i"
    then have "(p, of_nat ?i, la_written p (ls_decisions \<sigma>) ! ?i) \<in> set (ls_decisions \<sigma>)" "unat (of_nat ?i :: RoundID) = ?i"
      using written_decided [OF assms(1-4), of ?i] by simp_all
    then show False using decided_valid [OF assms(1,2)] by (fastforce simp: has_proposed_def)
  qed
  moreover have "\<not> ?n < length (ls_proposed \<sigma> p)"
  proof
    assume "?n < length (ls_proposed \<sigma> p)"
    then obtain v where "v \<in> set (decisions_of p ?n \<sigma>)"
      using quiet_round_decided [OF assms(1-3), of ?n] assms(5) by (auto simp: has_proposed_def)
    then obtain r where "(p, r, v) \<in> set (ls_decisions \<sigma>)" "unat r = ?n" by (auto simp: decisions_of_def in_round_def)
    moreover from this(2) have "r = dl_next_round_to_log (LA_app_run ?ds)"
      using log(1) by (simp add: dl_inv_def la_written_def word_unat_eq_iff)
    ultimately have "(dl_next_round_to_log (LA_app_run ?ds), v) \<in> set ?ds" by (simp add: in_reported)
    with log(2) show False by (auto dest: weak_map_of_SomeI)
  qed
  ultimately show ?thesis by simp
qed

text \<open>C21. Nothing is lost: when no message is on its way any more, the output of every process has
  a line for every round it proposed.\<close>

theorem lattice_output_complete:
  assumes "st_reach (la_invoke spare P) la_handle (la_start hosts) st" and "same_network P hosts" and "p \<in> P"
    and "length (snd (st_nodes st p)) < 2 ^ 32" and "st_net st = {#}"
  shows "length (la_written p (st_log st)) = length (snd (st_nodes st p))"
proof -
  obtain \<sigma> where \<sigma>: "ls_reach P hosts \<sigma>" and rel: "la_rel spare (st_nodes st) (st_net st) (st_log st) \<sigma>"
    using la_stack.stack_follows [OF assms(1)] by blast
  have "st_log st = ls_decisions \<sigma>" "snd (st_nodes st p) = ls_proposed \<sigma> p" "ls_net \<sigma> = {#}"
    using rel assms(5) by (simp_all add: la_rel_def)
  then show ?thesis using all_rounds_written [OF \<sigma> assms(2,3)] assms(4) by simp
qed

theorem lattice_output_complete_witness:
  "length (la_written 1 (st_log la_demo_decided)) = length (snd (st_nodes la_demo_decided 1)) \<and> st_log la_demo_decided = [(1, 0, [7])]"
  using lattice_output_complete [OF la_demo_reach(2) la_demo_network, of 1] by (simp add: la_demo_log la_demo_decided_quiet)

end
