(* ===== verification/Intrusive_List.thy ===== *)
theory Intrusive_List
  imports Broadcast_Prelude
begin

text \<open>
  The intrusive singly linked list of \<open>include/util/instrusive_list.hpp\<close>. The nodes live
  in a store that maps the address of a node to its \<open>next_\<close> pointer; \<open>None\<close> is
  \<open>nullptr\<close>. The operations change the list object and the store, and they are related to
  lists of addresses by \<open>il_rep\<close>. A node can be in one list only, and a list passed as
  \<open>List &&\<close> is emptied by the callee: both appear in the laws below as disjointness of the
  represented lists.
\<close>

section \<open>Nodes and list objects\<close>

type_synonym addr = nat
type_synonym store = "addr \<Rightarrow> addr option"

record IntrusiveList =
  il_head :: "addr option"
  il_tail :: "addr option"
  il_size :: u64

definition Clear :: "IntrusiveList \<Rightarrow> IntrusiveList" where
  "Clear l = l\<lparr>il_head := None, il_tail := None, il_size := 0\<rparr>"

definition empty_list :: IntrusiveList where
  "empty_list = \<lparr>il_head = None, il_tail = None, il_size = 0\<rparr>"

definition Empty :: "IntrusiveList \<Rightarrow> bool" where
  "Empty l \<longleftrightarrow> il_head l = None"

definition move_list :: "IntrusiveList \<Rightarrow> IntrusiveList \<times> IntrusiveList" where
  "move_list other = (\<lparr>il_head = il_head other, il_tail = il_tail other, il_size = il_size other\<rparr>, Clear other)"

text \<open>The operations that write through \<open>tail_\<close> fault when it is null.\<close>

definition Insert :: "IntrusiveList \<Rightarrow> IntrusiveList \<Rightarrow> store \<Rightarrow> fault + (IntrusiveList \<times> IntrusiveList \<times> store)" where
  "Insert other l nx =
     (if Empty other then Inr (l, other, nx)
      else if Empty l then
        Inr (l\<lparr>il_head := il_head other, il_tail := il_tail other, il_size := il_size other\<rparr>, Clear other, nx)
      else case il_tail l of
             None \<Rightarrow> Inl NullDereferenced
           | Some tail \<Rightarrow>
               Inr (l\<lparr>il_tail := il_tail other, il_size := il_size l + il_size other\<rparr>, Clear other,
                    nx(tail := il_head other)))"

definition PushBack :: "addr \<Rightarrow> IntrusiveList \<Rightarrow> store \<Rightarrow> fault + (IntrusiveList \<times> store)" where
  "PushBack node l nx =
     (let l = l\<lparr>il_size := il_size l + 1\<rparr>; nx = nx(node := None) in
      if Empty l then Inr (l\<lparr>il_head := Some node, il_tail := Some node\<rparr>, nx)
      else case il_tail l of
             None \<Rightarrow> Inl NullDereferenced
           | Some tail \<Rightarrow> Inr (l\<lparr>il_tail := Some node\<rparr>, nx(tail := Some node)))"

definition PushFront :: "addr \<Rightarrow> IntrusiveList \<Rightarrow> store \<Rightarrow> IntrusiveList \<times> store" where
  "PushFront node l nx =
     (let l = l\<lparr>il_size := il_size l + 1\<rparr> in
      if Empty l then (l\<lparr>il_head := Some node, il_tail := Some node\<rparr>, nx(node := None))
      else (l\<lparr>il_head := Some node\<rparr>, nx(node := il_head l)))"

definition PopFront :: "IntrusiveList \<Rightarrow> store \<Rightarrow> addr option \<times> IntrusiveList \<times> store" where
  "PopFront l nx =
     (case il_head l of
        None \<Rightarrow> (None, l, nx)
      | Some current_head \<Rightarrow>
          let l = l\<lparr>il_size := il_size l - 1\<rparr>;
              l = (if il_head l \<noteq> il_tail l then l\<lparr>il_head := nx current_head\<rparr>
                   else l\<lparr>il_head := None, il_tail := None\<rparr>)
          in (Some current_head, l, nx(current_head := None)))"

section \<open>Paths in the store\<close>

text \<open>\<open>path nx p xs q\<close>: following \<open>next_\<close> from \<open>p\<close> visits \<open>xs\<close> and arrives at \<open>q\<close>.\<close>

fun path :: "store \<Rightarrow> addr option \<Rightarrow> addr list \<Rightarrow> addr option \<Rightarrow> bool" where
  "path nx p [] q \<longleftrightarrow> p = q"
| "path nx p (x # xs) q \<longleftrightarrow> p = Some x \<and> path nx (nx x) xs q"

lemma path_append [simp]: "path nx p (xs @ ys) q \<longleftrightarrow> (\<exists>r. path nx p xs r \<and> path nx r ys q)"
  by (induction xs arbitrary: p) auto

lemma path_frame [simp]: "x \<notin> set xs \<Longrightarrow> path (nx(x := v)) p xs q \<longleftrightarrow> path nx p xs q"
  by (induction xs arbitrary: p) auto

lemma path_cong: "(\<And>x. x \<in> set xs \<Longrightarrow> nx x = nx' x) \<Longrightarrow> path nx p xs q \<longleftrightarrow> path nx' p xs q"
  by (induction xs arbitrary: p) auto

lemma path_congI: "path nx p xs q \<Longrightarrow> (\<And>x. x \<in> set xs \<Longrightarrow> nx' x = nx x) \<Longrightarrow> path nx' p xs q"
  using path_cong [of xs nx' nx] by blast

lemma path_from_None [simp]: "path nx None xs q \<longleftrightarrow> xs = [] \<and> q = None"
  by (cases xs) auto

lemma path_from_Some_None: "path nx (Some x) xs None \<longleftrightarrow> (\<exists>ys. xs = x # ys \<and> path nx (nx x) ys None)"
  by (cases xs) auto

lemma path_last: "xs \<noteq> [] \<Longrightarrow> path nx p xs q \<Longrightarrow> nx (last xs) = q"
  by (induction xs arbitrary: p) (auto split: if_splits)

lemma path_relink:
  "xs \<noteq> [] \<Longrightarrow> distinct xs \<Longrightarrow> path nx p xs q \<Longrightarrow> path (nx(last xs := r)) p xs r"
  by (induction xs arbitrary: p) (auto split: if_splits)

section \<open>The list a list object represents\<close>

definition il_rep :: "store \<Rightarrow> IntrusiveList \<Rightarrow> addr list \<Rightarrow> bool" where
  "il_rep nx l xs \<longleftrightarrow> distinct xs \<and> path nx (il_head l) xs None \<and>
     il_tail l = (if xs = [] then None else Some (last xs)) \<and> il_size l = of_nat (length xs)"

lemma il_rep_empty [simp]: "il_rep nx empty_list []"
  by (simp add: il_rep_def empty_list_def)

lemma il_rep_Clear [simp]: "il_rep nx (Clear l) []"
  by (simp add: il_rep_def Clear_def)

lemma il_rep_Empty: "il_rep nx l xs \<Longrightarrow> Empty l \<longleftrightarrow> xs = []"
  by (cases xs) (auto simp: il_rep_def Empty_def)

lemma il_rep_frame: "il_rep nx l xs \<Longrightarrow> x \<notin> set xs \<Longrightarrow> il_rep (nx(x := v)) l xs"
  by (simp add: il_rep_def)

lemma il_rep_congI: "il_rep nx l xs \<Longrightarrow> (\<And>x. x \<in> set xs \<Longrightarrow> nx' x = nx x) \<Longrightarrow> il_rep nx' l xs"
  unfolding il_rep_def using path_congI [of nx "il_head l" xs None nx'] by blast

lemma il_rep_unique: "il_rep nx l xs \<Longrightarrow> il_rep nx l ys \<Longrightarrow> xs = ys"
proof -
  have "path nx p xs None \<Longrightarrow> path nx p ys None \<Longrightarrow> xs = ys" for p
    by (induction xs arbitrary: p ys) (auto simp: path_from_Some_None)
  then show "il_rep nx l xs \<Longrightarrow> il_rep nx l ys \<Longrightarrow> xs = ys" by (auto simp: il_rep_def)
qed

lemma PushBack_rep:
  assumes "il_rep nx l xs" and "node \<notin> set xs"
  shows "\<exists>l' nx'. PushBack node l nx = Inr (l', nx') \<and> il_rep nx' l' (xs @ [node]) \<and>
    (\<forall>x. x \<notin> set (xs @ [node]) \<longrightarrow> nx' x = nx x)"
proof (cases "xs = []")
  case True
  with assms show ?thesis by (auto simp: il_rep_def PushBack_def Empty_def)
next
  case False
  with assms have "\<not> Empty l" by (simp add: il_rep_Empty)
  moreover have "il_tail l = Some (last xs)" using False assms by (simp add: il_rep_def)
  moreover have "last xs \<in> set xs" and "last xs \<noteq> node" using False assms(2) by auto
  moreover have "path (nx(node := None, last xs := Some node)) (il_head l) xs (Some node)"
    using False assms by (intro path_relink [where q = None]) (auto simp: il_rep_def)
  ultimately show ?thesis
    using assms False by (auto simp: il_rep_def PushBack_def Empty_def)
qed

lemma PushFront_rep:
  assumes "il_rep nx l xs" and "node \<notin> set xs" and "PushFront node l nx = (l', nx')"
  shows "il_rep nx' l' (node # xs)" and "\<And>x. x \<noteq> node \<Longrightarrow> nx' x = nx x"
  using assms il_rep_Empty [OF assms(1)]
  by (auto simp: il_rep_def PushFront_def Empty_def split: if_splits)

lemma PopFront_rep_Nil: "il_rep nx l [] \<Longrightarrow> PopFront l nx = (None, l, nx)"
  by (simp add: il_rep_def PopFront_def)

lemma PopFront_rep_Cons:
  assumes "il_rep nx l (x # xs)" and "PopFront l nx = (r, l', nx')"
  shows "r = Some x" and "il_rep nx' l' xs" and "nx' = nx(x := None)"
  using assms by (auto simp: il_rep_def PopFront_def Let_def split: if_splits)

lemma Insert_rep:
  assumes "il_rep nx l xs" and "il_rep nx other ys" and "set xs \<inter> set ys = {}"
  shows "\<exists>l' other' nx'. Insert other l nx = Inr (l', other', nx') \<and> il_rep nx' l' (xs @ ys) \<and>
    il_rep nx' other' [] \<and> (\<forall>x. x \<notin> set xs \<longrightarrow> nx' x = nx x)"
proof (cases "xs = [] \<or> ys = []")
  case True
  with assms show ?thesis
    by (auto simp: Insert_def il_rep_Empty) (auto simp: il_rep_def Clear_def)
next
  case False
  then have "xs \<noteq> []" "ys \<noteq> []" by auto
  then have ne: "\<not> Empty l" "\<not> Empty other" using assms by (auto simp: il_rep_Empty)
  have tl: "il_tail l = Some (last xs)" using \<open>xs \<noteq> []\<close> assms(1) by (simp add: il_rep_def)
  have last: "last xs \<in> set xs" using \<open>xs \<noteq> []\<close> by simp
  then have "last xs \<notin> set ys" using assms(3) by blast
  have "path (nx(last xs := il_head other)) (il_head l) xs (il_head other)"
    using \<open>xs \<noteq> []\<close> assms by (intro path_relink [where q = None]) (auto simp: il_rep_def)
  with ne tl last assms \<open>last xs \<notin> set ys\<close> \<open>xs \<noteq> []\<close> \<open>ys \<noteq> []\<close> show ?thesis by (auto simp: il_rep_def Insert_def Clear_def)
qed

lemma move_list_rep:
  "il_rep nx l xs \<Longrightarrow> il_rep nx (fst (move_list l)) xs \<and> il_rep nx (snd (move_list l)) []"
  by (auto simp: move_list_def il_rep_def Clear_def)

section \<open>Runs of operations\<close>

text \<open>
  A client's run of operations on one list object, and the same run on a list of addresses.
  A node may be pushed when it is not in the list, which is the obligation of the client of
  an intrusive list.
\<close>

datatype list_op = PushBackOp addr | PushFrontOp addr | PopFrontOp

fun il_run :: "list_op list \<Rightarrow> IntrusiveList \<Rightarrow> store \<Rightarrow> fault + (addr option list \<times> IntrusiveList \<times> store)" where
  "il_run [] l nx = Inr ([], l, nx)"
| "il_run (PushBackOp a # ops) l nx = fbind (PushBack a l nx) (\<lambda>(l, nx). il_run ops l nx)"
| "il_run (PushFrontOp a # ops) l nx = (let (l, nx) = PushFront a l nx in il_run ops l nx)"
| "il_run (PopFrontOp # ops) l nx =
     (let (r, l, nx) = PopFront l nx in
      fbind (il_run ops l nx) (\<lambda>(rs, l, nx). Inr (r # rs, l, nx)))"

fun seq_run :: "list_op list \<Rightarrow> addr list \<Rightarrow> addr option list \<times> addr list" where
  "seq_run [] xs = ([], xs)"
| "seq_run (PushBackOp a # ops) xs = seq_run ops (xs @ [a])"
| "seq_run (PushFrontOp a # ops) xs = seq_run ops (a # xs)"
| "seq_run (PopFrontOp # ops) [] = (let (rs, ys) = seq_run ops [] in (None # rs, ys))"
| "seq_run (PopFrontOp # ops) (x # xs) = (let (rs, ys) = seq_run ops xs in (Some x # rs, ys))"

fun ops_ok :: "list_op list \<Rightarrow> addr list \<Rightarrow> bool" where
  "ops_ok [] xs \<longleftrightarrow> True"
| "ops_ok (PushBackOp a # ops) xs \<longleftrightarrow> a \<notin> set xs \<and> ops_ok ops (xs @ [a])"
| "ops_ok (PushFrontOp a # ops) xs \<longleftrightarrow> a \<notin> set xs \<and> ops_ok ops (a # xs)"
| "ops_ok (PopFrontOp # ops) xs \<longleftrightarrow> ops_ok ops (tl xs)"

text \<open>C28. Every run of pushes and pops on an intrusive list, from an object and a store that
  represent a list of nodes, dereferences no null pointer, returns what the same run on that
  list of nodes returns, and ends in an object that represents its result.\<close>

theorem intrusive_list_refines:
  assumes "il_rep nx l xs" and "ops_ok ops xs"
  shows "\<exists>l' nx'. il_run ops l nx = Inr (fst (seq_run ops xs), l', nx') \<and>
    il_rep nx' l' (snd (seq_run ops xs))"
  using assms
proof (induction ops xs arbitrary: l nx rule: seq_run.induct)
  case (2 a ops xs)
  then show ?case using PushBack_rep [of nx l xs a] by fastforce
next
  case (3 a ops xs)
  obtain l' nx' where "PushFront a l nx = (l', nx')" by fastforce
  with 3 show ?case using PushFront_rep(1) [of nx l xs a l' nx'] by simp
next
  case (4 ops)
  from "4.prems" "4.IH" [of nx l] show ?case
    by (fastforce simp: PopFront_rep_Nil split: prod.splits)
next
  case (5 ops x xs)
  obtain r l' nx' where pop: "PopFront l nx = (r, l', nx')" by (cases "PopFront l nx") auto
  note rep = PopFront_rep_Cons [OF "5.prems"(1) pop]
  from "5.IH" [OF rep(2)] "5.prems"(2) pop rep(1) show ?case
    by (fastforce split: prod.splits)
qed auto

theorem intrusive_list_refines_witness:
  "\<exists>l' nx'. il_run [PushBackOp 4, PushFrontOp 7, PopFrontOp, PopFrontOp, PopFrontOp] empty_list (\<lambda>_. None) =
     Inr ([Some 7, Some 4, None], l', nx') \<and> il_rep nx' l' []"
  using intrusive_list_refines [of "\<lambda>_. None" empty_list "[]"
      "[PushBackOp 4, PushFrontOp 7, PopFrontOp, PopFrontOp, PopFrontOp]"]
  by simp
end
