(* ===== verification/Task_Queue.thy ===== *)
theory Task_Queue
  imports Intrusive_List
begin

text \<open>
  The lock-free batch queue of \<open>include/concurrency/task_queue.hpp\<close>: a Treiber stack of
  intrusive nodes from which a consumer takes the whole content and reverses it. First the
  loops on a store that no other thread touches, then the interleaving of any number of
  pushing and popping threads, one atomic access of \<open>top_\<close>, or one write to an owned node,
  per step.
\<close>

section \<open>Reversing a chain of nodes\<close>

text \<open>
  The loops follow pointers and may not end, on a cyclic chain for instance; not returning
  is \<open>None\<close>.
\<close>

partial_function (option) create_reverse_loop ::
    "IntrusiveList \<Rightarrow> addr option \<Rightarrow> store \<Rightarrow> (IntrusiveList \<times> store) option" where
  "create_reverse_loop l current_node nx =
     (case current_node of
        None \<Rightarrow> Some (l, nx)
      | Some node \<Rightarrow>
          let nxt = nx node;
              (l, nx) = PushFront node l nx
          in create_reverse_loop l nxt nx)"

definition CreateReverseList :: "addr option \<Rightarrow> store \<Rightarrow> (IntrusiveList \<times> store) option" where
  "CreateReverseList node_base nx = create_reverse_loop empty_list node_base nx"

partial_function (option) reverse_loop ::
    "IntrusiveList \<Rightarrow> IntrusiveList \<Rightarrow> store \<Rightarrow> (IntrusiveList \<times> store) option" where
  "reverse_loop l reversed nx =
     (let (node, l, nx) = PopFront l nx in
      case node of
        None \<Rightarrow> Some (reversed, nx)
      | Some node \<Rightarrow> let (reversed, nx) = PushFront node reversed nx in reverse_loop l reversed nx)"

definition ReverseList :: "IntrusiveList \<Rightarrow> store \<Rightarrow> (IntrusiveList \<times> store) option" where
  "ReverseList l nx = reverse_loop l empty_list nx"

lemma create_reverse_loop_rep:
  assumes "il_rep nx l done" and "path nx p xs None" and "distinct xs" and "set xs \<inter> set done = {}"
  shows "\<exists>l' nx'. create_reverse_loop l p nx = Some (l', nx') \<and> il_rep nx' l' (rev xs @ done) \<and>
    (\<forall>x. x \<notin> set xs \<longrightarrow> nx' x = nx x)"
  using assms
proof (induction xs arbitrary: l "done" p nx)
  case Nil
  then show ?case by (simp add: create_reverse_loop.simps)
next
  case (Cons x xs)
  obtain l1 nx1 where push: "PushFront x l nx = (l1, nx1)" by fastforce
  have fresh: "x \<notin> set done" using Cons.prems(4) by auto
  note rep = PushFront_rep [OF Cons.prems(1) fresh push]
  have "path nx1 (nx x) xs None"
  proof (rule path_congI)
    show "path nx (nx x) xs None" using Cons.prems(2) by simp
    show "nx1 y = nx y" if "y \<in> set xs" for y using that Cons.prems(3) rep(2) [of y] by auto
  qed
  from Cons.IH [OF rep(1) this] Cons.prems(3,4) obtain l' nx' where
    rest: "create_reverse_loop l1 (nx x) nx1 = Some (l', nx')" "il_rep nx' l' (rev xs @ x # done)"
      "\<forall>y. y \<notin> set xs \<longrightarrow> nx' y = nx1 y" by auto
  have "create_reverse_loop l p nx = Some (l', nx')"
    using rest(1) push Cons.prems(2) by (subst create_reverse_loop.simps) simp
  moreover have "nx' y = nx y" if "y \<notin> set (x # xs)" for y using that rest(3) rep(2) [of y] by simp
  ultimately show ?case using rest(2) by auto
qed

lemma CreateReverseList_rep:
  assumes "path nx p xs None" and "distinct xs"
  shows "\<exists>l' nx'. CreateReverseList p nx = Some (l', nx') \<and> il_rep nx' l' (rev xs) \<and>
    (\<forall>x. x \<notin> set xs \<longrightarrow> nx' x = nx x)"
  using create_reverse_loop_rep [OF il_rep_empty assms] by (simp add: CreateReverseList_def)

lemma reverse_loop_rep:
  assumes "il_rep nx l xs" and "il_rep nx reversed ys" and "set xs \<inter> set ys = {}"
  shows "\<exists>l' nx'. reverse_loop l reversed nx = Some (l', nx') \<and> il_rep nx' l' (rev xs @ ys) \<and>
    (\<forall>x. x \<notin> set xs \<longrightarrow> nx' x = nx x)"
  using assms
proof (induction xs arbitrary: l reversed ys nx)
  case Nil
  then show ?case by (simp add: reverse_loop.simps PopFront_rep_Nil)
next
  case (Cons x xs)
  obtain r l1 nx1 where pop: "PopFront l nx = (r, l1, nx1)" by (cases "PopFront l nx") auto
  note popped = PopFront_rep_Cons [OF Cons.prems(1) pop]
  obtain rv nx2 where push: "PushFront x reversed nx1 = (rv, nx2)" by fastforce
  have fresh: "x \<notin> set ys" "x \<notin> set xs" using Cons.prems(1,3) by (auto simp: il_rep_def)
  have "il_rep nx1 reversed ys" using Cons.prems(2) fresh(1) popped(3) by (simp add: il_rep_frame)
  note pushed = PushFront_rep [OF this fresh(1) push]
  have "il_rep nx2 l1 xs"
    using popped(2) by (rule il_rep_congI) (use fresh(2) pushed(2) in metis)
  from Cons.IH [OF this pushed(1)] Cons.prems(3) fresh(2) obtain l' nx' where
    rest: "reverse_loop l1 rv nx2 = Some (l', nx')" "il_rep nx' l' (rev xs @ x # ys)"
      "\<forall>y. y \<notin> set xs \<longrightarrow> nx' y = nx2 y" by auto
  have "reverse_loop l reversed nx = Some (l', nx')"
    using rest(1) push pop popped(1) by (subst reverse_loop.simps) simp
  moreover have "nx' y = nx y" if "y \<notin> set (x # xs)" for y
    using that rest(3) pushed(2) [of y] popped(3) by simp
  ultimately show ?case using rest(2) by auto
qed

lemma ReverseList_rep:
  assumes "il_rep nx l xs"
  shows "\<exists>l' nx'. ReverseList l nx = Some (l', nx') \<and> il_rep nx' l' (rev xs) \<and>
    (\<forall>x. x \<notin> set xs \<longrightarrow> nx' x = nx x)"
  using reverse_loop_rep [OF assms il_rep_empty] by (simp add: ReverseList_def)

section \<open>The shared stack\<close>

text \<open>
  What a thread is doing inside \<open>BatchedLFStack\<close>, after each access of \<open>top_\<close>:
  \<^item> \<open>PushWrite\<close>: \<open>Push\<close> has read \<open>current_top\<close> (by the load or by a failed
    exchange) and is about to write it to \<open>next_\<close> of the last node of its list;
  \<^item> \<open>PushCAS\<close>: it is about to exchange \<open>top_\<close>;
  \<^item> \<open>PopCAS\<close>: \<open>TryPopAll\<close> has read \<open>current_top\<close> and is about to exchange;
  \<^item> \<open>Reversing\<close>: the consumer is in the loop of \<open>CreateReverseList\<close>.
  \<open>Push(TaskPtr)\<close> is the case where head and tail of the list are the task. The lists
  of addresses are not read by any step; they record which nodes the thread owns.
\<close>

datatype pc =
    Idle
  | PushWrite IntrusiveList "addr list" "addr option"
  | PushCAS IntrusiveList "addr list" "addr option"
  | PopCAS "addr option"
  | Reversing IntrusiveList "addr option" "addr list" "addr list"

fun owned :: "pc \<Rightarrow> addr list" where
  "owned Idle = []"
| "owned (PushWrite l xs cur) = xs"
| "owned (PushCAS l xs cur) = xs"
| "owned (PopCAS cur) = []"
| "owned (Reversing l cur todo done) = todo @ done"

text \<open>
  \<open>top_\<close>, the store and the threads; further the abstract content of the stack, the tasks
  in the order in which their pushes took effect and the tasks in the order in which they
  were taken.
\<close>

record BatchedLFStack =
  lf_top :: "addr option"
  lf_next :: store
  lf_pc :: "nat \<Rightarrow> pc"
  lf_stack :: "addr list"
  lf_pushed :: "addr list"
  lf_popped :: "addr list"

definition in_use :: "BatchedLFStack \<Rightarrow> addr set" where
  "in_use s = set (lf_stack s) \<union> (\<Union>t. set (owned (lf_pc s t)))"

definition push_write :: "nat \<Rightarrow> IntrusiveList \<Rightarrow> addr list \<Rightarrow> addr option \<Rightarrow> BatchedLFStack \<Rightarrow> BatchedLFStack" where
  "push_write t l xs cur s =
     s\<lparr>lf_next := (case il_tail l of Some tail \<Rightarrow> (lf_next s)(tail := cur) | None \<Rightarrow> lf_next s),
       lf_pc := (lf_pc s)(t := PushCAS l xs cur)\<rparr>"

definition push_done :: "nat \<Rightarrow> IntrusiveList \<Rightarrow> addr list \<Rightarrow> BatchedLFStack \<Rightarrow> BatchedLFStack" where
  "push_done t l xs s =
     s\<lparr>lf_top := il_head l, lf_pc := (lf_pc s)(t := Idle),
       lf_stack := xs @ lf_stack s, lf_pushed := lf_pushed s @ rev xs\<rparr>"

definition pop_done :: "nat \<Rightarrow> BatchedLFStack \<Rightarrow> BatchedLFStack" where
  "pop_done t s =
     s\<lparr>lf_top := None, lf_pc := (lf_pc s)(t := Reversing empty_list (lf_top s) (lf_stack s) []),
       lf_stack := [], lf_popped := lf_popped s @ rev (lf_stack s)\<rparr>"

definition reverse_node :: "nat \<Rightarrow> IntrusiveList \<Rightarrow> addr \<Rightarrow> addr list \<Rightarrow> addr list \<Rightarrow> BatchedLFStack \<Rightarrow> BatchedLFStack" where
  "reverse_node t l node todo done s =
     (let nxt = lf_next s node; (l, nx) = PushFront node l (lf_next s) in
      s\<lparr>lf_next := nx, lf_pc := (lf_pc s)(t := Reversing l nxt (tl todo) (node # done))\<rparr>)"

text \<open>
  The steps. A push starts with a non-empty list of nodes that nobody uses. The weak exchange
  may fail spuriously; a failed exchange reads \<open>top_\<close> again.
\<close>

inductive lf_step :: "BatchedLFStack \<Rightarrow> BatchedLFStack \<Rightarrow> bool" where
  push_load: "\<lbrakk>lf_pc s t = Idle; il_rep (lf_next s) l xs; \<not> Empty l; set xs \<inter> in_use s = {}\<rbrakk>
    \<Longrightarrow> lf_step s (s\<lparr>lf_pc := (lf_pc s)(t := PushWrite l xs (lf_top s))\<rparr>)"
| push_link: "lf_pc s t = PushWrite l xs cur \<Longrightarrow> lf_step s (push_write t l xs cur s)"
| push_cas: "\<lbrakk>lf_pc s t = PushCAS l xs cur; lf_top s = cur\<rbrakk> \<Longrightarrow> lf_step s (push_done t l xs s)"
| push_retry: "lf_pc s t = PushCAS l xs cur
    \<Longrightarrow> lf_step s (s\<lparr>lf_pc := (lf_pc s)(t := PushWrite l xs (lf_top s))\<rparr>)"
| pop_load: "lf_pc s t = Idle \<Longrightarrow> lf_step s (s\<lparr>lf_pc := (lf_pc s)(t := PopCAS (lf_top s))\<rparr>)"
| pop_cas: "\<lbrakk>lf_pc s t = PopCAS cur; lf_top s = cur\<rbrakk> \<Longrightarrow> lf_step s (pop_done t s)"
| pop_retry: "lf_pc s t = PopCAS cur \<Longrightarrow> lf_step s (s\<lparr>lf_pc := (lf_pc s)(t := PopCAS (lf_top s))\<rparr>)"
| pop_reverse: "lf_pc s t = Reversing l (Some node) todo done \<Longrightarrow> lf_step s (reverse_node t l node todo done s)"
| pop_return: "lf_pc s t = Reversing l None todo done \<Longrightarrow> lf_step s (s\<lparr>lf_pc := (lf_pc s)(t := Idle)\<rparr>)"
| client: "\<forall>x\<in>in_use s. nx x = lf_next s x \<Longrightarrow> lf_step s (s\<lparr>lf_next := nx\<rparr>)"

definition lf_init :: "BatchedLFStack \<Rightarrow> bool" where
  "lf_init s \<longleftrightarrow> lf_top s = None \<and> lf_pc s = (\<lambda>_. Idle) \<and> lf_stack s = [] \<and> lf_pushed s = [] \<and> lf_popped s = []"

inductive lf_reach :: "BatchedLFStack \<Rightarrow> bool" where
  lf_start: "lf_init s \<Longrightarrow> lf_reach s"
| lf_more: "\<lbrakk>lf_reach s; lf_step s s'\<rbrakk> \<Longrightarrow> lf_reach s'"

section \<open>The invariant\<close>

text \<open>What a thread that is inside an operation knows about the store.\<close>

fun pc_ok :: "store \<Rightarrow> pc \<Rightarrow> bool" where
  "pc_ok nx Idle \<longleftrightarrow> True"
| "pc_ok nx (PushWrite l xs cur) \<longleftrightarrow> xs \<noteq> [] \<and> distinct xs \<and> il_tail l = Some (last xs) \<and> (\<exists>q. path nx (il_head l) xs q)"
| "pc_ok nx (PushCAS l xs cur) \<longleftrightarrow> xs \<noteq> [] \<and> distinct xs \<and> il_tail l = Some (last xs) \<and> path nx (il_head l) xs cur"
| "pc_ok nx (PopCAS cur) \<longleftrightarrow> True"
| "pc_ok nx (Reversing l cur todo done) \<longleftrightarrow>
     path nx cur todo None \<and> distinct todo \<and> set todo \<inter> set done = {} \<and> il_rep nx l done"

definition lf_inv :: "BatchedLFStack \<Rightarrow> bool" where
  "lf_inv s \<longleftrightarrow>
     path (lf_next s) (lf_top s) (lf_stack s) None \<and> distinct (lf_stack s) \<and>
     (\<forall>t. pc_ok (lf_next s) (lf_pc s t)) \<and>
     (\<forall>t. set (owned (lf_pc s t)) \<inter> set (lf_stack s) = {}) \<and>
     (\<forall>t u. t \<noteq> u \<longrightarrow> set (owned (lf_pc s t)) \<inter> set (owned (lf_pc s u)) = {}) \<and>
     lf_pushed s = lf_popped s @ rev (lf_stack s)"

lemma pc_ok_cong: "(\<And>x. x \<in> set (owned p) \<Longrightarrow> nx' x = nx x) \<Longrightarrow> pc_ok nx p \<Longrightarrow> pc_ok nx' p"
proof (induction nx p rule: pc_ok.induct)
  case (2 nx l xs cur)
  then show ?case using path_cong [of xs nx' nx] by auto
next
  case (3 nx l xs cur)
  then show ?case using path_cong [of xs nx' nx] by auto
next
  case (5 nx l cur todo "done")
  then show ?case using path_cong [of todo nx' nx] path_cong [of "done" nx' nx] by (auto simp: il_rep_def)
qed auto

lemma lf_invD:
  assumes "lf_inv s"
  shows "path (lf_next s) (lf_top s) (lf_stack s) None" and "distinct (lf_stack s)"
    and "pc_ok (lf_next s) (lf_pc s t)" and "set (owned (lf_pc s t)) \<inter> set (lf_stack s) = {}"
    and "t \<noteq> u \<Longrightarrow> set (owned (lf_pc s t)) \<inter> set (owned (lf_pc s u)) = {}"
    and "lf_pushed s = lf_popped s @ rev (lf_stack s)"
  using assms unfolding lf_inv_def by blast+

text \<open>
  A step of thread \<open>t\<close> that leaves the stack alone keeps the invariant when it writes
  only to nodes that \<open>t\<close> owned or nobody used, and the nodes it owns afterwards are such
  nodes.
\<close>

lemma lf_inv_local:
  assumes inv: "lf_inv s"
    and fresh: "set (owned p) \<inter> (in_use s - set (owned (lf_pc s t))) = {}"
    and frame: "\<And>x. x \<in> in_use s - set (owned (lf_pc s t)) \<Longrightarrow> nx x = lf_next s x"
    and ok: "pc_ok nx p"
  shows "lf_inv (s\<lparr>lf_next := nx, lf_pc := (lf_pc s)(t := p)\<rparr>)"
proof -
  note i = lf_invD [OF inv]
  have others: "x \<in> in_use s - set (owned (lf_pc s t))" if "u \<noteq> t" and "x \<in> set (owned (lf_pc s u))" for u x
    using i(5) [of u t] that by (auto simp: in_use_def)
  have stack: "x \<in> in_use s - set (owned (lf_pc s t))" if "x \<in> set (lf_stack s)" for x
    using i(4) [of t] that by (auto simp: in_use_def)
  have "path nx (lf_top s) (lf_stack s) None"
    using i(1) frame stack path_cong [of "lf_stack s" nx "lf_next s"] by blast
  moreover have "pc_ok nx (((lf_pc s)(t := p)) u)" for u
    using ok pc_ok_cong [of "lf_pc s u" nx "lf_next s"] frame others i(3) [of u] by (cases "u = t") auto
  moreover have "set (owned (((lf_pc s)(t := p)) u)) \<inter> set (lf_stack s) = {}" for u
    using i(4) [of u] fresh stack by (cases "u = t") auto
  moreover have "set (owned (((lf_pc s)(t := p)) u)) \<inter> set (owned (((lf_pc s)(t := p)) v)) = {}" if "u \<noteq> v" for u v
    using i(5) [OF that] fresh others [of u] others [of v] that by (cases "u = t"; cases "v = t") auto
  ultimately show ?thesis using i(2,6) by (simp add: lf_inv_def)
qed

lemma lf_inv_pc:
  assumes "lf_inv s" and "set (owned p) \<inter> (in_use s - set (owned (lf_pc s t))) = {}" and "pc_ok (lf_next s) p"
  shows "lf_inv (s\<lparr>lf_pc := (lf_pc s)(t := p)\<rparr>)"
  using lf_inv_local [OF assms(1,2) _ assms(3)] by simp

lemma push_write_inv:
  assumes inv: "lf_inv s" and pc: "lf_pc s t = PushWrite l xs cur"
  shows "lf_inv (push_write t l xs cur s)"
proof -
  from lf_invD(3) [OF inv, of t] pc obtain q where
    xs: "xs \<noteq> []" "distinct xs" "il_tail l = Some (last xs)" "path (lf_next s) (il_head l) xs q" by auto
  have "lf_inv (s\<lparr>lf_next := (lf_next s)(last xs := cur), lf_pc := (lf_pc s)(t := PushCAS l xs cur)\<rparr>)"
  proof (rule lf_inv_local [OF inv])
    show "pc_ok ((lf_next s)(last xs := cur)) (PushCAS l xs cur)"
      using xs path_relink [OF xs(1,2,4)] by simp
  qed (use pc xs(1) in auto)
  with xs(3) show ?thesis by (simp add: push_write_def)
qed

lemma push_done_inv:
  assumes inv: "lf_inv s" and pc: "lf_pc s t = PushCAS l xs (lf_top s)"
  shows "lf_inv (push_done t l xs s)"
proof -
  note i = lf_invD [OF inv]
  have xs: "distinct xs" "path (lf_next s) (il_head l) xs (lf_top s)"
    and disj: "set xs \<inter> set (lf_stack s) = {}" using i(3,4) [of t] pc by auto
  have others: "set (owned (lf_pc s u)) \<inter> set (xs @ lf_stack s) = {}" if "u \<noteq> t" for u
    using i(4) [of u] i(5) [OF that] pc by auto
  have "path (lf_next s) (il_head l) (xs @ lf_stack s) None" using xs(2) i(1) by auto
  moreover have "distinct (xs @ lf_stack s)" using xs(1) i(2) disj by simp
  moreover have "pc_ok (lf_next s) (((lf_pc s)(t := Idle)) u)" for u using i(3) [of u] by simp
  moreover have "set (owned (((lf_pc s)(t := Idle)) u)) \<inter> set (xs @ lf_stack s) = {}" for u
    using others [of u] by simp
  moreover have "set (owned (((lf_pc s)(t := Idle)) u)) \<inter> set (owned (((lf_pc s)(t := Idle)) v)) = {}" if "u \<noteq> v" for u v
    using i(5) [OF that] by simp
  moreover have "lf_pushed s @ rev xs = lf_popped s @ rev (xs @ lf_stack s)" using i(6) by simp
  ultimately show ?thesis by (simp add: lf_inv_def push_done_def del: set_append rev_append)
qed

lemma pop_done_inv:
  assumes inv: "lf_inv s" and pc: "lf_pc s t = PopCAS cur"
  shows "lf_inv (pop_done t s)"
proof -
  note i = lf_invD [OF inv]
  let ?pc = "(lf_pc s)(t := Reversing empty_list (lf_top s) (lf_stack s) [])"
  have "pc_ok (lf_next s) (?pc u)" for u using i(1,2,3) by simp
  moreover have "set (owned (?pc u)) \<inter> set (owned (?pc v)) = {}" if "u \<noteq> v" for u v
    using i(4) i(5) [OF that] that by (cases "u = t"; cases "v = t") auto
  ultimately show ?thesis using i(6) by (simp add: lf_inv_def pop_done_def)
qed

lemma reverse_node_inv:
  assumes inv: "lf_inv s" and pc: "lf_pc s t = Reversing l (Some node) todo done"
  shows "lf_inv (reverse_node t l node todo done s)"
proof -
  have ok: "pc_ok (lf_next s) (Reversing l (Some node) todo done)" using lf_invD(3) [OF inv, of t] pc by simp
  then obtain rest where rest: "todo = node # rest" "path (lf_next s) (lf_next s node) rest None"
    by (auto simp: path_from_Some_None)
  obtain l' nx where push: "PushFront node l (lf_next s) = (l', nx)" by fastforce
  have rep: "il_rep nx l' (node # done)" and frame: "\<And>x. x \<noteq> node \<Longrightarrow> nx x = lf_next s x"
    using PushFront_rep [OF _ _ push, of "done"] ok rest(1) by auto
  have "path nx (lf_next s node) rest None"
    using rest(2)
  proof (rule path_congI)
    show "nx x = lf_next s x" if "x \<in> set rest" for x using that frame [of x] ok rest(1) by auto
  qed
  with ok rest(1) rep have "pc_ok nx (Reversing l' (lf_next s node) rest (node # done))" by auto
  then have "lf_inv (s\<lparr>lf_next := nx, lf_pc := (lf_pc s)(t := Reversing l' (lf_next s node) rest (node # done))\<rparr>)"
    by (rule lf_inv_local [OF inv, rotated 2]) (use pc rest(1) frame in auto)
  with push rest(1) show ?thesis by (simp add: reverse_node_def)
qed

lemma client_inv:
  assumes "lf_inv s" and "\<forall>x\<in>in_use s. nx x = lf_next s x"
  shows "lf_inv (s\<lparr>lf_next := nx\<rparr>)"
proof -
  have "lf_inv (s\<lparr>lf_next := nx, lf_pc := (lf_pc s)(t := lf_pc s t)\<rparr>)" for t
    by (rule lf_inv_local [OF assms(1)])
      (use assms lf_invD(3) [OF assms(1), of t] pc_ok_cong [of "lf_pc s t" nx "lf_next s"] in \<open>auto simp: in_use_def\<close>)
  then show ?thesis by simp
qed

lemma lf_step_inv [inv_intro]: "lf_step s s' \<Longrightarrow> lf_inv s \<Longrightarrow> lf_inv s'"
proof (induction rule: lf_step.induct)
  case (push_load s t l xs)
  then have "xs \<noteq> []" "set xs \<inter> in_use s = {}" by (auto simp: il_rep_Empty)
  with push_load show ?case by (intro lf_inv_pc) (auto simp: il_rep_def)
next
  case (push_link s t l xs cur)
  then show ?case by (rule push_write_inv [rotated])
next
  case (push_cas s t l xs cur)
  then show ?case using push_done_inv by blast
next
  case (push_retry s t l xs cur)
  then show ?case using lf_invD(3) [of s t] by (intro lf_inv_pc) (auto simp: in_use_def)
next
  case (pop_cas s t cur)
  then show ?case using pop_done_inv by blast
next
  case (pop_reverse s t l node todo "done")
  then show ?case using reverse_node_inv by blast
next
  case (client s nx)
  then show ?case by (intro client_inv)
qed (auto intro!: lf_inv_pc)

lemma lf_init_inv: "lf_init s \<Longrightarrow> lf_inv s"
  by (simp add: lf_init_def lf_inv_def)

lemma lf_reach_inv: "lf_reach s \<Longrightarrow> lf_inv s"
  by (induction rule: lf_reach.induct) (auto intro: lf_init_inv lf_step_inv)

text \<open>A run in which thread 0 pushes a task and thread 1 takes it.\<close>

definition one_node :: IntrusiveList where
  "one_node = \<lparr>il_head = Some 5, il_tail = Some 5, il_size = 1\<rparr>"

definition lf_demo0 :: BatchedLFStack where
  "lf_demo0 = \<lparr>lf_top = None, lf_next = (\<lambda>_. None), lf_pc = (\<lambda>_. Idle), lf_stack = [], lf_pushed = [], lf_popped = []\<rparr>"

definition lf_demo1 :: BatchedLFStack where
  "lf_demo1 = push_done 0 one_node [5] (push_write 0 one_node [5] None
     (lf_demo0\<lparr>lf_pc := (lf_pc lf_demo0)(0 := PushWrite one_node [5] (lf_top lf_demo0))\<rparr>))"

definition lf_demo2 :: BatchedLFStack where
  "lf_demo2 = reverse_node 1 empty_list 5 [5] []
     (pop_done 1 (lf_demo1\<lparr>lf_pc := (lf_pc lf_demo1)(1 := PopCAS (lf_top lf_demo1))\<rparr>))"

lemma lf_demo1_reach: "lf_reach lf_demo1"
  unfolding lf_demo1_def
proof (rule lf_more [OF lf_more [OF lf_more [OF lf_start [of lf_demo0] push_load [of lf_demo0 0 one_node "[5]"]]
      push_link] push_cas])
  show "il_rep (lf_next lf_demo0) one_node [5]" by (simp add: il_rep_def one_node_def lf_demo0_def)
qed (simp_all add: lf_demo0_def lf_init_def one_node_def Empty_def in_use_def push_write_def)

lemma lf_demo2_reach: "lf_reach lf_demo2"
  unfolding lf_demo2_def
  by (rule lf_more [OF lf_more [OF lf_more [OF lf_demo1_reach pop_load] pop_cas] pop_reverse])
    (simp_all add: lf_demo1_def lf_demo0_def push_done_def push_write_def one_node_def pop_done_def)

section \<open>Correctness\<close>



text \<open>
  What a consumer has reversed and what it has still to reverse is one segment of the
  sequence of the tasks taken out.
\<close>

lemma reversing_segment:
  "lf_reach s \<Longrightarrow> lf_pc s t = Reversing l cur todo done \<Longrightarrow>
   \<exists>before after. lf_popped s = before @ (rev todo @ done) @ after"
proof (induction arbitrary: t l cur todo "done" rule: lf_reach.induct)
  case (lf_start s)
  then show ?case by (simp add: lf_init_def)
next
  case (lf_more s s')
  from lf_more(2,1,3,4) show ?case
  proof (cases rule: lf_step.cases)
    case (pop_cas u cur')
    show ?thesis
    proof (cases "u = t")
      case True
      with pop_cas lf_more.prems have "lf_popped s' = lf_popped s @ (rev todo @ done) @ []" by (auto simp: pop_done_def)
      then show ?thesis by blast
    next
      case False
      with pop_cas lf_more.prems have "lf_pc s t = Reversing l cur todo done" by (simp add: pop_done_def)
      from lf_more.IH [OF this] obtain before after where "lf_popped s = before @ (rev todo @ done) @ after" by blast
      with pop_cas have "lf_popped s' = before @ (rev todo @ done) @ (after @ rev (lf_stack s))"
        by (simp add: pop_done_def)
      then show ?thesis by blast
    qed
  next
    case (pop_reverse u l1 node todo1 done1)
    show ?thesis
    proof (cases "u = t")
      case True
      have "pc_ok (lf_next s) (lf_pc s t)" by (rule lf_invD(3) [OF lf_reach_inv [OF lf_more.hyps(1)]])
      with pop_reverse True obtain rest where "todo1 = node # rest" by (auto simp: path_from_Some_None)
      with pop_reverse True lf_more.prems
      have eq: "rev todo1 @ done1 = rev todo @ done" "lf_popped s' = lf_popped s"
        by (auto simp: reverse_node_def split: prod.splits)
      with lf_more.IH [of t l1 "Some node" todo1 done1] pop_reverse True show ?thesis by metis
    next
      case False
      with pop_reverse lf_more.prems lf_more.IH [of t l cur todo "done"] show ?thesis
        by (auto simp: reverse_node_def split: prod.splits)
    qed
  qed (use lf_more.IH lf_more.prems in \<open>auto simp: push_write_def push_done_def split: if_splits\<close>)
qed

text \<open>When a consumer leaves \<open>TryPopAll\<close>, its list object represents a run of
  consecutively pushed tasks in the order of their pushes, whatever the other threads did in
  between, and none of these nodes is on the stack.\<close>

theorem popped_list_represented:
  assumes "lf_reach s" and "lf_pc s t = Reversing l None todo done"
  shows "il_rep (lf_next s) l done \<and> set done \<inter> set (lf_stack s) = {} \<and>
    (\<exists>before after. lf_pushed s = before @ done @ after)"
proof -
  note inv = lf_reach_inv [OF assms(1)]
  from lf_invD(3,4) [OF inv, of t] assms(2)
  have "todo = []" "il_rep (lf_next s) l done" "set done \<inter> set (lf_stack s) = {}" by auto
  with reversing_segment [OF assms] lf_invD(6) [OF inv] show ?thesis by (metis append.assoc append_Nil rev.simps(1))
qed

theorem popped_list_represented_witness:
  "\<exists>l. lf_pc lf_demo2 1 = Reversing l None [] [5] \<and> il_rep (lf_next lf_demo2) l [5]"
proof -
  have "\<exists>l. lf_pc lf_demo2 1 = Reversing l None [] [5]"
    by (simp add: lf_demo2_def lf_demo1_def lf_demo0_def reverse_node_def pop_done_def push_done_def
        push_write_def one_node_def split: prod.splits)
  then show ?thesis using popped_list_represented [OF lf_demo2_reach] by blast
qed
end
