(* ===== verification/Strand.thy ===== *)
theory Strand
  imports Task_Queue
begin

text \<open>
  The serialising executor of \<open>include/runtime/strand_impl.hpp\<close> with its two users
  \<open>AsyncMutex\<close> and \<open>PacketBatcher\<close>, and the reference counter of
  \<open>include/concurrency/refcounted.hpp\<close>. Any number of threads call \<open>Process\<close>, the
  underlying executor runs \<open>Task\<close> on any thread; one step is one access to shared state.
  The queue of tasks appears by its abstract content: a push appends, \<open>TryPopAll\<close> takes
  everything, which is how the lock-free queue behaves at the exchanges of \<open>top_\<close>
  (interpretation \<open>lf_queue\<close>).
\<close>

section \<open>What the strand needs of its queue\<close>

locale batch_queue =
  fixes content :: "'s \<Rightarrow> 'a list"
    and push :: "'a \<Rightarrow> 's \<Rightarrow> 's"
    and take_all :: "'s \<Rightarrow> 'a list \<times> 's"
  assumes content_push: "content (push x s) = content s @ [x]"
    and take_all_result: "fst (take_all s) = content s"
    and content_take_all: "content (snd (take_all s)) = []"
begin

lemma content_pushes: "content (fold push xs s) = content s @ xs"
  by (induction xs arbitrary: s) (auto simp: content_push)

lemma batches_in_order:
  "fst (take_all (fold push ys (snd (take_all (fold push xs s))))) = ys \<and>
   fst (take_all (fold push xs s)) = content s @ xs"
  by (simp add: take_all_result content_pushes content_take_all)

end

definition lf_content :: "BatchedLFStack \<Rightarrow> addr list" where
  "lf_content s = rev (lf_stack s)"

interpretation lf_queue: batch_queue lf_content "\<lambda>x. push_done t l [x]" "\<lambda>s. (lf_content s, pop_done t s)" for t l
  by unfold_locales (simp_all add: lf_content_def push_done_def pop_done_def)

section \<open>State\<close>

text \<open>
  A thread that runs \<open>Task\<close>: it processes a batch, counting the tasks; it has found
  further tasks and is about to call \<open>Refer\<close>, then \<open>Execute\<close>; it is about to call
  \<open>Derefer\<close>.
\<close>

datatype 'a runner =
    Processing "'a list" nat
  | Resubmitting
  | Executing
  | Leaving

text \<open>
  \<open>st_adding\<close>, \<open>st_waking\<close> and \<open>st_executing\<close> count the calls of \<open>Process\<close>
  that have pushed their task, that have read 0 from \<open>submitted_\<close>, and that have called
  \<open>Refer\<close>; \<open>st_scheduled\<close> the submissions the underlying executor has not started yet.
  \<open>st_owner\<close> is the reference of the \<open>AsyncMutex\<close> or \<open>PacketBatcher\<close> object.
  \<open>st_pushed\<close> and \<open>st_done\<close> record the tasks in the order of their pushes and of
  their execution.
\<close>

record 'a StrandImpl =
  st_tasks :: "'a list"
  st_submitted :: int
  st_refs :: int
  st_deleted :: bool
  st_owner :: bool
  st_adding :: nat
  st_waking :: nat
  st_executing :: nat
  st_scheduled :: nat
  st_runners :: "'a runner list"
  st_pushed :: "'a list"
  st_done :: "'a list"

definition Strand_init :: "'a StrandImpl" where
  "Strand_init = \<lparr>st_tasks = [], st_submitted = 0, st_refs = 1, st_deleted = False, st_owner = True,
     st_adding = 0, st_waking = 0, st_executing = 0, st_scheduled = 0, st_runners = [],
     st_pushed = [], st_done = []\<rparr>"

section \<open>Operations\<close>

definition Refer :: "'a StrandImpl \<Rightarrow> 'a StrandImpl" where
  "Refer s = s\<lparr>st_refs := st_refs s + 1\<rparr>"

definition Derefer :: "'a StrandImpl \<Rightarrow> 'a StrandImpl" where
  "Derefer s = s\<lparr>st_refs := st_refs s - 1, st_deleted := (st_deleted s \<or> st_refs s - 1 = 0)\<rparr>"

definition Process_push :: "'a \<Rightarrow> 'a StrandImpl \<Rightarrow> 'a StrandImpl" where
  "Process_push task s = s\<lparr>st_tasks := st_tasks s @ [task], st_adding := st_adding s + 1,
     st_pushed := st_pushed s @ [task]\<rparr>"

definition Process_submit :: "'a StrandImpl \<Rightarrow> 'a StrandImpl" where
  "Process_submit s = s\<lparr>st_submitted := st_submitted s + 1, st_adding := st_adding s - 1,
     st_waking := st_waking s + (if st_submitted s = 0 then 1 else 0)\<rparr>"

definition Process_refer :: "'a StrandImpl \<Rightarrow> 'a StrandImpl" where
  "Process_refer s = Refer (s\<lparr>st_waking := st_waking s - 1, st_executing := st_executing s + 1\<rparr>)"

definition Process_execute :: "'a StrandImpl \<Rightarrow> 'a StrandImpl" where
  "Process_execute s = s\<lparr>st_executing := st_executing s - 1, st_scheduled := st_scheduled s + 1\<rparr>"

text \<open>\<open>Task\<close> returns at once, without \<open>Derefer\<close>, when the batch is empty.\<close>

definition Task_pop :: "'a StrandImpl \<Rightarrow> 'a StrandImpl" where
  "Task_pop s =
     (let batch = st_tasks s; s = s\<lparr>st_tasks := [], st_scheduled := st_scheduled s - 1\<rparr> in
      if batch = [] then s else s\<lparr>st_runners := st_runners s @ [Processing batch 0]\<rparr>)"

text \<open>One iteration of the loop of \<open>ProcessBatch\<close>, and the subtraction after it.\<close>

definition ProcessBatch_step :: "'a runner list \<Rightarrow> 'a \<Rightarrow> 'a list \<Rightarrow> nat \<Rightarrow> 'a runner list \<Rightarrow> 'a StrandImpl \<Rightarrow> 'a StrandImpl" where
  "ProcessBatch_step rs task batch num_tasks rs' s =
     s\<lparr>st_runners := rs @ Processing batch (num_tasks + 1) # rs', st_done := st_done s @ [task]\<rparr>"

definition Task_subtract :: "'a runner list \<Rightarrow> nat \<Rightarrow> 'a runner list \<Rightarrow> 'a StrandImpl \<Rightarrow> 'a StrandImpl" where
  "Task_subtract rs num_tasks rs' s =
     s\<lparr>st_submitted := st_submitted s - int num_tasks,
       st_runners := rs @ (if st_submitted s > int num_tasks then Resubmitting else Leaving) # rs'\<rparr>"

definition Task_refer :: "'a runner list \<Rightarrow> 'a runner list \<Rightarrow> 'a StrandImpl \<Rightarrow> 'a StrandImpl" where
  "Task_refer rs rs' s = Refer (s\<lparr>st_runners := rs @ Executing # rs'\<rparr>)"

definition Task_execute :: "'a runner list \<Rightarrow> 'a runner list \<Rightarrow> 'a StrandImpl \<Rightarrow> 'a StrandImpl" where
  "Task_execute rs rs' s = s\<lparr>st_runners := rs @ Leaving # rs', st_scheduled := st_scheduled s + 1\<rparr>"

definition Task_derefer :: "'a runner list \<Rightarrow> 'a runner list \<Rightarrow> 'a StrandImpl \<Rightarrow> 'a StrandImpl" where
  "Task_derefer rs rs' s = Derefer (s\<lparr>st_runners := rs @ rs'\<rparr>)"

definition Owner_release :: "'a StrandImpl \<Rightarrow> 'a StrandImpl" where
  "Owner_release s = Derefer (s\<lparr>st_owner := False\<rparr>)"

text \<open>
  The steps. The owner is destroyed when no thread is inside its \<open>Process\<close> any more, and
  nobody calls \<open>Process\<close> afterwards; this is the obligation of the owner's user.
\<close>

inductive strand_step :: "'a StrandImpl \<Rightarrow> 'a StrandImpl \<Rightarrow> bool" where
  push: "st_owner s \<Longrightarrow> strand_step s (Process_push task s)"
| submit: "st_adding s > 0 \<Longrightarrow> strand_step s (Process_submit s)"
| refer: "st_waking s > 0 \<Longrightarrow> strand_step s (Process_refer s)"
| execute: "st_executing s > 0 \<Longrightarrow> strand_step s (Process_execute s)"
| pop: "st_scheduled s > 0 \<Longrightarrow> strand_step s (Task_pop s)"
| process: "st_runners s = rs @ Processing (task # batch) n # rs' \<Longrightarrow> strand_step s (ProcessBatch_step rs task batch n rs' s)"
| subtract: "st_runners s = rs @ Processing [] n # rs' \<Longrightarrow> strand_step s (Task_subtract rs n rs' s)"
| resubmit: "st_runners s = rs @ Resubmitting # rs' \<Longrightarrow> strand_step s (Task_refer rs rs' s)"
| reexecute: "st_runners s = rs @ Executing # rs' \<Longrightarrow> strand_step s (Task_execute rs rs' s)"
| leave: "st_runners s = rs @ Leaving # rs' \<Longrightarrow> strand_step s (Task_derefer rs rs' s)"
| release: "\<lbrakk>st_owner s; st_adding s = 0; st_waking s = 0; st_executing s = 0\<rbrakk> \<Longrightarrow> strand_step s (Owner_release s)"

inductive strand_reach :: "'a StrandImpl \<Rightarrow> bool" where
  strand_start: "strand_reach Strand_init"
| strand_more: "\<lbrakk>strand_reach s; strand_step s s'\<rbrakk> \<Longrightarrow> strand_reach s'"

section \<open>The invariant\<close>

fun active :: "'a runner \<Rightarrow> nat" where
  "active (Processing batch n) = 1"
| "active Resubmitting = 1"
| "active Executing = 1"
| "active Leaving = 0"

fun references :: "'a runner \<Rightarrow> nat" where
  "references Executing = 2"
| "references _ = 1"

fun popped_tasks :: "'a runner \<Rightarrow> nat" where
  "popped_tasks (Processing batch n) = length batch + n"
| "popped_tasks _ = 0"

fun unprocessed :: "'a runner \<Rightarrow> 'a list" where
  "unprocessed (Processing batch n) = batch"
| "unprocessed _ = []"

definition actives :: "'a StrandImpl \<Rightarrow> nat" where
  "actives s = st_waking s + st_executing s + st_scheduled s + sum_list (map active (st_runners s))"

text \<open>
  The counter is the number of pushed tasks that have not been subtracted, less those whose
  push has not been counted yet, and the strand is active, on exactly one thread, when the
  counter is positive.
\<close>

definition strand_inv :: "'a StrandImpl \<Rightarrow> bool" where
  "strand_inv s \<longleftrightarrow>
     st_submitted s + int (st_adding s) =
       int (length (st_tasks s)) + int (sum_list (map popped_tasks (st_runners s))) \<and>
     actives s = (if st_submitted s > 0 then 1 else 0) \<and>
     st_refs s = (if st_owner s then 1 else 0) + int (st_executing s) + int (st_scheduled s) +
       int (sum_list (map references (st_runners s))) \<and>
     st_pushed s = st_done s @ concat (map unprocessed (st_runners s)) @ st_tasks s \<and>
     (\<not> st_owner s \<longrightarrow> st_adding s = 0 \<and> st_waking s = 0 \<and> st_executing s = 0) \<and>
     (st_deleted s \<longleftrightarrow> st_refs s = 0)"

lemma inactive_runners:
  "sum_list (map active rs) = 0 \<Longrightarrow> sum_list (map popped_tasks rs) = 0 \<and> concat (map unprocessed rs) = []"
proof (induction rs)
  case (Cons r rs)
  then show ?case by (cases r) auto
qed simp

lemma scheduled_facts:
  assumes inv: "strand_inv s" and sched: "st_scheduled s > 0"
  shows "st_tasks s \<noteq> []" and "concat (map unprocessed (st_runners s)) = []"
    and "sum_list (map popped_tasks (st_runners s)) = 0"
proof -
  from inv have eqs: "actives s = (if st_submitted s > 0 then 1 else 0)"
    "st_submitted s + int (st_adding s) =
       int (length (st_tasks s)) + int (sum_list (map popped_tasks (st_runners s)))"
    by (simp_all only: strand_inv_def)
  have pos: "st_submitted s > 0" using eqs(1) sched by (auto simp: actives_def split: if_splits)
  have "sum_list (map active (st_runners s)) = 0"
    using eqs(1) sched unfolding actives_def by (simp only: split: if_splits)
  note none = inactive_runners [OF this]
  with eqs(2) pos show "st_tasks s \<noteq> []" by auto
  from none show "concat (map unprocessed (st_runners s)) = []"
    and "sum_list (map popped_tasks (st_runners s)) = 0" by blast+
qed

lemma strand_init_inv: "strand_inv Strand_init"
  by (simp add: strand_inv_def Strand_init_def actives_def)

lemmas strand_ops = Refer_def Derefer_def Process_push_def Process_submit_def Process_refer_def
  Process_execute_def Task_pop_def ProcessBatch_step_def Task_subtract_def Task_refer_def
  Task_execute_def Task_derefer_def Owner_release_def

lemma strand_step_inv [inv_intro]: "strand_step s s' \<Longrightarrow> strand_inv s \<Longrightarrow> strand_inv s'"
proof (induction rule: strand_step.induct)
  case (pop s)
  note facts = scheduled_facts [OF pop(2,1)]
  have "strand_inv (s\<lparr>st_tasks := [], st_scheduled := st_scheduled s - 1,
      st_runners := st_runners s @ [Processing (st_tasks s) 0]\<rparr>)"
    using pop facts by (auto simp: strand_inv_def actives_def simp del: sum_list_eq_0_iff split: if_splits)
  with facts(1) show ?case by (simp add: Task_pop_def)
next
  case (process s rs task batch n rs')
  then have "sum_list (map active rs) = 0"
    by (auto simp: strand_inv_def actives_def simp del: sum_list_eq_0_iff split: if_splits)
  from inactive_runners [OF this] have "concat (map unprocessed rs) = []" by blast
  with process show ?case
    by (auto simp: strand_inv_def actives_def strand_ops simp del: concat_eq_Nil_conv sum_list_eq_0_iff)
next
  case (leave s rs rs')
  then show ?case by (auto simp: strand_inv_def actives_def strand_ops split: if_splits)
qed (auto simp: strand_inv_def actives_def strand_ops split: if_splits)

lemma strand_reach_inv: "strand_reach s \<Longrightarrow> strand_inv s"
  by (induction rule: strand_reach.induct) (auto intro: strand_init_inv strand_step_inv)

section \<open>Correctness\<close>

lemma active_exclusive:
  "sum_list (map active rs) \<le> 1 \<Longrightarrow> i < length rs \<Longrightarrow> j < length rs \<Longrightarrow>
   rs ! i = Processing b n \<Longrightarrow> rs ! j = Processing b' n' \<Longrightarrow> i = j"
proof (induction rs arbitrary: i j)
  case (Cons r rs)
  have none: "rs ! k \<noteq> Processing c m" if "sum_list (map active rs) = 0" and "k < length rs" for k c m
    using that by (metis active.simps(1) length_map nth_map nth_mem sum_list_eq_0_iff zero_neq_one)
  from Cons show ?case
    by (cases i; cases j) (auto simp del: sum_list_eq_0_iff dest: none)
qed simp

text \<open>C24. However the threads interleave, at most one thread of a strand is inside
  \<open>ProcessBatch\<close>, and a submission that the executor starts finds a task to process, so
  the early return that would skip \<open>Derefer\<close> is never taken.\<close>

theorem strand_exclusive:
  assumes "strand_reach s"
  shows "(\<forall>i < length (st_runners s). \<forall>j < length (st_runners s). \<forall>b n b' n'.
      st_runners s ! i = Processing b n \<longrightarrow> st_runners s ! j = Processing b' n' \<longrightarrow> i = j) \<and>
    (st_scheduled s > 0 \<longrightarrow> st_tasks s \<noteq> [])"
proof -
  have inv: "strand_inv s" using assms by (rule strand_reach_inv)
  then have "actives s \<le> 1" by (simp add: strand_inv_def)
  then have le: "sum_list (map active (st_runners s)) \<le> 1" unfolding actives_def by linarith
  have "st_tasks s \<noteq> []" if "st_scheduled s > 0" using inv that by (rule scheduled_facts)
  with active_exclusive [OF le] show ?thesis by blast
qed

text \<open>C25. A strand executes its tasks in the order of their pushes, each once, and when no
  call of \<open>Process\<close> and no run of the strand is under way, every pushed task has been
  executed: no wake-up is lost.\<close>

theorem strand_fifo_complete:
  assumes "strand_reach s"
  shows "(\<exists>rest. st_pushed s = st_done s @ rest) \<and>
    (st_adding s = 0 \<and> actives s = 0 \<longrightarrow> st_done s = st_pushed s)"
proof -
  have inv: "strand_inv s" using assms by (rule strand_reach_inv)
  have "st_done s = st_pushed s" if "st_adding s = 0" and "actives s = 0"
  proof -
    have "sum_list (map active (st_runners s)) = 0" using that(2) unfolding actives_def by linarith
    note none = inactive_runners [OF this]
    have "st_submitted s \<le> 0" using inv that(2) by (simp add: strand_inv_def split: if_splits)
    then have "st_tasks s = []" using inv none that(1) unfolding strand_inv_def by simp
    with inv none show ?thesis unfolding strand_inv_def by simp
  qed
  with inv show ?thesis by (auto simp: strand_inv_def)
qed

text \<open>C26. The strand is not freed while its owner, a caller, a submission or a runner refers
  to it, and once the owner is gone and the last runner has left it has been freed and has
  executed every task.\<close>

theorem strand_freed_exactly:
  assumes "strand_reach s"
  shows "(st_deleted s \<longleftrightarrow> \<not> st_owner s \<and> st_scheduled s = 0 \<and> st_runners s = []) \<and>
    (st_deleted s \<longrightarrow> st_done s = st_pushed s \<and> st_adding s = 0 \<and> st_waking s = 0 \<and> st_executing s = 0)"
proof -
  have inv: "strand_inv s" using assms by (rule strand_reach_inv)
  have refs: "sum_list (map references rs) = 0 \<longleftrightarrow> rs = []" for rs :: "'a runner list"
  proof (cases rs)
    case (Cons r rs')
    then show ?thesis by (cases r) auto
  qed simp
  from inv refs [of "st_runners s"] have *: "st_deleted s \<longleftrightarrow> \<not> st_owner s \<and> st_scheduled s = 0 \<and> st_runners s = []"
    by (auto simp: strand_inv_def simp del: sum_list_eq_0_iff)
  with inv show ?thesis
    by (auto simp: strand_inv_def actives_def split: if_splits)
qed

text \<open>A run of one task, up to the point where its runner is about to leave.\<close>

definition strand_demo :: "nat StrandImpl" where
  "strand_demo = Task_subtract [] 1 [] (ProcessBatch_step [] 7 [] 0 [] (Task_pop (Process_execute
     (Process_refer (Process_submit (Process_push 7 Strand_init))))))"

lemma strand_demo_reach: "strand_reach strand_demo"
  unfolding strand_demo_def
  by (rule strand_more [OF strand_more [OF strand_more [OF strand_more [OF strand_more [OF strand_more
    [OF strand_more [OF strand_start push] submit] refer] execute] pop] process] subtract])
    (simp_all add: Strand_init_def strand_ops Let_def)

lemma strand_demo_eqs:
  "st_runners strand_demo = [Leaving]" "st_pushed strand_demo = [7]" "st_adding strand_demo = 0"
  "actives strand_demo = 0" "st_scheduled strand_demo = 0" "st_owner strand_demo"
  by (simp_all add: strand_demo_def Strand_init_def strand_ops Let_def actives_def)

definition strand_demo_end :: "nat StrandImpl" where
  "strand_demo_end = Owner_release (Task_derefer [] [] strand_demo)"

lemma strand_demo_end_reach: "strand_reach strand_demo_end"
  unfolding strand_demo_end_def
  by (rule strand_more [OF strand_more [OF strand_demo_reach leave] release])
    (simp_all add: strand_demo_def Strand_init_def strand_ops Let_def)

definition strand_demo_scheduled :: "nat StrandImpl" where
  "strand_demo_scheduled = Process_execute (Process_refer (Process_submit (Process_push 7 Strand_init)))"

lemma strand_demo_scheduled_reach: "strand_reach strand_demo_scheduled"
  unfolding strand_demo_scheduled_def
  by (rule strand_more [OF strand_more [OF strand_more [OF strand_more [OF strand_start push] submit] refer] execute])
    (simp_all add: Strand_init_def strand_ops Let_def)

theorem strand_exclusive_witness: "st_scheduled strand_demo_scheduled > 0 \<and> st_tasks strand_demo_scheduled \<noteq> []"
proof -
  have "st_scheduled strand_demo_scheduled > 0" by (simp add: strand_demo_scheduled_def Strand_init_def strand_ops Let_def)
  with strand_exclusive [OF strand_demo_scheduled_reach] show ?thesis by blast
qed

theorem strand_fifo_complete_witness: "st_done strand_demo = [7]"
  using strand_fifo_complete [OF strand_demo_reach] by (simp add: strand_demo_eqs)

theorem strand_freed_exactly_witness: "st_deleted strand_demo_end \<and> st_done strand_demo_end = [7]"
  using strand_freed_exactly [OF strand_demo_end_reach]
  by (simp add: strand_demo_end_def strand_demo_def Strand_init_def strand_ops Let_def)
end
