(* ===== verification/Rendezvous.thy ===== *)
theory Rendezvous
  imports Broadcast_Prelude
begin

text \<open>
  The meeting of two threads in \<open>include/concurrency/rendezvous.hpp\<close>: both exchange the
  flag, and the one that comes second goes on. The locale \<open>rendezvous\<close> states the
  protocol that a user of the flag follows, for the shared state of a promise and its future
  (theory \<open>Futures\<close>) and for \<open>include/io/fiber_sleeper.hpp\<close>, which is modelled
  here: a timer and a fiber that suspends itself until the timer fires.
\<close>

section \<open>The flag and its protocol\<close>

text \<open>\<open>Producer\<close> and \<open>Consumer\<close> are the same exchange.\<close>

definition Rendezvous_meet :: "bool \<Rightarrow> bool \<times> bool" where
  "Rendezvous_meet state = (state, True)"

text \<open>
  Where one of the two parties is: not started; its data is stored; it came second and is
  about to run the continuation; returned.
\<close>

datatype party = NotStarted | Stored | Won | Returned

definition past_exchange :: "party \<Rightarrow> bool" where
  "past_exchange p \<longleftrightarrow> p = Won \<or> p = Returned"

definition after_meet :: "bool \<Rightarrow> party" where
  "after_meet other = (if other then Won else Returned)"

text \<open>The view of a user: the flag, the two parties, and how often the continuation ran.\<close>

type_synonym meeting = "bool \<times> party \<times> party \<times> nat"

inductive meet_step :: "meeting \<Rightarrow> meeting \<Rightarrow> bool" where
  p_store: "meet_step (m, NotStarted, c, n) (m, Stored, c, n)"
| c_store: "meet_step (m, p, NotStarted, n) (m, p, Stored, n)"
| p_meet: "\<not> past_exchange p \<Longrightarrow> meet_step (m, p, c, n) (True, after_meet m, c, n)"
| c_meet: "\<not> past_exchange c \<Longrightarrow> meet_step (m, p, c, n) (True, p, after_meet m, n)"
| p_run: "meet_step (m, Won, c, n) (m, Returned, c, Suc n)"
| c_run: "meet_step (m, p, Won, n) (m, p, Returned, Suc n)"

definition meet_inv :: "meeting \<Rightarrow> bool" where
  "meet_inv v = (case v of (m, p, c, n) \<Rightarrow>
     (m \<longleftrightarrow> past_exchange p \<or> past_exchange c) \<and> (p = Won \<longrightarrow> c = Returned) \<and> (c = Won \<longrightarrow> p = Returned) \<and>
     n = (if p = Returned \<and> c = Returned then 1 else 0))"

lemma meet_step_inv [inv_intro]: "meet_step v v' \<Longrightarrow> meet_inv v \<Longrightarrow> meet_inv v'"
  by (induction rule: meet_step.induct) (auto simp: meet_inv_def past_exchange_def after_meet_def)

locale rendezvous =
  fixes view :: "'s \<Rightarrow> meeting"
    and step :: "'s \<Rightarrow> 's \<Rightarrow> bool"
    and init :: 's
  assumes view_init: "view init = (False, NotStarted, NotStarted, 0)"
    and view_step: "step s s' \<Longrightarrow> meet_step (view s) (view s')"
begin

lemma view_inv: "step\<^sup>*\<^sup>* init s \<Longrightarrow> meet_inv (view s)"
proof (induction rule: rtranclp_induct)
  case base
  show ?case by (simp add: view_init meet_inv_def past_exchange_def)
next
  case (step s s')
  then show ?case by (blast intro: meet_step_inv view_step)
qed

lemma runs_once:
  assumes "step\<^sup>*\<^sup>* init s" and "view s = (m, p, c, n)"
  shows "n = (if p = Returned \<and> c = Returned then 1 else 0)" and "p = Won \<Longrightarrow> c = Returned"
    and "c = Won \<Longrightarrow> p = Returned"
  using view_inv [OF assms(1)] assms(2) by (auto simp: meet_inv_def)

end

section \<open>\<open>FiberSleeper\<close>\<close>

text \<open>
  \<open>fs_fiber\<close> is \<open>None\<close> until \<open>Suspend\<close> stores the fiber: the member has no
  initial value. \<open>fs_scheduled\<close> lists the calls of \<open>Fiber::Schedule\<close>.
\<close>

record FiberSleeper =
  fs_fiber :: "nat option"
  fs_rendezvous :: bool
  fs_suspend :: party
  fs_fire :: party
  fs_scheduled :: "nat list"

definition FiberSleeper_init :: FiberSleeper where
  "FiberSleeper_init = \<lparr>fs_fiber = None, fs_rendezvous = False, fs_suspend = NotStarted, fs_fire = NotStarted,
     fs_scheduled = []\<rparr>"

definition Reschedule :: "FiberSleeper \<Rightarrow> fault + FiberSleeper" where
  "Reschedule s =
     (case fs_fiber s of
        None \<Rightarrow> Inl AssertFailed
      | Some f \<Rightarrow> Inr (s\<lparr>fs_scheduled := fs_scheduled s @ [f]\<rparr>))"

definition Suspend_store :: "nat \<Rightarrow> FiberSleeper \<Rightarrow> FiberSleeper" where
  "Suspend_store fiber s = s\<lparr>fs_fiber := Some fiber, fs_suspend := Stored\<rparr>"

definition Suspend_meet :: "FiberSleeper \<Rightarrow> FiberSleeper" where
  "Suspend_meet s =
     (let (other, state) = Rendezvous_meet (fs_rendezvous s)
      in s\<lparr>fs_rendezvous := state, fs_suspend := after_meet other\<rparr>)"

definition Suspend_reschedule :: "FiberSleeper \<Rightarrow> fault + FiberSleeper" where
  "Suspend_reschedule s = fbind (Reschedule s) (\<lambda>s. Inr (s\<lparr>fs_suspend := Returned\<rparr>))"

definition Fire_meet :: "FiberSleeper \<Rightarrow> FiberSleeper" where
  "Fire_meet s =
     (let (other, state) = Rendezvous_meet (fs_rendezvous s)
      in s\<lparr>fs_rendezvous := state, fs_fire := after_meet other\<rparr>)"

definition Fire_reschedule :: "FiberSleeper \<Rightarrow> fault + FiberSleeper" where
  "Fire_reschedule s = fbind (Reschedule s) (\<lambda>s. Inr (s\<lparr>fs_fire := Returned\<rparr>))"

lemmas fs_ops = FiberSleeper_init_def Reschedule_def Suspend_store_def Suspend_meet_def Suspend_reschedule_def
  Fire_meet_def Fire_reschedule_def Rendezvous_meet_def

text \<open>Fiber \<open>f\<close> suspends itself once and the timer fires once, on any threads.\<close>

inductive fs_step :: "nat \<Rightarrow> FiberSleeper \<Rightarrow> FiberSleeper \<Rightarrow> bool" for f where
  suspend_store: "fs_suspend s = NotStarted \<Longrightarrow> fs_step f s (Suspend_store f s)"
| suspend_meet: "fs_suspend s = Stored \<Longrightarrow> fs_step f s (Suspend_meet s)"
| suspend_run: "\<lbrakk>fs_suspend s = Won; Suspend_reschedule s = Inr s'\<rbrakk> \<Longrightarrow> fs_step f s s'"
| fire_meet: "fs_fire s = NotStarted \<Longrightarrow> fs_step f s (Fire_meet s)"
| fire_run: "\<lbrakk>fs_fire s = Won; Fire_reschedule s = Inr s'\<rbrakk> \<Longrightarrow> fs_step f s s'"

definition fs_view :: "FiberSleeper \<Rightarrow> meeting" where
  "fs_view s = (fs_rendezvous s, fs_suspend s, fs_fire s, length (fs_scheduled s))"

lemma fs_view_step: "fs_step f s s' \<Longrightarrow> meet_step (fs_view s) (fs_view s')"
proof (induction rule: fs_step.induct)
  case (suspend_run s s')
  then show ?case by (auto simp: fs_view_def fs_ops intro: meet_step.intros split: option.splits)
next
  case (fire_run s s')
  then show ?case by (auto simp: fs_view_def fs_ops intro: meet_step.intros split: option.splits)
qed (auto simp: fs_view_def fs_ops past_exchange_def intro: meet_step.intros)

interpretation sleeper: rendezvous fs_view "fs_step f" FiberSleeper_init for f
proof
  show "fs_view FiberSleeper_init = (False, NotStarted, NotStarted, 0)"
    by (simp add: fs_view_def FiberSleeper_init_def)
qed (rule fs_view_step)

lemma fs_fiber_known:
  "(fs_step f)\<^sup>*\<^sup>* FiberSleeper_init s \<Longrightarrow>
   set (fs_scheduled s) \<subseteq> {f} \<and> fs_fiber s = (if fs_suspend s = NotStarted then None else Some f)"
proof (induction rule: rtranclp_induct)
  case base
  then show ?case by (simp add: FiberSleeper_init_def)
next
  case (step s s')
  from step(2,3) show ?case
    by (induction rule: fs_step.induct) (auto simp: fs_ops after_meet_def split: option.splits if_splits)
qed

text \<open>A fiber that sleeps until its timer fires is scheduled exactly once, however the
  suspension of the fiber and the timer interleave: not before both have reached the meeting
  point, and by the time both have returned. The assertion that the fiber is known never
  fails.\<close>

lemma sleeping_fiber_woken_once:
  assumes "(fs_step f)\<^sup>*\<^sup>* FiberSleeper_init s"
  shows "fs_scheduled s = (if fs_suspend s = Returned \<and> fs_fire s = Returned then [f] else []) \<and>
    (fs_suspend s = Won \<longrightarrow> (\<exists>s'. Suspend_reschedule s = Inr s')) \<and>
    (fs_fire s = Won \<longrightarrow> (\<exists>s'. Fire_reschedule s = Inr s'))"
proof -
  note run = sleeper.runs_once [OF assms fs_view_def] and known = fs_fiber_known [OF assms]
  have "fs_scheduled s = replicate (length (fs_scheduled s)) f"
    using known by (intro replicate_eqI) auto
  with run known show ?thesis by (auto simp: fs_ops split: option.splits)
qed

text \<open>The timer fires before the fiber has suspended itself.\<close>

definition fs_demo :: FiberSleeper where
  "fs_demo = Suspend_meet (Suspend_store 5 (Fire_meet FiberSleeper_init))"

lemma fs_demo_reach: "(fs_step 5)\<^sup>*\<^sup>* FiberSleeper_init fs_demo"
proof -
  have "fs_step 5 FiberSleeper_init (Fire_meet FiberSleeper_init)"
    by (rule fs_step.fire_meet) (simp add: fs_ops)
  moreover have "fs_step 5 (Fire_meet FiberSleeper_init) (Suspend_store 5 (Fire_meet FiberSleeper_init))"
    by (rule fs_step.suspend_store) (simp add: fs_ops)
  moreover have "fs_step 5 (Suspend_store 5 (Fire_meet FiberSleeper_init)) fs_demo"
    unfolding fs_demo_def by (rule fs_step.suspend_meet) (simp add: fs_ops)
  ultimately show ?thesis by (meson converse_rtranclp_into_rtranclp r_into_rtranclp)
qed

lemma sleeping_fiber_woken_once_witness:
  "fs_suspend fs_demo = Won \<and> fs_scheduled fs_demo = [] \<and> (\<exists>s. Suspend_reschedule fs_demo = Inr s \<and> fs_scheduled s = [5])"
proof -
  have won: "fs_suspend fs_demo = Won" by (simp add: fs_demo_def fs_ops after_meet_def)
  with sleeping_fiber_woken_once [OF fs_demo_reach] obtain s where s: "Suspend_reschedule fs_demo = Inr s"
    and none: "fs_scheduled fs_demo = []" by auto
  from s have "fs_step 5 fs_demo s" using won by (rule fs_step.suspend_run [rotated])
  with fs_demo_reach have "(fs_step 5)\<^sup>*\<^sup>* FiberSleeper_init s" by (rule rtranclp.rtrancl_into_rtrancl)
  from sleeping_fiber_woken_once [OF this] s won none show ?thesis
    by (auto simp: fs_demo_def fs_ops after_meet_def)
qed

end
