(* ===== verification/Futures.thy ===== *)
theory Futures
  imports Rendezvous Fiber_Sync
begin

text \<open>
  Results, promises and futures: \<open>include/util/result.hpp\<close> and \<open>rendezvous.hpp\<close>,
  \<open>shared_state.hpp\<close>, \<open>promise.hpp\<close>, \<open>future.hpp\<close>, \<open>combine.hpp\<close> of
  \<open>include/concurrency\<close>. The shared state of a contract is modelled with the accesses of
  the producing and the consuming thread interleaved; the combinators are functions on their
  state, applied in the order in which the input futures complete.
\<close>

section \<open>Results\<close>

text \<open>
  A result is a variant of an error code and a value; the default-constructed one holds the
  default error code. Reading the other alternative throws.
\<close>

type_synonym error_code = int

datatype 'a Result = Err error_code | Ok 'a

definition default_result :: "'a Result" where
  "default_result = Err 0"

definition Result_of_value :: "'a \<Rightarrow> 'a Result" where
  "Result_of_value v = Ok v"

definition Result_of_error :: "error_code \<Rightarrow> 'a Result" where
  "Result_of_error ec = Err ec"

definition HasValue :: "'a Result \<Rightarrow> bool" where
  "HasValue r = (case r of Ok _ \<Rightarrow> True | Err _ \<Rightarrow> False)"

definition HasError :: "'a Result \<Rightarrow> bool" where
  "HasError r = (case r of Ok _ \<Rightarrow> False | Err _ \<Rightarrow> True)"

definition Value :: "'a Result \<Rightarrow> fault + 'a" where
  "Value r = (case r of Ok v \<Rightarrow> Inr v | Err _ \<Rightarrow> Inl BadVariantAccess)"

definition Error :: "'a Result \<Rightarrow> fault + error_code" where
  "Error r = (case r of Ok _ \<Rightarrow> Inl BadVariantAccess | Err e \<Rightarrow> Inr e)"

definition Result_SetValue :: "'a \<Rightarrow> 'a Result \<Rightarrow> 'a Result" where
  "Result_SetValue v r = Ok v"

definition Result_SetError :: "error_code \<Rightarrow> 'a Result \<Rightarrow> 'a Result" where
  "Result_SetError ec r = Err ec"

text \<open>The errors of the program's own category, as codes and as text.\<close>

datatype Error_enum = internal

definition make_error_code :: "Error_enum \<Rightarrow> error_code" where
  "make_error_code e = (case e of internal \<Rightarrow> 1)"

definition make_error_condition :: "Error_enum \<Rightarrow> int" where
  "make_error_condition e = (case e of internal \<Rightarrow> 1)"

definition error_name :: string where
  "error_name = ''Error''"

definition error_message :: "int \<Rightarrow> string" where
  "error_message ev = (if ev = 1 then ''Internal error'' else ''Unknown error'')"

lemmas result_simps = HasValue_def HasError_def Value_def Error_def

section \<open>The shared state of a contract\<close>

text \<open>
  Executors are numbered, \<open>JustExecute\<close> runs a task at once on the calling thread; a null
  pointer is \<open>None\<close>, as is an empty \<open>std::function\<close>. \<open>ss_runs\<close> lists the
  callbacks handed to an executor, each with the executor and its result. \<open>ss_freed\<close> is
  set by \<open>delete this\<close>.
\<close>

type_synonym executor = nat

definition JustExecute :: "executor option" where
  "JustExecute = Some 0"

record ('c, 'a) SharedState =
  ss_result :: "'a Result"
  ss_rendezvous :: bool
  ss_callback :: "'c option"
  ss_executor :: "executor option"
  ss_freed :: bool
  ss_producer :: party
  ss_consumer :: party
  ss_runs :: "(executor \<times> 'c option \<times> 'a Result) list"

definition SharedState_init :: "('c, 'a) SharedState" where
  "SharedState_init = \<lparr>ss_result = default_result, ss_rendezvous = False, ss_callback = None,
     ss_executor = JustExecute, ss_freed = False, ss_producer = NotStarted, ss_consumer = NotStarted, ss_runs = []\<rparr>"

definition SetExecutor :: "executor option \<Rightarrow> ('c, 'a) SharedState \<Rightarrow> ('c, 'a) SharedState" where
  "SetExecutor executor s = s\<lparr>ss_executor := executor\<rparr>"

definition DoCallback :: "('c, 'a) SharedState \<Rightarrow> fault + ('c, 'a) SharedState" where
  "DoCallback s =
     (case ss_executor s of
        None \<Rightarrow> Inl AssertFailed
      | Some e \<Rightarrow> Inr (s\<lparr>ss_runs := ss_runs s @ [(e, ss_callback s, ss_result s)], ss_callback := None, ss_freed := True\<rparr>))"

definition Produce_store :: "'a Result \<Rightarrow> ('c, 'a) SharedState \<Rightarrow> ('c, 'a) SharedState" where
  "Produce_store r s = s\<lparr>ss_result := r, ss_producer := Stored\<rparr>"

definition Produce_exchange :: "('c, 'a) SharedState \<Rightarrow> ('c, 'a) SharedState" where
  "Produce_exchange s =
     (let (other, state) = Rendezvous_meet (ss_rendezvous s)
      in s\<lparr>ss_rendezvous := state, ss_producer := (if other then Won else Returned)\<rparr>)"

definition Produce_callback :: "('c, 'a) SharedState \<Rightarrow> fault + ('c, 'a) SharedState" where
  "Produce_callback s = fbind (DoCallback s) (\<lambda>s. Inr (s\<lparr>ss_producer := Returned\<rparr>))"

definition Consume_store :: "'c \<Rightarrow> ('c, 'a) SharedState \<Rightarrow> ('c, 'a) SharedState" where
  "Consume_store c s = s\<lparr>ss_callback := Some c, ss_consumer := Stored\<rparr>"

definition Consume_exchange :: "('c, 'a) SharedState \<Rightarrow> ('c, 'a) SharedState" where
  "Consume_exchange s =
     (let (other, state) = Rendezvous_meet (ss_rendezvous s)
      in s\<lparr>ss_rendezvous := state, ss_consumer := (if other then Won else Returned)\<rparr>)"

definition Consume_callback :: "('c, 'a) SharedState \<Rightarrow> fault + ('c, 'a) SharedState" where
  "Consume_callback s = fbind (DoCallback s) (\<lambda>s. Inr (s\<lparr>ss_consumer := Returned\<rparr>))"

lemmas ss_ops = Rendezvous_meet_def SetExecutor_def DoCallback_def Produce_store_def Produce_exchange_def
  Produce_callback_def Consume_store_def Consume_exchange_def Consume_callback_def

text \<open>
  A contract has one promise, which is set once with \<open>r\<close>, and one future, consumed once
  with \<open>c\<close>. The executor is chosen through the future, before it is consumed; it is the
  only choice of the run, so it appears in the state.
\<close>

inductive ss_step :: "'c \<Rightarrow> 'a Result \<Rightarrow> ('c, 'a) SharedState \<Rightarrow> ('c, 'a) SharedState \<Rightarrow> bool" for c r where
  produce_store: "ss_producer s = NotStarted \<Longrightarrow> ss_step c r s (Produce_store r s)"
| produce_exchange: "ss_producer s = Stored \<Longrightarrow> ss_step c r s (Produce_exchange s)"
| produce_callback: "\<lbrakk>ss_producer s = Won; Produce_callback s = Inr s'\<rbrakk> \<Longrightarrow> ss_step c r s s'"
| consume_store: "ss_consumer s = NotStarted \<Longrightarrow> ss_step c r s (Consume_store c s)"
| consume_exchange: "ss_consumer s = Stored \<Longrightarrow> ss_step c r s (Consume_exchange s)"
| consume_callback: "\<lbrakk>ss_consumer s = Won; Consume_callback s = Inr s'\<rbrakk> \<Longrightarrow> ss_step c r s s'"

definition contract :: "executor option \<Rightarrow> ('c, 'a) SharedState" where
  "contract e = SetExecutor e SharedState_init"

definition ss_view :: "('c, 'a) SharedState \<Rightarrow> meeting" where
  "ss_view s = (ss_rendezvous s, ss_producer s, ss_consumer s, length (ss_runs s))"

lemma ss_view_step: "ss_step c r s s' \<Longrightarrow> meet_step (ss_view s) (ss_view s')"
proof (induction rule: ss_step.induct)
  case (produce_callback s s')
  then show ?case by (auto simp: ss_view_def ss_ops intro: meet_step.intros split: option.splits)
next
  case (consume_callback s s')
  then show ?case by (auto simp: ss_view_def ss_ops intro: meet_step.intros split: option.splits)
qed (auto simp: ss_view_def ss_ops past_exchange_def after_meet_def [symmetric] intro: meet_step.intros)

interpretation shared_state: rendezvous ss_view "ss_step c r" "contract e" for c r e
proof
  show "ss_view (contract e) = (False, NotStarted, NotStarted, 0)"
    by (simp add: ss_view_def contract_def SetExecutor_def SharedState_init_def)
qed (rule ss_view_step)

text \<open>What the protocol leaves to say: the data that the continuation finds.\<close>

definition ss_data :: "'c \<Rightarrow> 'a Result \<Rightarrow> executor option \<Rightarrow> ('c, 'a) SharedState \<Rightarrow> bool" where
  "ss_data c r e s \<longleftrightarrow> ss_executor s = e \<and>
     (ss_producer s \<noteq> NotStarted \<longrightarrow> ss_result s = r) \<and>
     (ss_consumer s \<noteq> NotStarted \<and> ss_runs s = [] \<longrightarrow> ss_callback s = Some c) \<and>
     (\<forall>x \<in> set (ss_runs s). e \<noteq> None \<and> x = (the e, Some c, r)) \<and> (ss_freed s \<longleftrightarrow> ss_runs s \<noteq> [])"

lemma ss_data_step:
  assumes "ss_step c r s s'" and "meet_inv (ss_view s)" and "ss_data c r e s"
  shows "ss_data c r e s'"
  using assms
proof (induction rule: ss_step.induct)
  case (produce_callback s s')
  then have "ss_runs s = []" "ss_consumer s = Returned" by (auto simp: meet_inv_def ss_view_def)
  with produce_callback show ?case by (auto simp: ss_data_def ss_ops split: option.splits)
next
  case (consume_callback s s')
  then have "ss_runs s = []" "ss_producer s = Returned" by (auto simp: meet_inv_def ss_view_def)
  with consume_callback show ?case by (auto simp: ss_data_def ss_ops split: option.splits)
qed (auto simp: ss_data_def ss_ops meet_inv_def ss_view_def split: if_splits)

lemma ss_reach_data: "(ss_step c r)\<^sup>*\<^sup>* (contract e) s \<Longrightarrow> ss_data c r e s"
proof (induction rule: rtranclp_induct)
  case base
  then show ?case by (simp add: ss_data_def contract_def SetExecutor_def SharedState_init_def)
next
  case (step s s')
  then show ?case using shared_state.view_inv [OF step(1)] by (blast intro: ss_data_step)
qed

text \<open>C29. In every interleaving of setting the promise and consuming the future, the
  callback is handed to the executor that was chosen at most once, with the result that was
  set; the shared state is freed exactly then, when both calls are past their last access.
  When both calls have returned the callback has been handed over, and the call that comes
  second does so unless the executor is a null pointer.\<close>

theorem future_callback_once:
  assumes "(ss_step c r)\<^sup>*\<^sup>* (contract e) s"
  shows "ss_runs s = (if ss_producer s = Returned \<and> ss_consumer s = Returned then [(the e, Some c, r)] else []) \<and>
    (ss_freed s \<longleftrightarrow> ss_producer s = Returned \<and> ss_consumer s = Returned) \<and>
    (ss_producer s = Won \<longrightarrow> (e \<noteq> None \<longleftrightarrow> (\<exists>s'. Produce_callback s = Inr s'))) \<and>
    (ss_consumer s = Won \<longrightarrow> (e \<noteq> None \<longleftrightarrow> (\<exists>s'. Consume_callback s = Inr s')))"
proof -
  note run = shared_state.runs_once [OF assms ss_view_def] and data = ss_reach_data [OF assms]
  have "ss_runs s = replicate (length (ss_runs s)) (the e, Some c, r)"
    using data by (intro replicate_eqI) (auto simp: ss_data_def)
  then have "ss_runs s = (if ss_producer s = Returned \<and> ss_consumer s = Returned then [(the e, Some c, r)] else [])"
    using run(1) by simp
  moreover have "ss_freed s \<longleftrightarrow> ss_runs s \<noteq> []" and "ss_executor s = e" using data by (simp_all add: ss_data_def)
  ultimately show ?thesis by (auto simp: ss_ops split: option.splits)
qed

text \<open>The consumer comes first, the producer runs the callback on executor 7.\<close>

definition ss_demo :: "(nat, nat) SharedState" where
  "ss_demo = Produce_exchange (Produce_store (Ok 4) (Consume_exchange (Consume_store 9 (contract (Some 7)))))"

lemma ss_demo_reach: "(ss_step 9 (Ok 4))\<^sup>*\<^sup>* (contract (Some 7)) ss_demo"
proof -
  let ?s1 = "Consume_store 9 (contract (Some 7)) :: (nat, nat) SharedState"
  note eval = contract_def SharedState_init_def ss_ops
  have "ss_step 9 (Ok 4) (contract (Some 7)) ?s1" by (rule consume_store) (simp add: eval)
  moreover have "ss_step 9 (Ok 4) ?s1 (Consume_exchange ?s1)" by (rule consume_exchange) (simp add: eval)
  moreover have "ss_step 9 (Ok 4) (Consume_exchange ?s1) (Produce_store (Ok 4) (Consume_exchange ?s1))"
    by (rule produce_store) (simp add: eval)
  moreover have "ss_step 9 (Ok 4) (Produce_store (Ok 4) (Consume_exchange ?s1)) ss_demo"
    unfolding ss_demo_def by (rule produce_exchange) (simp add: eval)
  ultimately show ?thesis by (meson converse_rtranclp_into_rtranclp r_into_rtranclp)
qed

theorem future_callback_once_witness:
  "ss_runs ss_demo = [] \<and> (\<exists>s. Produce_callback ss_demo = Inr s \<and> ss_runs s = [(7, Some 9, Ok 4)] \<and> ss_freed s)"
proof -
  have won: "ss_producer ss_demo = Won" "ss_consumer ss_demo = Returned"
    by (simp_all add: ss_demo_def contract_def SharedState_init_def ss_ops)
  with future_callback_once [OF ss_demo_reach] obtain s where none: "ss_runs ss_demo = []"
    and s: "Produce_callback ss_demo = Inr s" by auto
  with won have "ss_step 9 (Ok 4) ss_demo s" by (intro produce_callback)
  with ss_demo_reach have "(ss_step 9 (Ok 4))\<^sup>*\<^sup>* (contract (Some 7)) s" by (rule rtranclp.rtrancl_into_rtrancl)
  moreover have "ss_producer s = Returned" "ss_consumer s = Returned"
    using s won by (auto simp: ss_ops split: option.splits)
  ultimately show ?thesis using future_callback_once [of 9 "Ok 4" "Some 7" s] none s by simp
qed

section \<open>Continuations\<close>

text \<open>
  The callbacks that \<open>Then\<close> and \<open>Else\<close> consume their future with: what they set the
  new promise to.
\<close>

definition Then_callback :: "('a \<Rightarrow> 'b Result) \<Rightarrow> 'a Result \<Rightarrow> fault + 'b Result" where
  "Then_callback function result =
     (if HasValue result then fbind (Value result) (\<lambda>v. Inr (function v))
      else fbind (Error result) (\<lambda>e. Inr (Err e)))"

definition Else_callback :: "(error_code \<Rightarrow> 'a Result) \<Rightarrow> 'a Result \<Rightarrow> fault + 'a Result" where
  "Else_callback function result =
     (if HasValue result then Inr result else fbind (Error result) (\<lambda>e. Inr (function e)))"

lemma Then_callback_simps [simp]:
  "Then_callback f (Ok v) = Inr (f v)"
  "Then_callback f (Err e) = Inr (Err e)"
  by (simp_all add: Then_callback_def result_simps)

lemma Else_callback_simps [simp]:
  "Else_callback f (Ok v) = Inr (Ok v)"
  "Else_callback f (Err e) = Inr (f e)"
  by (simp_all add: Else_callback_def result_simps)

text \<open>Chaining: the continuations of a chain of \<open>Then\<close> compose, and none of them throws.\<close>

lemma Then_assoc:
  "fbind (Then_callback f r) (Then_callback g) = Then_callback (\<lambda>v. case f v of Ok w \<Rightarrow> g w | Err e \<Rightarrow> Err e) r"
  by (cases r) (auto split: Result.splits)

section \<open>Operations on futures\<close>

text \<open>
  \<open>Via\<close> chooses the executor; \<open>Then\<close> and \<open>Else\<close> give the new contract the
  executor of the old one; \<open>JustValue\<close> makes a contract whose promise
  is already set; \<open>Detach\<close> consumes the future with a callback that does nothing.
\<close>

definition Via :: "executor option \<Rightarrow> ('c, 'a) SharedState \<Rightarrow> ('c, 'a) SharedState" where
  "Via executor s = SetExecutor executor s"

definition Then_contract :: "('c, 'a) SharedState \<Rightarrow> ('d, 'b) SharedState" where
  "Then_contract s = SetExecutor (ss_executor s) SharedState_init"

text \<open>\<open>Produce\<close> and \<open>Consume\<close> as calls that nothing interrupts.\<close>

definition Produce :: "'a Result \<Rightarrow> ('c, 'a) SharedState \<Rightarrow> fault + ('c, 'a) SharedState" where
  "Produce r s =
     (let s = Produce_exchange (Produce_store r s)
      in if ss_producer s = Won then Produce_callback s else Inr s)"

definition Consume :: "'c \<Rightarrow> ('c, 'a) SharedState \<Rightarrow> fault + ('c, 'a) SharedState" where
  "Consume c s =
     (let s = Consume_exchange (Consume_store c s)
      in if ss_consumer s = Won then Consume_callback s else Inr s)"

definition JustValue :: "'a \<Rightarrow> fault + ('c, 'a) SharedState" where
  "JustValue v = Produce (Ok v) SharedState_init"

text \<open>
  The callbacks that the library itself consumes a future with: the empty one of
  \<open>Detach\<close>, and the one of \<open>Get\<close>, which stores the result in the frame of the waiting
  thread and calls \<open>Done\<close>.
\<close>

datatype future_callback = Nothing | StoreAndDone

definition Detach :: "(future_callback, 'a) SharedState \<Rightarrow> fault + (future_callback, 'a) SharedState" where
  "Detach s = Consume Nothing (SetExecutor JustExecute s)"

record 'a get_frame =
  gf_placeholder :: "'a Result"
  gf_wg :: u32

definition Get_begin :: "(future_callback, 'a) SharedState \<Rightarrow> 'a get_frame \<times> (fault + (future_callback, 'a) SharedState)" where
  "Get_begin s =
     (\<lparr>gf_placeholder = default_result, gf_wg = WaitGroup_Add 1 0\<rparr>, Consume StoreAndDone (SetExecutor JustExecute s))"

definition run_callback :: "future_callback \<Rightarrow> 'a Result \<Rightarrow> 'a get_frame \<Rightarrow> bool \<times> 'a get_frame" where
  "run_callback cb result frame =
     (case cb of
        Nothing \<Rightarrow> (False, frame)
      | StoreAndDone \<Rightarrow>
          let frame = frame\<lparr>gf_placeholder := result\<rparr>; (wake, count) = WaitGroup_Done 1 (gf_wg frame)
          in (wake, frame\<lparr>gf_wg := count\<rparr>))"

text \<open>\<open>None\<close> is a thread that still waits.\<close>

definition Get_wait :: "'a get_frame \<Rightarrow> 'a Result option" where
  "Get_wait frame = (if gf_wg frame \<noteq> 0 then None else Some (gf_placeholder frame))"

definition Get :: "'a get_frame \<Rightarrow> (future_callback, 'a) SharedState \<Rightarrow> 'a Result option" where
  "Get frame s = Get_wait (fold (\<lambda>(e, cb, r) fr. snd (run_callback (the cb) r fr)) (ss_runs s) frame)"

lemma JustValue_eq:
  "JustValue v = Inr (SharedState_init\<lparr>ss_result := Ok v, ss_rendezvous := True, ss_producer := Returned\<rparr>)"
  by (simp add: JustValue_def Produce_def ss_ops SharedState_init_def)

lemma Consume_JustValue:
  "\<exists>s s'. JustValue v = Inr s \<and> Consume c s = Inr s' \<and> ss_runs s' = [(0, Some c, Ok v)] \<and> ss_freed s'"
  by (simp add: JustValue_eq Consume_def ss_ops SharedState_init_def JustExecute_def)

text \<open>\<open>Get\<close> waits until the promise has been set and then returns the result it was set with.\<close>

lemma Get_returns:
  assumes "(ss_step StoreAndDone r)\<^sup>*\<^sup>* (contract JustExecute) s"
  shows "Get (fst (Get_begin (contract e))) s =
    (if ss_producer s = Returned \<and> ss_consumer s = Returned then Some r else None)"
proof -
  have data: "ss_data StoreAndDone r JustExecute s" using assms by (rule ss_reach_data)
  note run = shared_state.runs_once(1) [OF assms ss_view_def]
  show ?thesis
  proof (cases "ss_producer s = Returned \<and> ss_consumer s = Returned")
    case True
    with run obtain x where "ss_runs s = [x]" by (cases "ss_runs s") auto
    with data have "ss_runs s = [(0, Some StoreAndDone, r)]" by (simp add: ss_data_def JustExecute_def)
    with True show ?thesis
      by (simp add: Get_def Get_begin_def Get_wait_def run_callback_def WaitGroup_Add_def WaitGroup_Done_def Let_def)
  next
    case False
    with run have "ss_runs s = []" by auto
    with False show ?thesis by (auto simp: Get_def Get_begin_def Get_wait_def WaitGroup_Add_def)
  qed
qed

text \<open>\<open>Async\<close>: the task handed to the executor sets the promise with what the function returns.\<close>

definition Async_task :: "(unit \<Rightarrow> 'a Result) \<Rightarrow> ('c, 'a) SharedState \<Rightarrow> fault + ('c, 'a) SharedState" where
  "Async_task function s = Produce (function ()) s"

section \<open>Promises\<close>

text \<open>
  A promise holds the shared state until it is set or moved from; \<open>Set\<close> on an empty
  promise does nothing. The second component is what is produced.
\<close>

type_synonym Promise = bool

definition Promise_Set :: "'a Result \<Rightarrow> Promise \<Rightarrow> Promise \<times> 'a Result list" where
  "Promise_Set r p = (if p then (False, [r]) else (p, []))"

definition Promise_SetValue :: "'a \<Rightarrow> Promise \<Rightarrow> Promise \<times> 'a Result list" where
  "Promise_SetValue v p = Promise_Set (Ok v) p"

definition Promise_SetError :: "error_code \<Rightarrow> Promise \<Rightarrow> Promise \<times> 'a Result list" where
  "Promise_SetError e p = Promise_Set (Err e) p"

section \<open>Combinators\<close>

record FirstCombinator =
  fc_counter :: u64
  fc_is_completed :: bool
  fc_promise :: Promise

definition First_SetValue :: "'a \<Rightarrow> FirstCombinator \<Rightarrow> FirstCombinator \<times> 'a Result list" where
  "First_SetValue v c =
     (if fc_is_completed c then (c, [])
      else let (p, out) = Promise_SetValue v (fc_promise c)
           in (c\<lparr>fc_is_completed := True, fc_promise := p\<rparr>, out))"

definition First_SetError :: "error_code \<Rightarrow> FirstCombinator \<Rightarrow> FirstCombinator \<times> 'a Result list" where
  "First_SetError e c =
     (let counter = fc_counter c; c = c\<lparr>fc_counter := counter - 1\<rparr> in
      if counter = 1 then
        if fc_is_completed c then (c, [])
        else let (p, out) = Promise_SetError e (fc_promise c)
             in (c\<lparr>fc_is_completed := True, fc_promise := p\<rparr>, out)
      else (c, []))"

record 'a AllCombinator =
  ac_results :: "'a list"
  ac_futures_number :: nat
  ac_promise :: Promise

definition All_SetValue :: "'a \<Rightarrow> 'a AllCombinator \<Rightarrow> 'a AllCombinator \<times> 'a list Result list" where
  "All_SetValue v c =
     (let c = c\<lparr>ac_results := ac_results c @ [v]\<rparr> in
      if length (ac_results c) = ac_futures_number c then
        let (p, out) = Promise_SetValue (ac_results c) (ac_promise c)
        in (c\<lparr>ac_promise := p, ac_results := (if ac_promise c then [] else ac_results c)\<rparr>, out)
      else (c, []))"

definition All_SetError :: "error_code \<Rightarrow> 'a AllCombinator \<Rightarrow> 'a AllCombinator \<times> 'a list Result list" where
  "All_SetError e c = (let (p, out) = Promise_SetError e (ac_promise c) in (c\<lparr>ac_promise := p\<rparr>, out))"

text \<open>
  \<open>Combine\<close>: the callback of an input future, and the callbacks of all of them in the
  order of completion. The combinators assert that there is an input.
\<close>

definition Combine_callback ::
    "('a \<Rightarrow> 's \<Rightarrow> 's \<times> 'r list) \<Rightarrow> (error_code \<Rightarrow> 's \<Rightarrow> 's \<times> 'r list) \<Rightarrow> 'a Result \<Rightarrow> 's \<Rightarrow> fault + ('s \<times> 'r list)" where
  "Combine_callback set_value set_error result c =
     (if HasValue result then fbind (Value result) (\<lambda>v. Inr (set_value v c))
      else fbind (Error result) (\<lambda>e. Inr (set_error e c)))"

fun Combine ::
    "('a \<Rightarrow> 's \<Rightarrow> 's \<times> 'r list) \<Rightarrow> (error_code \<Rightarrow> 's \<Rightarrow> 's \<times> 'r list) \<Rightarrow> 'a Result list \<Rightarrow> 's \<Rightarrow> fault + 'r list" where
  "Combine set_value set_error [] c = Inr []"
| "Combine set_value set_error (result # results) c =
     fbind (Combine_callback set_value set_error result c) (\<lambda>(c, out).
     fbind (Combine set_value set_error results c) (\<lambda>outs. Inr (out @ outs)))"

definition First :: "'a Result list \<Rightarrow> fault + 'a Result list" where
  "First inputs =
     (if inputs = [] then Inl AssertFailed
      else Combine First_SetValue First_SetError inputs
             \<lparr>fc_counter = of_nat (length inputs), fc_is_completed = False, fc_promise = True\<rparr>)"

definition All :: "'a Result list \<Rightarrow> fault + 'a list Result list" where
  "All inputs =
     (if inputs = [] then Inl AssertFailed
      else Combine All_SetValue All_SetError inputs
             \<lparr>ac_results = [], ac_futures_number = length inputs, ac_promise = True\<rparr>)"

section \<open>What the combined future completes with\<close>

fun all_spec :: "'a Result list \<Rightarrow> 'a list Result" where
  "all_spec [] = Ok []"
| "all_spec (Ok v # rs) = (case all_spec rs of Ok vs \<Rightarrow> Ok (v # vs) | Err e \<Rightarrow> Err e)"
| "all_spec (Err e # rs) = Err e"

fun first_spec :: "'a Result list \<Rightarrow> 'a Result" where
  "first_spec [] = default_result"
| "first_spec [r] = r"
| "first_spec (Ok v # rs) = Ok v"
| "first_spec (Err e # rs) = first_spec rs"

lemma Combine_callback_simps [simp]:
  "Combine_callback sv se (Ok v) c = Inr (sv v c)"
  "Combine_callback sv se (Err e) c = Inr (se e c)"
  by (simp_all add: Combine_callback_def result_simps)

lemmas promise_defs = Promise_SetValue_def Promise_SetError_def Promise_Set_def

lemma combinator_simps:
  "All_SetValue v \<lparr>ac_results = vs, ac_futures_number = n, ac_promise = p\<rparr> =
     (if Suc (length vs) = n
      then (\<lparr>ac_results = (if p then [] else vs @ [v]), ac_futures_number = n, ac_promise = False\<rparr>,
            if p then [Ok (vs @ [v])] else [])
      else (\<lparr>ac_results = vs @ [v], ac_futures_number = n, ac_promise = p\<rparr>, []))"
  "All_SetError e \<lparr>ac_results = vs, ac_futures_number = n, ac_promise = p\<rparr> =
     (\<lparr>ac_results = vs, ac_futures_number = n, ac_promise = False\<rparr>, if p then [Err e] else [])"
  "First_SetValue w \<lparr>fc_counter = m, fc_is_completed = d, fc_promise = p\<rparr> =
     (\<lparr>fc_counter = m, fc_is_completed = True, fc_promise = (d \<and> p)\<rparr>, if \<not> d \<and> p then [Ok w] else [])"
  "First_SetError e \<lparr>fc_counter = m, fc_is_completed = d, fc_promise = p\<rparr> =
     (\<lparr>fc_counter = m - 1, fc_is_completed = (d \<or> m = 1), fc_promise = (p \<and> (d \<or> m \<noteq> 1))\<rparr>,
      if m = 1 \<and> \<not> d \<and> p then [Err e] else [])"
  by (auto simp: All_SetValue_def All_SetError_def First_SetValue_def First_SetError_def promise_defs Let_def)

lemma All_after:
  "Combine All_SetValue All_SetError rs \<lparr>ac_results = vs, ac_futures_number = n, ac_promise = False\<rparr> = Inr []"
proof (induction rs arbitrary: vs)
  case (Cons r rs)
  then show ?case by (cases r) (auto simp: combinator_simps)
qed simp

lemma All_run:
  "rs \<noteq> [] \<Longrightarrow> Combine All_SetValue All_SetError rs
     \<lparr>ac_results = vs, ac_futures_number = length vs + length rs, ac_promise = True\<rparr> =
   Inr [case all_spec rs of Ok ws \<Rightarrow> Ok (vs @ ws) | Err e \<Rightarrow> Err e]"
proof (induction rs arbitrary: vs)
  case (Cons r rs)
  show ?case
  proof (cases r)
    case (Err e)
    then show ?thesis by (simp add: combinator_simps All_after)
  next
    case (Ok v)
    show ?thesis
    proof (cases "rs = []")
      case True
      with Ok show ?thesis by (simp add: combinator_simps)
    next
      case False
      with Ok Cons.IH [of "vs @ [v]"] show ?thesis by (simp add: combinator_simps split: Result.splits)
    qed
  qed
qed simp

lemma First_after:
  "Combine First_SetValue First_SetError rs \<lparr>fc_counter = n, fc_is_completed = True, fc_promise = p\<rparr> = Inr []"
proof (induction rs arbitrary: n)
  case (Cons r rs)
  then show ?case by (cases r) (auto simp: combinator_simps)
qed simp

lemma First_run:
  "rs \<noteq> [] \<Longrightarrow> length rs < 2 ^ 64 \<Longrightarrow> Combine First_SetValue First_SetError rs
     \<lparr>fc_counter = of_nat (length rs), fc_is_completed = False, fc_promise = True\<rparr> = Inr [first_spec rs]"
proof (induction rs rule: first_spec.induct)
  case (2 r)
  then show ?case by (cases r) (simp_all add: combinator_simps)
next
  case (3 v r rs)
  then show ?case
    by (subst Combine.simps) (simp add: combinator_simps First_after del: Combine.simps)
next
  case (4 e r rs)
  have "of_nat (length (Err e # r # rs)) \<noteq> (1 :: u64)"
  proof
    assume "of_nat (length (Err e # r # rs)) = (1 :: u64)"
    then have "unat (of_nat (length (Err e # r # rs)) :: u64) = 1" by simp
    with "4.prems" show False by (simp add: unat_of_nat del: of_nat_Suc)
  qed
  with 4 show ?case by (simp add: combinator_simps)
qed (simp_all add: combinator_simps First_after)



section \<open>Errors that arrive at the same time\<close>

text \<open>
  \<open>AllCombinator::SetError\<close> does not take the mutex. Two input futures that fail on
  different threads interleave inside \<open>Promise::Set\<close>: the test of \<open>shared_state_\<close>,
  the call of \<open>Produce\<close>, the reset of \<open>shared_state_\<close>.
\<close>

datatype setter = Testing error_code | Producing error_code | Resetting | SetterDone

record promise_race =
  pr_state :: Promise
  pr_setters :: "setter list"
  pr_produced :: "error_code list"

inductive race_step :: "promise_race \<Rightarrow> promise_race \<Rightarrow> bool" where
  test: "\<lbrakk>i < length (pr_setters s); pr_setters s ! i = Testing e\<rbrakk> \<Longrightarrow>
    race_step s (s\<lparr>pr_setters := (pr_setters s)[i := if pr_state s then Producing e else SetterDone]\<rparr>)"
| produce: "\<lbrakk>i < length (pr_setters s); pr_setters s ! i = Producing e\<rbrakk> \<Longrightarrow>
    race_step s (s\<lparr>pr_produced := pr_produced s @ [e], pr_setters := (pr_setters s)[i := Resetting]\<rparr>)"
| reset: "\<lbrakk>i < length (pr_setters s); pr_setters s ! i = Resetting\<rbrakk> \<Longrightarrow>
    race_step s (s\<lparr>pr_state := False, pr_setters := (pr_setters s)[i := SetterDone]\<rparr>)"

lemma concurrent_errors_produce_twice:
  "\<exists>s. race_step\<^sup>*\<^sup>* \<lparr>pr_state = True, pr_setters = [Testing 1, Testing 2], pr_produced = []\<rparr> s \<and>
     pr_produced s = [1, 2]"
proof -
  let ?s0 = "\<lparr>pr_state = True, pr_setters = [Testing 1, Testing 2], pr_produced = []\<rparr>"
  let ?s1 = "\<lparr>pr_state = True, pr_setters = [Producing 1, Testing 2], pr_produced = []\<rparr>"
  let ?s2 = "\<lparr>pr_state = True, pr_setters = [Producing 1, Producing 2], pr_produced = []\<rparr>"
  let ?s3 = "\<lparr>pr_state = True, pr_setters = [Resetting, Producing 2], pr_produced = [1]\<rparr>"
  let ?s4 = "\<lparr>pr_state = True, pr_setters = [Resetting, Resetting], pr_produced = [1, 2]\<rparr>"
  have "race_step ?s0 ?s1" using test [of 0 ?s0 1] by simp
  moreover have "race_step ?s1 ?s2" using test [of 1 ?s1 2] by simp
  moreover have "race_step ?s2 ?s3" using produce [of 0 ?s2 1] by simp
  moreover have "race_step ?s3 ?s4" using produce [of 1 ?s3 2] by simp
  ultimately have "race_step\<^sup>*\<^sup>* ?s0 ?s4" by (meson converse_rtranclp_into_rtranclp rtranclp.rtrancl_refl)
  then show ?thesis by (intro exI [of _ ?s4]) simp
qed
end
