(* ===== verification/Spin_Lock.thy ===== *)
theory Spin_Lock
  imports Broadcast_Prelude
begin

text \<open>
  The spin lock of \<open>include/concurrency/spinlock.hpp\<close> with its exponential backoff, and
  what it gives to the classes that guard their state with it. Threads are numbered; one step
  is one access to \<open>locked_\<close> by one thread. The locale \<open>lock\<close> states what a user of
  the lock relies on; the sections that the users run under \<open>std::lock_guard\<close> are shown in
  it to take effect one after the other, in the order in which the lock was acquired. This is
  why the operations of the guarded classes are single functions on their state in the other
  theories.
\<close>

section \<open>Backoff\<close>

record Spinner =
  sp_counter :: u64

definition Spinner_init :: Spinner where
  "Spinner_init = \<lparr>sp_counter = 0\<rparr>"

definition kYieldCount :: u64 where
  "kYieldCount = 12"

text \<open>The loop of \<open>Spin\<close>; the result is the number of \<open>pause\<close> instructions.\<close>

function pause_loop :: "u64 \<Rightarrow> u64 \<Rightarrow> nat" where
  "pause_loop i bound = (if i < bound then Suc (pause_loop (i + 1) bound) else 0)"
  by pat_completeness auto

termination pause_loop
  by (relation "measure (\<lambda>(i, bound). unat bound - unat i)")
     (auto simp: unat_succ_below word_less_nat_alt)

declare pause_loop.simps [simp del]

text \<open>\<open>Spin\<close>: the pauses, whether the thread yielded, and the spinner.\<close>

definition Spin :: "Spinner \<Rightarrow> nat \<times> bool \<times> Spinner" where
  "Spin sp =
     (let pauses = pause_loop 0 (push_bit (unat (sp_counter sp)) 1) in
      if sp_counter sp > kYieldCount then (pauses, True, sp)
      else (pauses, False, sp\<lparr>sp_counter := sp_counter sp + 1\<rparr>))"

text \<open>\<open>BusyWait\<close>: all pauses and yields of \<open>max_cycles\<close> calls of \<open>Spin\<close>.\<close>

function busy_loop :: "u64 \<Rightarrow> u64 \<Rightarrow> Spinner \<Rightarrow> nat \<times> nat" where
  "busy_loop current_cycles max_cycles spinner =
     (if current_cycles < max_cycles then
        let (pauses, yields, spinner) = Spin spinner;
            (p, y) = busy_loop (current_cycles + 1) max_cycles spinner
        in (pauses + p, (if yields then 1 else 0) + y)
      else (0, 0))"
  by pat_completeness auto

termination busy_loop
  by (relation "measure (\<lambda>(i, bound, _). unat bound - unat i)")
     (auto simp: unat_succ_below word_less_nat_alt)

declare busy_loop.simps [simp del]

definition BusyWait :: "u64 \<Rightarrow> nat \<times> nat" where
  "BusyWait max_cycles = busy_loop 0 max_cycles Spinner_init"

lemma pause_loop_count: "pause_loop i bound = unat bound - unat i"
proof (induction i bound rule: pause_loop.induct)
  case (1 i bound)
  then show ?case
    by (cases "i < bound")
       (simp_all add: pause_loop.simps [of i] unat_succ_below word_less_nat_alt Suc_diff_Suc)
qed

text \<open>The counter stops at 13, so the shift is in range and one call pauses at most 8192 times.\<close>

definition spinner_ok :: "Spinner \<Rightarrow> bool" where
  "spinner_ok sp \<longleftrightarrow> sp_counter sp \<le> 13"

lemma spinner_ok_init [simp]: "spinner_ok Spinner_init"
  by (simp add: spinner_ok_def Spinner_init_def)

lemma Spin_counter:
  assumes "spinner_ok sp" and "Spin sp = (pauses, yields, sp')"
  shows "pauses = 2 ^ unat (sp_counter sp) \<and> (yields \<longleftrightarrow> unat (sp_counter sp) = 13) \<and>
    unat (sp_counter sp') = min 13 (Suc (unat (sp_counter sp)))"
proof -
  have c: "unat (sp_counter sp) \<le> 13" using assms(1) by (simp add: spinner_ok_def word_le_nat_alt)
  then have "(2::nat) ^ unat (sp_counter sp) < 2 ^ 64" by (intro power_strict_increasing) auto
  moreover have "(push_bit (unat (sp_counter sp)) 1 :: u64) = of_nat (2 ^ unat (sp_counter sp))"
    by (simp add: push_bit_eq_mult)
  ultimately have "unat (push_bit (unat (sp_counter sp)) 1 :: u64) = 2 ^ unat (sp_counter sp)"
    by (simp only: unat_of_nat) simp
  moreover have "unat (sp_counter sp + 1) = Suc (unat (sp_counter sp))"
    using c by (simp add: unat_word_ariths)
  ultimately show ?thesis
    using assms(2) c
    by (auto simp: Spin_def Let_def pause_loop_count kYieldCount_def word_less_nat_alt split: if_splits)
qed

lemma spinner_ok_Spin [inv_intro]: "spinner_ok sp \<Longrightarrow> spinner_ok (snd (snd (Spin sp)))"
  using Spin_counter [of sp] by (cases "Spin sp") (simp add: spinner_ok_def word_le_nat_alt)

lemma busy_loop_effort:
  assumes "spinner_ok sp"
  shows "busy_loop cur max_cycles sp =
    (\<Sum>j<unat max_cycles - unat cur. 2 ^ min 13 (unat (sp_counter sp) + j),
     unat max_cycles - unat cur - (13 - unat (sp_counter sp)))"
  using assms
proof (induction cur max_cycles sp rule: busy_loop.induct)
  case (1 cur max_cycles sp)
  show ?case
  proof (cases "cur < max_cycles")
    case False
    then show ?thesis by (simp add: busy_loop.simps [of cur] word_less_nat_alt)
  next
    case True
    obtain pauses yields sp' where spin: "Spin sp = (pauses, yields, sp')" by (cases "Spin sp")
    let ?c = "unat (sp_counter sp)" and ?n = "unat max_cycles - unat (cur + 1)"
    have c: "?c \<le> 13" using 1(2) by (simp add: spinner_ok_def word_le_nat_alt)
    note eff = Spin_counter [OF 1(2) spin]
    have "spinner_ok sp'" using spinner_ok_Spin [OF 1(2)] spin by simp
    with 1(1) [OF True] spin eff
    have ih: "busy_loop (cur + 1) max_cycles sp' = (\<Sum>j<?n. 2 ^ min 13 (min 13 (Suc ?c) + j), ?n - (13 - min 13 (Suc ?c)))"
      by simp
    have n: "unat max_cycles - unat cur = Suc ?n"
      using True by (simp add: unat_succ_below word_less_nat_alt Suc_diff_Suc)
    have "(\<Sum>j<?n. (2::nat) ^ min 13 (min 13 (Suc ?c) + j)) = (\<Sum>j<?n. 2 ^ min 13 (?c + Suc j))"
      by (rule sum.cong) (auto simp: min_def)
    with ih spin eff c True show ?thesis
      by (simp add: busy_loop.simps [of cur] n sum.lessThan_Suc_shift min_absorb2 del: sum.lessThan_Suc)
        (auto simp: min_def)
  qed
qed

lemma BusyWait_effort: "BusyWait n = (\<Sum>j<unat n. 2 ^ min 13 j, unat n - 13)"
  by (simp add: BusyWait_def busy_loop_effort Spinner_init_def spinner_ok_def)

section \<open>The lock\<close>

text \<open>
  Where a thread is: outside the lock; in \<open>Lock\<close>, before the exchange; in \<open>Lock\<close>,
  before the load of the inner loop; in the section it guards. The spinner is local to
  \<open>Lock\<close>.
\<close>

datatype lock_pc = Idle | Exchanging Spinner | Reading Spinner | Holding

record SpinLock =
  sl_locked :: bool
  sl_pc :: "nat \<Rightarrow> lock_pc"

definition SpinLock_init :: SpinLock where
  "SpinLock_init = \<lparr>sl_locked = False, sl_pc = (\<lambda>_. Idle)\<rparr>"

definition goto :: "nat \<Rightarrow> lock_pc \<Rightarrow> SpinLock \<Rightarrow> SpinLock" where
  "goto t pc s = s\<lparr>sl_pc := (sl_pc s)(t := pc)\<rparr>"

definition Lock_call :: "nat \<Rightarrow> SpinLock \<Rightarrow> SpinLock" where
  "Lock_call t s = goto t (Exchanging Spinner_init) s"

definition Lock_exchange :: "nat \<Rightarrow> Spinner \<Rightarrow> SpinLock \<Rightarrow> SpinLock" where
  "Lock_exchange t spinner s =
     (let old = sl_locked s; s = s\<lparr>sl_locked := True\<rparr> in
      goto t (if old then Reading spinner else Holding) s)"

definition Lock_load :: "nat \<Rightarrow> Spinner \<Rightarrow> SpinLock \<Rightarrow> SpinLock" where
  "Lock_load t spinner s =
     goto t (if sl_locked s then Reading (snd (snd (Spin spinner))) else Exchanging spinner) s"

definition TryLock :: "nat \<Rightarrow> SpinLock \<Rightarrow> bool \<times> SpinLock" where
  "TryLock t s =
     (let old = sl_locked s; s = s\<lparr>sl_locked := True\<rparr> in
      (\<not> old, if old then s else goto t Holding s))"

definition Unlock :: "nat \<Rightarrow> SpinLock \<Rightarrow> SpinLock" where
  "Unlock t s = goto t Idle (s\<lparr>sl_locked := False\<rparr>)"

text \<open>One step of thread \<open>t\<close>. Only the thread that holds the lock calls \<open>Unlock\<close>.\<close>

inductive sl_step :: "nat \<Rightarrow> SpinLock \<Rightarrow> SpinLock \<Rightarrow> bool" for t where
  call: "sl_pc s t = Idle \<Longrightarrow> sl_step t s (Lock_call t s)"
| exchange: "sl_pc s t = Exchanging sp \<Longrightarrow> sl_step t s (Lock_exchange t sp s)"
| load: "sl_pc s t = Reading sp \<Longrightarrow> sl_step t s (Lock_load t sp s)"
| try_lock: "sl_pc s t = Idle \<Longrightarrow> sl_step t s (snd (TryLock t s))"
| unlock: "sl_pc s t = Holding \<Longrightarrow> sl_step t s (Unlock t s)"

inductive sl_reach :: "SpinLock \<Rightarrow> bool" where
  sl_start: "sl_reach SpinLock_init"
| sl_more: "\<lbrakk>sl_reach s; sl_step t s s'\<rbrakk> \<Longrightarrow> sl_reach s'"

lemmas sl_ops = goto_def Lock_call_def Lock_exchange_def Lock_load_def TryLock_def Unlock_def

definition pc_ok :: "lock_pc \<Rightarrow> bool" where
  "pc_ok pc = (case pc of Exchanging sp \<Rightarrow> spinner_ok sp | Reading sp \<Rightarrow> spinner_ok sp | _ \<Rightarrow> True)"

definition sl_inv :: "SpinLock \<Rightarrow> bool" where
  "sl_inv s \<longleftrightarrow>
     (\<forall>t u. sl_pc s t = Holding \<longrightarrow> sl_pc s u = Holding \<longrightarrow> t = u) \<and>
     (sl_locked s \<longleftrightarrow> (\<exists>t. sl_pc s t = Holding)) \<and> (\<forall>t. pc_ok (sl_pc s t))"

lemma pc_ok_simps [simp]:
  "pc_ok Idle" "pc_ok Holding" "pc_ok (Exchanging sp) \<longleftrightarrow> spinner_ok sp" "pc_ok (Reading sp) \<longleftrightarrow> spinner_ok sp"
  by (simp_all add: pc_ok_def)

lemma sl_inv_pc: "sl_inv s \<Longrightarrow> pc_ok (sl_pc s t)"
  by (simp add: sl_inv_def)

lemma sl_inv_exclusive: "sl_inv s \<Longrightarrow> sl_pc s t = Holding \<Longrightarrow> sl_pc s u = Holding \<Longrightarrow> t = u"
  by (simp add: sl_inv_def)

lemma sl_inv_goto [inv_intro]:
  assumes "sl_inv s" "sl_pc s t \<noteq> Holding" "pc \<noteq> Holding" "pc_ok pc"
  shows "sl_inv (goto t pc s)"
  using assms unfolding sl_inv_def goto_def by (simp; metis)

lemma sl_inv_acquire [inv_intro]:
  assumes "sl_inv s" "\<not> sl_locked s"
  shows "sl_inv (goto t Holding (s\<lparr>sl_locked := True\<rparr>))"
  using assms unfolding sl_inv_def goto_def by (simp; metis)

lemma sl_inv_release [inv_intro]:
  assumes "sl_inv s" "sl_pc s t = Holding"
  shows "sl_inv (goto t Idle (s\<lparr>sl_locked := False\<rparr>))"
  using assms unfolding sl_inv_def goto_def by (simp; metis)

lemma already_locked [simp]: "sl_locked s \<Longrightarrow> s\<lparr>sl_locked := True\<rparr> = s"
  by simp

lemma sl_step_inv [inv_intro]: "sl_step t s s' \<Longrightarrow> sl_inv s \<Longrightarrow> sl_inv s'"
proof (induction rule: sl_step.induct)
  case (load s sp)
  then show ?case using sl_inv_pc [of s t]
    by (simp add: Lock_load_def sl_inv_goto spinner_ok_Spin)
next
  case (exchange s sp)
  then show ?case using sl_inv_pc [of s t]
    by (simp add: Lock_exchange_def Let_def sl_inv_goto sl_inv_acquire)
qed (simp_all add: Lock_call_def TryLock_def Unlock_def Let_def sl_inv_goto sl_inv_acquire sl_inv_release)

lemma sl_reach_inv: "sl_reach s \<Longrightarrow> sl_inv s"
proof (induction rule: sl_reach.induct)
  case sl_start
  then show ?case by (simp add: sl_inv_def SpinLock_init_def)
qed (rule sl_step_inv)

text \<open>What thread \<open>t\<close> does next while it is inside \<open>Lock\<close>.\<close>

definition Lock_advance :: "nat \<Rightarrow> SpinLock \<Rightarrow> SpinLock" where
  "Lock_advance t s =
     (case sl_pc s t of
        Exchanging sp \<Rightarrow> Lock_exchange t sp s
      | Reading sp \<Rightarrow> Lock_load t sp s
      | _ \<Rightarrow> s)"

lemma Lock_advance_step: "sl_pc s t = Exchanging sp \<or> sl_pc s t = Reading sp \<Longrightarrow> sl_step t s (Lock_advance t s)"
  by (auto simp: Lock_advance_def intro: sl_step.intros)

lemma Lock_advance_free:
  assumes "\<not> sl_locked s" and "sl_pc s t \<noteq> Idle"
  shows "sl_pc (Lock_advance t (Lock_advance t s)) t = Holding"
  using assms by (cases "sl_pc s t") (simp_all add: Lock_advance_def sl_ops)

section \<open>Guarded sections\<close>

text \<open>
  A thread that acquires the lock runs a section, a list of accesses to the guarded data,
  and then releases the lock; other threads run in between. \<open>g_todo\<close> is what is left of
  the section of each thread, \<open>g_sections\<close> lists the sections in the order of the
  acquisitions.
\<close>

record ('s, 'd) Guarded =
  g_lock :: 's
  g_data :: 'd
  g_todo :: "nat \<Rightarrow> ('d \<Rightarrow> 'd) list"
  g_sections :: "('d \<Rightarrow> 'd) list list"

definition run_section :: "('d \<Rightarrow> 'd) list \<Rightarrow> 'd \<Rightarrow> 'd" where
  "run_section as d = fold (\<lambda>a. a) as d"

lemma run_section_simps [simp]:
  "run_section [] d = d"
  "run_section (as @ [a]) d = a (run_section as d)"
  by (simp_all add: run_section_def)

inductive guarded ::
  "('s \<Rightarrow> nat \<Rightarrow> bool) \<Rightarrow> (nat \<Rightarrow> 's \<Rightarrow> 's \<Rightarrow> bool) \<Rightarrow> 's \<Rightarrow> 'd \<Rightarrow> ('s, 'd) Guarded \<Rightarrow> bool"
  for holds lock_step lock_init d0 where
  g_start: "guarded holds lock_step lock_init d0 \<lparr>g_lock = lock_init, g_data = d0, g_todo = (\<lambda>_. []), g_sections = []\<rparr>"
| g_wait: "\<lbrakk>guarded holds lock_step lock_init d0 g; lock_step t (g_lock g) s; holds s t = holds (g_lock g) t\<rbrakk>
    \<Longrightarrow> guarded holds lock_step lock_init d0 (g\<lparr>g_lock := s\<rparr>)"
| g_acquire: "\<lbrakk>guarded holds lock_step lock_init d0 g; lock_step t (g_lock g) s; \<not> holds (g_lock g) t; holds s t\<rbrakk>
    \<Longrightarrow> guarded holds lock_step lock_init d0
      (g\<lparr>g_lock := s, g_todo := (g_todo g)(t := as), g_sections := g_sections g @ [as]\<rparr>)"
| g_access: "\<lbrakk>guarded holds lock_step lock_init d0 g; holds (g_lock g) t; g_todo g t = a # as\<rbrakk>
    \<Longrightarrow> guarded holds lock_step lock_init d0 (g\<lparr>g_data := a (g_data g), g_todo := (g_todo g)(t := as)\<rparr>)"
| g_release: "\<lbrakk>guarded holds lock_step lock_init d0 g; lock_step t (g_lock g) s; holds (g_lock g) t;
      \<not> holds s t; g_todo g t = []\<rbrakk>
    \<Longrightarrow> guarded holds lock_step lock_init d0 (g\<lparr>g_lock := s\<rparr>)"

text \<open>What the sections rely on: one holder at a time, and only the holder's own steps change that.\<close>

locale lock =
  fixes lock_inv :: "'s \<Rightarrow> bool"
    and holds :: "'s \<Rightarrow> nat \<Rightarrow> bool"
    and lock_step :: "nat \<Rightarrow> 's \<Rightarrow> 's \<Rightarrow> bool"
    and lock_init :: 's
  assumes init_inv: "lock_inv lock_init"
    and init_free: "\<not> holds lock_init t"
    and step_inv: "lock_step t s s' \<Longrightarrow> lock_inv s \<Longrightarrow> lock_inv s'"
    and exclusive: "lock_inv s \<Longrightarrow> holds s t \<Longrightarrow> holds s u \<Longrightarrow> t = u"
    and own_step: "lock_step t s s' \<Longrightarrow> u \<noteq> t \<Longrightarrow> holds s' u = holds s u"
begin

definition g_inv :: "'d \<Rightarrow> ('s, 'd) Guarded \<Rightarrow> bool" where
  "g_inv d0 g \<longleftrightarrow> lock_inv (g_lock g) \<and>
     (\<forall>t. \<not> holds (g_lock g) t \<longrightarrow> g_todo g t = []) \<and>
     (\<forall>t. holds (g_lock g) t \<longrightarrow> (\<exists>before ran. g_sections g = before @ [ran @ g_todo g t] \<and>
        g_data g = run_section ran (fold run_section before d0))) \<and>
     ((\<forall>t. \<not> holds (g_lock g) t) \<longrightarrow> g_data g = fold run_section (g_sections g) d0)"

lemma holder_after_acquire:
  assumes "lock_step t s s'" "lock_inv s" "\<not> holds s t" "holds s' t"
  shows "holds s' u \<longleftrightarrow> u = t" and "\<not> holds s u"
  using assms own_step [of t s s' u] step_inv exclusive by blast+

lemma holder_after_release:
  assumes "lock_step t s s'" "lock_inv s" "holds s t" "\<not> holds s' t"
  shows "\<not> holds s' u" and "holds s u \<longleftrightarrow> u = t"
  using assms own_step [of t s s' u] exclusive by blast+

lemma holders_after_wait:
  assumes "lock_step t s s'" "holds s' t = holds s t"
  shows "holds s' u = holds s u"
  using assms own_step [of t s s' u] by blast

lemma guarded_inv: "guarded holds lock_step lock_init d0 g \<Longrightarrow> g_inv d0 g"
proof (induction rule: guarded.induct)
  case g_start
  then show ?case by (simp add: g_inv_def init_inv init_free)
next
  case (g_wait g t s)
  then show ?case using holders_after_wait [OF g_wait(2,3)] step_inv [OF g_wait(2)]
    by (simp add: g_inv_def)
next
  case (g_acquire g t s as)
  then have "lock_inv (g_lock g)" by (simp add: g_inv_def)
  note h = holder_after_acquire [OF g_acquire(2) this g_acquire(3,4)]
  show ?case using g_acquire h step_inv [OF g_acquire(2)]
    by (auto simp: g_inv_def intro!: exI [of _ "[]"])
next
  case (g_access g t a as)
  then have "lock_inv (g_lock g)" by (simp add: g_inv_def)
  then have h: "holds (g_lock g) u \<longleftrightarrow> u = t" for u using g_access(2) exclusive by blast
  with g_access obtain before ran where
    "g_sections g = before @ [ran @ a # as]" "g_data g = run_section ran (fold run_section before d0)"
    by (auto simp: g_inv_def)
  then have "g_sections g = before @ [(ran @ [a]) @ as] \<and>
      a (g_data g) = run_section (ran @ [a]) (fold run_section before d0)" by simp
  with g_access h show ?case unfolding g_inv_def by auto
next
  case (g_release g t s)
  then have "lock_inv (g_lock g)" by (simp add: g_inv_def)
  note h = holder_after_release [OF g_release(2) this g_release(3,4)]
  have "g_todo g u = []" for u using g_release h by (cases "u = t") (auto simp: g_inv_def)
  then show ?case using g_release h step_inv [OF g_release(2)] by (auto simp: g_inv_def)
qed

lemma sections_atomic:
  assumes "guarded holds lock_step lock_init d0 g"
  shows "if \<exists>t. holds (g_lock g) t
    then \<exists>t before ran. holds (g_lock g) t \<and> g_sections g = before @ [ran @ g_todo g t] \<and>
      g_data g = run_section ran (fold run_section before d0)
    else g_data g = fold run_section (g_sections g) d0"
  using guarded_inv [OF assms] by (auto simp: g_inv_def)

end

lemma sl_step_own: "sl_step t s s' \<Longrightarrow> u \<noteq> t \<Longrightarrow> sl_pc s' u = sl_pc s u"
  by (induction rule: sl_step.induct) (auto simp: sl_ops Let_def)

interpretation spin: lock sl_inv "\<lambda>s t. sl_pc s t = Holding" sl_step SpinLock_init
proof
  show "sl_inv SpinLock_init" by (rule sl_reach_inv) (rule sl_start)
qed (auto simp: SpinLock_init_def sl_step_own dest: sl_step_inv sl_inv_exclusive)

section \<open>Properties\<close>

text \<open>At most one thread is inside a section that the spin lock guards, and the flag is
  set exactly while one is. A thread that is inside \<open>Lock\<close> while no thread holds the
  lock enters its section with its next two accesses to the flag if it runs alone, and the
  backoff counter never passes 13, so the shift by it is in range.\<close>

lemma spinlock_mutual_exclusion:
  assumes "sl_reach s"
  shows "(sl_pc s t = Holding \<and> sl_pc s u = Holding \<longrightarrow> t = u) \<and>
    (sl_locked s \<longleftrightarrow> (\<exists>t. sl_pc s t = Holding)) \<and>
    (sl_pc s t \<noteq> Idle \<and> (\<forall>u. sl_pc s u \<noteq> Holding) \<longrightarrow> sl_pc (Lock_advance t (Lock_advance t s)) t = Holding) \<and>
    (sl_pc s t = Exchanging sp \<or> sl_pc s t = Reading sp \<longrightarrow> sp_counter sp \<le> 13 \<and> sl_step t s (Lock_advance t s))"
proof -
  have inv: "sl_inv s" using assms by (rule sl_reach_inv)
  then have free: "sl_locked s \<longleftrightarrow> (\<exists>t. sl_pc s t = Holding)" by (simp add: sl_inv_def)
  moreover have "spinner_ok sp" if "sl_pc s t = Exchanging sp \<or> sl_pc s t = Reading sp"
    using sl_inv_pc [OF inv, of t] that by auto
  ultimately show ?thesis
    using sl_inv_exclusive [OF inv, of t u] Lock_advance_free [of s t] Lock_advance_step [of s t sp]
    by (auto simp: spinner_ok_def)
qed

definition sl_demo :: SpinLock where
  "sl_demo = Unlock 0 (Lock_load 1 Spinner_init (Lock_exchange 1 Spinner_init
     (Lock_exchange 0 Spinner_init (Lock_call 1 (Lock_call 0 SpinLock_init)))))"

lemma sl_demo_reach: "sl_reach sl_demo"
proof -
  let ?s1 = "Lock_call 1 (Lock_call 0 SpinLock_init)"
  let ?s2 = "Lock_exchange 1 Spinner_init (Lock_exchange 0 Spinner_init ?s1)"
  have "sl_reach ?s1"
    by (intro sl_more [OF _ sl_step.call] sl_start) (simp_all add: sl_ops SpinLock_init_def)
  then have "sl_reach ?s2"
    by (intro sl_more [OF _ sl_step.exchange]) (simp_all add: sl_ops SpinLock_init_def)
  then have "sl_reach (Lock_load 1 Spinner_init ?s2)"
    by (intro sl_more [OF _ sl_step.load]) (simp_all add: sl_ops SpinLock_init_def)
  then show ?thesis unfolding sl_demo_def
    by (intro sl_more [OF _ sl_step.unlock]) (simp_all add: sl_ops SpinLock_init_def)
qed

lemma sl_demo_waiting: "sl_pc sl_demo 1 = Reading \<lparr>sp_counter = 1\<rparr>" "sl_pc sl_demo u \<noteq> Holding"
  by (simp_all add: sl_demo_def sl_ops SpinLock_init_def Spin_def Let_def Spinner_init_def kYieldCount_def)

lemma spinlock_mutual_exclusion_witness:
  "sl_pc (Lock_advance 1 (Lock_advance 1 sl_demo)) 1 = Holding \<and> sl_step 1 sl_demo (Lock_advance 1 sl_demo)"
  using spinlock_mutual_exclusion [OF sl_demo_reach, of 1 0 "\<lparr>sp_counter = 1\<rparr>"] sl_demo_waiting
  by simp

text \<open>C32. Sections that threads run under the spin lock take effect one after the other, in
  the order of the acquisitions, however their accesses interleave with the accesses of other
  threads: while a thread is inside, the guarded data is what the earlier sections left,
  changed by the part of its own section that it has run; while none is inside, it is the
  result of all sections.\<close>

theorem spinlock_sections_atomic:
  assumes "guarded (\<lambda>s t. sl_pc s t = Holding) sl_step SpinLock_init d0 g"
  shows "if \<exists>t. sl_pc (g_lock g) t = Holding
    then \<exists>t before ran. sl_pc (g_lock g) t = Holding \<and> g_sections g = before @ [ran @ g_todo g t] \<and>
      g_data g = run_section ran (fold run_section before d0)
    else g_data g = fold run_section (g_sections g) d0"
  using assms by (rule spin.sections_atomic)

text \<open>Thread 3 has taken the lock with \<open>TryLock\<close> and has run the first of two increments.\<close>

definition guarded_demo :: "(SpinLock, int) Guarded" where
  "guarded_demo = \<lparr>g_lock = snd (TryLock 3 SpinLock_init), g_data = 1,
     g_todo = (\<lambda>_. [])(3 := [\<lambda>d. d + 10]), g_sections = [[\<lambda>d. d + 1, \<lambda>d. d + 10]]\<rparr>"

lemma guarded_demo_reach: "guarded (\<lambda>s t. sl_pc s t = Holding) sl_step SpinLock_init 0 guarded_demo"
proof -
  let ?g = "\<lparr>g_lock = SpinLock_init, g_data = 0 :: int, g_todo = (\<lambda>_. []), g_sections = []\<rparr>"
  let ?s = "snd (TryLock 3 SpinLock_init)" and ?as = "[\<lambda>d. d + 1, \<lambda>d. d + 10] :: (int \<Rightarrow> int) list"
  have "sl_step 3 (g_lock ?g) ?s" by (simp add: sl_step.try_lock SpinLock_init_def)
  then have "guarded (\<lambda>s t. sl_pc s t = Holding) sl_step SpinLock_init 0
      (?g\<lparr>g_lock := ?s, g_todo := (g_todo ?g)(3 := ?as), g_sections := g_sections ?g @ [?as]\<rparr>)"
    by (rule g_acquire [OF g_start]) (simp_all add: sl_ops Let_def SpinLock_init_def)
  from g_access [OF this, of 3 "\<lambda>d. d + 1" "[\<lambda>d. d + 10]"] show ?thesis
    by (simp add: guarded_demo_def sl_ops Let_def SpinLock_init_def)
qed

theorem spinlock_sections_atomic_witness:
  "\<exists>t before ran. sl_pc (g_lock guarded_demo) t = Holding \<and>
     g_sections guarded_demo = before @ [ran @ g_todo guarded_demo t] \<and>
     g_data guarded_demo = run_section ran (fold run_section before 0)"
proof -
  have "sl_pc (g_lock guarded_demo) 3 = Holding"
    by (simp add: guarded_demo_def sl_ops Let_def SpinLock_init_def)
  then show ?thesis using spinlock_sections_atomic [OF guarded_demo_reach] by (auto split: if_splits)
qed

end
