(* ===== verification/Execution_Context.thy ===== *)
theory Execution_Context
  imports Broadcast_Prelude
begin

text \<open>
  The stacks and contexts of fibers (\<open>src/concurrency/context.cpp\<close>). A stack object owns a
  region of memory from \<open>mmap\<close> until its destructor returns it with \<open>munmap\<close>; moving
  hands the region over. The regions are numbered in the order in which they were mapped. The
  switch of the processor state (\<open>context.S\<close>) stores the current position in the old
  context and continues at the position in the new one; the sanitizer hooks are not modelled.
\<close>

section \<open>Stacks\<close>

record Stack =
  sk_memory :: "nat option"
  sk_size :: u64

text \<open>\<open>os_size\<close> is the size of each mapped region, \<open>os_released\<close> the calls of \<open>munmap\<close>.\<close>

record os_memory =
  os_next :: nat
  os_size :: "nat \<Rightarrow> u64"
  os_released :: "(nat \<times> u64) list"

text \<open>The first argument tells whether \<open>mmap\<close> succeeds.\<close>

definition AllocateMemory :: "bool \<Rightarrow> u64 \<Rightarrow> os_memory \<Rightarrow> fault + (nat \<times> os_memory)" where
  "AllocateMemory mapped bytes m =
     (if mapped then Inr (os_next m, m\<lparr>os_next := Suc (os_next m), os_size := (os_size m)(os_next m := bytes)\<rparr>)
      else Inl SyscallFailed)"

definition ReleaseMemory :: "nat option \<Rightarrow> u64 \<Rightarrow> os_memory \<Rightarrow> os_memory" where
  "ReleaseMemory memory bytes m =
     (case memory of None \<Rightarrow> m | Some a \<Rightarrow> m\<lparr>os_released := os_released m @ [(a, bytes)]\<rparr>)"

definition AllocateStack :: "bool \<Rightarrow> u64 \<Rightarrow> os_memory \<Rightarrow> fault + (Stack \<times> os_memory)" where
  "AllocateStack mapped bytes m =
     fbind (AllocateMemory mapped bytes m) (\<lambda>(memory, m). Inr (\<lparr>sk_memory = Some memory, sk_size = bytes\<rparr>, m))"

text \<open>The new object and the object that was moved from.\<close>

definition Stack_move :: "Stack \<Rightarrow> Stack \<times> Stack" where
  "Stack_move other = (\<lparr>sk_memory = sk_memory other, sk_size = sk_size other\<rparr>, \<lparr>sk_memory = None, sk_size = 0\<rparr>)"

definition Stack_assign :: "Stack \<Rightarrow> Stack \<Rightarrow> os_memory \<Rightarrow> Stack \<times> Stack \<times> os_memory" where
  "Stack_assign this other m =
     (let m = ReleaseMemory (sk_memory this) (sk_size this) m; (this, other) = Stack_move other
      in (this, other, m))"

definition Stack_destroy :: "Stack \<Rightarrow> os_memory \<Rightarrow> os_memory" where
  "Stack_destroy this m = ReleaseMemory (sk_memory this) (sk_size this) m"

text \<open>Programs over stack objects: the objects that exist, by name.\<close>

record stack_system =
  sy_objects :: "nat \<rightharpoonup> Stack"
  sy_memory :: os_memory

definition sy_init :: stack_system where
  "sy_init = \<lparr>sy_objects = Map.empty, sy_memory = \<lparr>os_next = 0, os_size = (\<lambda>_. 0), os_released = []\<rparr>\<rparr>"

inductive sy_step :: "stack_system \<Rightarrow> stack_system \<Rightarrow> bool" where
  allocate: "\<lbrakk>sy_objects y v = None; AllocateStack True bytes (sy_memory y) = Inr (s, m)\<rbrakk> \<Longrightarrow>
    sy_step y (y\<lparr>sy_objects := (sy_objects y)(v \<mapsto> s), sy_memory := m\<rparr>)"
| move: "\<lbrakk>sy_objects y v = None; sy_objects y w = Some s; Stack_move s = (s1, s2)\<rbrakk> \<Longrightarrow>
    sy_step y (y\<lparr>sy_objects := (sy_objects y)(v \<mapsto> s1, w \<mapsto> s2)\<rparr>)"
| assign: "\<lbrakk>v \<noteq> w; sy_objects y v = Some r; sy_objects y w = Some s; Stack_assign r s (sy_memory y) = (s1, s2, m)\<rbrakk> \<Longrightarrow>
    sy_step y (y\<lparr>sy_objects := (sy_objects y)(v \<mapsto> s1, w \<mapsto> s2), sy_memory := m\<rparr>)"
| destroy: "\<lbrakk>sy_objects y v = Some s\<rbrakk> \<Longrightarrow>
    sy_step y (y\<lparr>sy_objects := (sy_objects y)(v := None), sy_memory := Stack_destroy s (sy_memory y)\<rparr>)"

text \<open>
  \<open>owned y v\<close> lists the region of object \<open>v\<close>, with the size the object remembers.
  Every region that was mapped is owned by one object or has been released, once, with the
  size it was mapped with.
\<close>

definition owned :: "stack_system \<Rightarrow> nat \<Rightarrow> (nat \<times> u64) set" where
  "owned y v = {(a, n). \<exists>s. sy_objects y v = Some s \<and> sk_memory s = Some a \<and> n = sk_size s}"

definition released :: "stack_system \<Rightarrow> (nat \<times> u64) set" where
  "released y = set (os_released (sy_memory y))"

definition mapped :: "stack_system \<Rightarrow> (nat \<times> u64) set" where
  "mapped y = {(a, n). a < os_next (sy_memory y) \<and> n = os_size (sy_memory y) a}"

definition sy_inv :: "stack_system \<Rightarrow> bool" where
  "sy_inv y \<longleftrightarrow>
     (\<forall>v w p. p \<in> owned y v \<longrightarrow> p \<in> owned y w \<longrightarrow> v = w) \<and>
     (\<forall>v p. p \<in> owned y v \<longrightarrow> p \<notin> released y) \<and>
     distinct (os_released (sy_memory y)) \<and>
     (\<forall>p. p \<in> mapped y \<longleftrightarrow> (\<exists>v. p \<in> owned y v) \<or> p \<in> released y)"

lemma sy_invI:
  assumes "\<And>v w p. p \<in> owned y v \<Longrightarrow> p \<in> owned y w \<Longrightarrow> v = w"
    and "\<And>v p. p \<in> owned y v \<Longrightarrow> p \<notin> released y"
    and "distinct (os_released (sy_memory y))"
    and "\<And>p. p \<in> mapped y \<longleftrightarrow> (\<exists>v. p \<in> owned y v) \<or> p \<in> released y"
  shows "sy_inv y"
  using assms unfolding sy_inv_def by blast

lemma sy_invD:
  assumes "sy_inv y"
  shows "p \<in> owned y v \<Longrightarrow> p \<in> owned y w \<Longrightarrow> v = w"
    and "p \<in> owned y v \<Longrightarrow> p \<notin> released y"
    and "distinct (os_released (sy_memory y))"
    and "p \<in> mapped y \<longleftrightarrow> (\<exists>v. p \<in> owned y v) \<or> p \<in> released y"
  using assms unfolding sy_inv_def by blast+

lemmas stack_ops = AllocateStack_def AllocateMemory_def ReleaseMemory_def Stack_move_def Stack_assign_def
  Stack_destroy_def

lemma owned_allocate:
  assumes "sy_objects y v = None" "AllocateStack True bytes (sy_memory y) = Inr (s, m)"
    and "y' = y\<lparr>sy_objects := (sy_objects y)(v \<mapsto> s), sy_memory := m\<rparr>"
  shows "owned y' u = (if u = v then {(os_next (sy_memory y), bytes)} else owned y u)"
    and "owned y v = {}" and "released y' = released y"
    and "mapped y' = insert (os_next (sy_memory y), bytes) (mapped y)"
  using assms by (auto simp: owned_def released_def mapped_def stack_ops less_Suc_eq)

lemma owned_move:
  assumes "Stack_move s = (s1, s2)" "sy_objects y w = Some s" "v \<noteq> w"
    and "y' = y\<lparr>sy_objects := (sy_objects y)(v \<mapsto> s1, w \<mapsto> s2)\<rparr>"
  shows "owned y' u = (if u = w then {} else if u = v then owned y w else owned y u)"
  using assms by (auto simp: owned_def stack_ops)

lemma release_region:
  assumes "sy_objects y v = Some s" and "y' = y\<lparr>sy_memory := ReleaseMemory (sk_memory s) (sk_size s) (sy_memory y)\<rparr>"
  shows "released y' = released y \<union> owned y v" and "mapped y' = mapped y"
    and "owned y v = {} \<or> (\<exists>p. owned y v = {p} \<and> os_released (sy_memory y') = os_released (sy_memory y) @ [p])"
    and "owned y v = {} \<Longrightarrow> os_released (sy_memory y') = os_released (sy_memory y)"
  using assms by (auto simp: owned_def released_def mapped_def stack_ops split: option.splits)

text \<open>Dropping object \<open>v\<close> and releasing its region, as the destructor and the assignment do.\<close>

definition retire :: "nat \<Rightarrow> Stack \<Rightarrow> stack_system \<Rightarrow> stack_system" where
  "retire v s y = y\<lparr>sy_objects := (sy_objects y)(v := None),
     sy_memory := ReleaseMemory (sk_memory s) (sk_size s) (sy_memory y)\<rparr>"

lemma sy_inv_retire:
  assumes "sy_inv y" "sy_objects y v = Some s"
  shows "sy_inv (retire v s y)"
proof -
  note rel = release_region [OF assms(2) refl] and inv = sy_invD [OF assms(1)]
  have own: "owned (retire v s y) u = (if u = v then {} else owned y u)" for u
    by (auto simp: retire_def owned_def)
  have r: "released (retire v s y) = released y \<union> owned y v" and m: "mapped (retire v s y) = mapped y"
    using rel(1,2) by (simp_all add: retire_def released_def mapped_def)
  show ?thesis
  proof (rule sy_invI)
    show "distinct (os_released (sy_memory (retire v s y)))"
    proof (cases "owned y v = {}")
      case True
      then show ?thesis using rel(4) inv(3) by (simp add: retire_def)
    next
      case False
      with rel(3) obtain p where p: "owned y v = {p}" "os_released (sy_memory (retire v s y)) = os_released (sy_memory y) @ [p]"
        by (auto simp: retire_def)
      then show ?thesis using inv(2) [of p v] inv(3) by (simp add: released_def)
    qed
    show "p \<in> mapped (retire v s y) \<longleftrightarrow> (\<exists>u. p \<in> owned (retire v s y) u) \<or> p \<in> released (retire v s y)" for p
      unfolding own r m inv(4) by (cases "p \<in> owned y v"; simp; metis)
  qed (use inv(1,2) in \<open>auto simp: own r split: if_splits\<close>)
qed

lemma sy_inv_move:
  assumes "sy_inv y" "sy_objects y v = None" "sy_objects y w = Some s" "Stack_move s = (s1, s2)"
  shows "sy_inv (y\<lparr>sy_objects := (sy_objects y)(v \<mapsto> s1, w \<mapsto> s2)\<rparr>)"
proof -
  let ?y = "y\<lparr>sy_objects := (sy_objects y)(v \<mapsto> s1, w \<mapsto> s2)\<rparr>"
  have "v \<noteq> w" using assms(2,3) by auto
  note own = owned_move [OF assms(4,3) this refl]
  have none: "owned y v = {}" using assms(2) by (simp add: owned_def)
  note inv = sy_invD [OF assms(1)]
  have same: "released ?y = released y" "mapped ?y = mapped y" by (simp_all add: released_def mapped_def)
  show ?thesis
  proof (rule sy_invI)
    show "p \<in> mapped ?y \<longleftrightarrow> (\<exists>u. p \<in> owned ?y u) \<or> p \<in> released ?y" for p
    proof -
      have "p \<in> owned ?y (if u = w then v else u)" if "p \<in> owned y u" for u
        using that none \<open>v \<noteq> w\<close> by (auto simp: own)
      moreover have "p \<in> owned y (if u = v then w else u)" if "p \<in> owned ?y u" for u
        using that by (auto simp: own split: if_splits)
      ultimately show ?thesis unfolding same inv(4) by blast
    qed
    show "distinct (os_released (sy_memory ?y))" using inv(3) by simp
  qed (use inv(1,2) in \<open>auto simp: own same split: if_splits\<close>)
qed

lemma sy_step_inv [inv_intro]: "sy_step y y' \<Longrightarrow> sy_inv y \<Longrightarrow> sy_inv y'"
proof (induction rule: sy_step.induct)
  case (allocate y v bytes s m)
  let ?y = "y\<lparr>sy_objects := (sy_objects y)(v \<mapsto> s), sy_memory := m\<rparr>" and ?p = "(os_next (sy_memory y), bytes)"
  note own = owned_allocate [OF allocate(1,2) refl] and inv = sy_invD [OF allocate(3)]
  have new: "?p \<notin> mapped y" by (simp add: mapped_def)
  show ?case
  proof (rule sy_invI)
    show "distinct (os_released (sy_memory ?y))" using inv(3) allocate(2) by (auto simp: stack_ops)
    show "p \<in> mapped ?y \<longleftrightarrow> (\<exists>u. p \<in> owned ?y u) \<or> p \<in> released ?y" for p
      using own(2) unfolding own(1,3,4) insert_iff inv(4) by (auto split: if_splits)
  qed (use inv(1,2,4) new in \<open>auto simp: own(1,3) split: if_splits\<close>)
next
  case (move y v w s s1 s2)
  then show ?case by (blast intro: sy_inv_move)
next
  case (assign v w y r s s1 s2 m)
  then have "sy_inv (retire v r y)" by (intro sy_inv_retire)
  moreover have "sy_objects (retire v r y) v = None" "sy_objects (retire v r y) w = Some s" "Stack_move s = (s1, s2)"
    using assign by (auto simp: retire_def Stack_assign_def split_beta)
  ultimately have "sy_inv ((retire v r y)\<lparr>sy_objects := (sy_objects (retire v r y))(v \<mapsto> s1, w \<mapsto> s2)\<rparr>)"
    by (rule sy_inv_move)
  moreover have "m = ReleaseMemory (sk_memory r) (sk_size r) (sy_memory y)"
    using assign(4) by (auto simp: Stack_assign_def split_beta)
  ultimately show ?case by (cases y) (simp add: retire_def)
next
  case (destroy y v s)
  then show ?case using sy_inv_retire [of y v s] by (simp add: retire_def Stack_destroy_def)
qed

lemma sy_reach_inv: "sy_step\<^sup>*\<^sup>* sy_init y \<Longrightarrow> sy_inv y"
proof (induction rule: rtranclp_induct)
  case base
  then show ?case by (simp add: sy_inv_def sy_init_def owned_def released_def mapped_def)
next
  case (step y z)
  then show ?case by (blast intro: sy_step_inv)
qed

text \<open>Whatever a program does with its stacks, no two stack objects own the same region,
  no region is returned to the system twice or while an object owns it, and each is returned
  with the size it was mapped with; when no stack object is left, every region that was
  mapped has been returned.\<close>

lemma stack_memory_owned_once:
  assumes "sy_step\<^sup>*\<^sup>* sy_init y"
  shows "(p \<in> owned y v \<and> p \<in> owned y w \<longrightarrow> v = w) \<and> (p \<in> owned y v \<longrightarrow> p \<notin> released y) \<and>
    distinct (os_released (sy_memory y)) \<and> released y \<subseteq> mapped y \<and>
    ((\<forall>v. sy_objects y v = None) \<longrightarrow> released y = mapped y)"
proof -
  note inv = sy_invD [OF sy_reach_inv [OF assms]]
  have "owned y u = {}" if "\<forall>v. sy_objects y v = None" for u using that by (simp add: owned_def)
  with inv show ?thesis by blast
qed

text \<open>A stack is allocated, moved into another object and destroyed there.\<close>

definition sy_demo :: stack_system where
  "sy_demo = \<lparr>sy_objects = [1 \<mapsto> \<lparr>sk_memory = None, sk_size = 0\<rparr>],
     sy_memory = \<lparr>os_next = 1, os_size = (\<lambda>_. 0)(0 := 4096), os_released = [(0, 4096)]\<rparr>\<rparr>"

lemma sy_demo_reach: "sy_step\<^sup>*\<^sup>* sy_init sy_demo"
proof -
  let ?m = "\<lparr>os_next = 1, os_size = (\<lambda>_. 0)(0 := 4096), os_released = []\<rparr>"
  let ?s = "\<lparr>sk_memory = Some 0, sk_size = 4096\<rparr>" and ?n = "\<lparr>sk_memory = None, sk_size = 0\<rparr> :: Stack"
  let ?y1 = "\<lparr>sy_objects = [1 \<mapsto> ?s], sy_memory = ?m\<rparr>"
  let ?y2 = "\<lparr>sy_objects = [2 \<mapsto> ?s, 1 \<mapsto> ?n], sy_memory = ?m\<rparr>"
  have "sy_step sy_init ?y1" using allocate [of sy_init 1 4096 ?s ?m] by (simp add: sy_init_def stack_ops)
  moreover have "sy_step ?y1 ?y2" using move [of ?y1 2 1 ?s ?s ?n] by (simp add: stack_ops)
  moreover have "sy_step ?y2 sy_demo"
    using destroy [of ?y2 2 ?s] by (simp add: stack_ops sy_demo_def fun_upd_twist)
  ultimately show ?thesis by (meson converse_rtranclp_into_rtranclp r_into_rtranclp)
qed

lemma stack_memory_owned_once_witness: "distinct (os_released (sy_memory sy_demo)) \<and> released sy_demo \<subseteq> mapped sy_demo"
  using stack_memory_owned_once [OF sy_demo_reach] by simp

section \<open>Contexts\<close>

text \<open>
  A context is valid when it holds a position to continue at. \<open>SwapContext\<close> fills the old
  context and continues at the new one; the two contexts of a fiber are its own and that of
  the thread that resumed it.
\<close>

record FiberContext =
  cx_rip :: "nat option"
  cx_rsp :: nat

definition empty_context :: FiberContext where
  "empty_context = \<lparr>cx_rip = None, cx_rsp = 0\<rparr>"

definition IsValidForSwapping :: "FiberContext \<Rightarrow> bool" where
  "IsValidForSwapping c \<longleftrightarrow> cx_rip c \<noteq> None"

text \<open>\<open>entry\<close> is the address of \<open>ContextRun\<close>.\<close>

definition SetupContext :: "nat \<Rightarrow> nat \<Rightarrow> nat \<Rightarrow> FiberContext" where
  "SetupContext entry ptr bytes = \<lparr>cx_rip = Some entry, cx_rsp = ptr + bytes\<rparr>"

text \<open>\<open>here\<close> and \<open>sp\<close> are the position and the stack pointer that are saved; the result is the old context.\<close>

definition SwapTo :: "nat \<Rightarrow> nat \<Rightarrow> FiberContext \<Rightarrow> FiberContext \<Rightarrow> fault + FiberContext" where
  "SwapTo here sp this other =
     (if IsValidForSwapping other then Inr (this\<lparr>cx_rip := Some here, cx_rsp := sp\<rparr>) else Inl AssertFailed)"

definition ExitTo :: "nat \<Rightarrow> nat \<Rightarrow> FiberContext \<Rightarrow> FiberContext" where
  "ExitTo here sp this = this\<lparr>cx_rip := Some here, cx_rsp := sp\<rparr>"

record fiber_contexts =
  fx_context :: FiberContext
  fx_parent :: FiberContext
  fx_inside :: bool

definition fiber_contexts_init :: "nat \<Rightarrow> nat \<Rightarrow> nat \<Rightarrow> fiber_contexts" where
  "fiber_contexts_init entry ptr bytes =
     \<lparr>fx_context = SetupContext entry ptr bytes, fx_parent = empty_context, fx_inside = False\<rparr>"

definition Resume_swap :: "nat \<Rightarrow> nat \<Rightarrow> fiber_contexts \<Rightarrow> fault + fiber_contexts" where
  "Resume_swap here sp x =
     fbind (SwapTo here sp (fx_parent x) (fx_context x)) (\<lambda>c. Inr (x\<lparr>fx_parent := c, fx_inside := True\<rparr>))"

definition SwitchContext :: "nat \<Rightarrow> nat \<Rightarrow> fiber_contexts \<Rightarrow> fault + fiber_contexts" where
  "SwitchContext here sp x =
     fbind (SwapTo here sp (fx_context x) (fx_parent x)) (\<lambda>c. Inr (x\<lparr>fx_context := c, fx_inside := False\<rparr>))"

inductive fx_reach :: "nat \<Rightarrow> nat \<Rightarrow> nat \<Rightarrow> fiber_contexts \<Rightarrow> bool" for entry ptr bytes where
  fx_start: "fx_reach entry ptr bytes (fiber_contexts_init entry ptr bytes)"
| fx_resume: "\<lbrakk>fx_reach entry ptr bytes x; \<not> fx_inside x; Resume_swap here sp x = Inr x'\<rbrakk> \<Longrightarrow> fx_reach entry ptr bytes x'"
| fx_switch: "\<lbrakk>fx_reach entry ptr bytes x; fx_inside x; SwitchContext here sp x = Inr x'\<rbrakk> \<Longrightarrow> fx_reach entry ptr bytes x'"

text \<open>A fiber that is resumed and switches back in turn always finds the context it switches to valid.\<close>

lemma fx_valid:
  "fx_reach entry ptr bytes x \<Longrightarrow> IsValidForSwapping (fx_context x) \<and> (fx_inside x \<longrightarrow> IsValidForSwapping (fx_parent x))"
  by (induction rule: fx_reach.induct)
    (auto simp: fiber_contexts_init_def SetupContext_def IsValidForSwapping_def Resume_swap_def SwitchContext_def
      SwapTo_def split: if_splits)

lemma fiber_switches_never_fail:
  assumes "fx_reach entry ptr bytes x"
  shows "if fx_inside x then \<exists>x'. SwitchContext here sp x = Inr x' else \<exists>x'. Resume_swap here sp x = Inr x'"
  using fx_valid [OF assms] by (simp add: SwitchContext_def Resume_swap_def SwapTo_def)

end
