(* ===== verification/UDP_Socket.thy ===== *)
theory UDP_Socket
  imports Hosts
begin

text \<open>
  Setting up, connecting and closing a socket (\<open>include/io/transport/udp_socket.hpp\<close>).
  The functions are sequences of system calls, each of which ends the process when it returns
  -1 (\<open>CANNOT_FAIL\<close>); what the kernel answers is a parameter. A socket that is bound but
  not connected would accept datagrams from anybody, so the code attaches a filter that drops
  everything before it binds, and detaches it after it has connected. Reading and writing are
  in theory \<open>Fairloss_Channel\<close>.
\<close>

section \<open>System calls\<close>

datatype socket_call =
    CallSocket
  | SetReuseAddr
  | SetReusePort
  | AttachFilter
  | CallBind AddrInfo
  | CallDup
  | CallConnect AddrInfo
  | DetachFilter
  | CallShutdown
  | CallClose

text \<open>The calls that are made, and whether the last one succeeded.\<close>

fun make_calls :: "(socket_call \<Rightarrow> int) \<Rightarrow> socket_call list \<Rightarrow> socket_call list \<times> bool" where
  "make_calls sys [] = ([], True)"
| "make_calls sys (c # cs) =
     (if sys c = -1 then ([c], False) else let (made, ok) = make_calls sys cs in (c # made, ok))"

lemma make_calls_prefix: "\<exists>rest. cs = fst (make_calls sys cs) @ rest"
  by (induction cs) (auto simp: split_beta)

lemma make_calls_all: "snd (make_calls sys cs) \<longleftrightarrow> (\<forall>c \<in> set cs. sys c \<noteq> -1)"
  by (induction cs) (auto simp: split_beta)

lemma make_calls_ok: "\<forall>c \<in> set cs. sys c \<noteq> -1 \<Longrightarrow> make_calls sys cs = (cs, True)"
  by (induction cs) auto

section \<open>The socket object\<close>

record UDPSocket =
  us_info :: AddrInfo
  us_socket_fd :: int
  us_read_event_fd :: int
  us_write_event_fd :: int

definition UDPSocket_init :: "AddrInfo \<Rightarrow> UDPSocket" where
  "UDPSocket_init info = \<lparr>us_info = info, us_socket_fd = 0, us_read_event_fd = 0, us_write_event_fd = 0\<rparr>"

definition setup_calls :: "AddrInfo \<Rightarrow> socket_call list" where
  "setup_calls info = [CallSocket, SetReuseAddr, SetReusePort, AttachFilter, CallBind info, CallDup]"

definition Setup :: "(socket_call \<Rightarrow> int) \<Rightarrow> UDPSocket \<Rightarrow> socket_call list \<times> (fault + UDPSocket)" where
  "Setup sys s =
     (let (made, ok) = make_calls sys (setup_calls (us_info s)) in
      (made, if ok then Inr (s\<lparr>us_socket_fd := sys CallSocket, us_read_event_fd := sys CallSocket,
                               us_write_event_fd := sys CallDup\<rparr>)
             else Inl SyscallFailed))"

definition ConnectTo :: "(socket_call \<Rightarrow> int) \<Rightarrow> AddrInfo \<Rightarrow> UDPSocket \<Rightarrow> socket_call list \<times> (fault + UDPSocket)" where
  "ConnectTo sys info s =
     (let (made, ok) = make_calls sys [CallConnect info, DetachFilter]
      in (made, if ok then Inr s else Inl SyscallFailed))"

definition Close :: "(socket_call \<Rightarrow> int) \<Rightarrow> UDPSocket \<Rightarrow> socket_call list \<times> (fault + UDPSocket)" where
  "Close sys s =
     (if us_socket_fd s \<noteq> 0 then
        let (made, ok) = make_calls sys [CallShutdown, CallClose] in (made, if ok then Inr s else Inl SyscallFailed)
      else ([], Inr s))"

text \<open>The three calls of a socket's life, each only when the one before it returned.\<close>

definition open_socket :: "(socket_call \<Rightarrow> int) \<Rightarrow> AddrInfo \<Rightarrow> AddrInfo \<Rightarrow> socket_call list \<times> (fault + UDPSocket)" where
  "open_socket sys self peer =
     (case Setup sys (UDPSocket_init self) of
        (made, Inl e) \<Rightarrow> (made, Inl e)
      | (made, Inr s) \<Rightarrow> let (made', r) = ConnectTo sys peer s in (made @ made', r))"

section \<open>What the calls leave in the kernel\<close>

record kernel_socket =
  ks_bound :: bool
  ks_filter :: bool
  ks_peer :: "AddrInfo option"
  ks_descriptors :: "socket_call set"

text \<open>The open descriptors are named by the call that returned them.\<close>

definition kernel_init :: kernel_socket where
  "kernel_init = \<lparr>ks_bound = False, ks_filter = False, ks_peer = None, ks_descriptors = {}\<rparr>"

fun after_call :: "socket_call \<Rightarrow> kernel_socket \<Rightarrow> kernel_socket" where
  "after_call CallSocket k = k\<lparr>ks_descriptors := insert CallSocket (ks_descriptors k)\<rparr>"
| "after_call AttachFilter k = k\<lparr>ks_filter := True\<rparr>"
| "after_call (CallBind _) k = k\<lparr>ks_bound := True\<rparr>"
| "after_call CallDup k = k\<lparr>ks_descriptors := insert CallDup (ks_descriptors k)\<rparr>"
| "after_call (CallConnect a) k = k\<lparr>ks_peer := Some a\<rparr>"
| "after_call DetachFilter k = k\<lparr>ks_filter := False\<rparr>"
| "after_call CallClose k = k\<lparr>ks_descriptors := ks_descriptors k - {CallSocket}\<rparr>"
| "after_call _ k = k"

definition exposed :: "kernel_socket \<Rightarrow> bool" where
  "exposed k \<longleftrightarrow> ks_bound k \<and> \<not> ks_filter k"

lemma open_socket_calls:
  "\<exists>rest. setup_calls self @ [CallConnect peer, DetachFilter] = fst (open_socket sys self peer) @ rest"
proof (cases "snd (make_calls sys (setup_calls self))")
  case True
  then have "make_calls sys (setup_calls self) = (setup_calls self, True)"
    by (simp add: make_calls_all make_calls_ok)
  then show ?thesis
    by (simp add: open_socket_def Setup_def UDPSocket_init_def ConnectTo_def Let_def split: if_splits)
next
  case False
  then obtain made where made: "make_calls sys (setup_calls self) = (made, False)"
    by (cases "make_calls sys (setup_calls self)") auto
  with make_calls_prefix [of "setup_calls self" sys] obtain rest where "setup_calls self = made @ rest" by auto
  with made show ?thesis by (simp add: open_socket_def Setup_def UDPSocket_init_def Let_def)
qed

lemma open_socket_ok:
  assumes "\<forall>c. sys c \<noteq> -1"
  shows "open_socket sys self peer = (setup_calls self @ [CallConnect peer, DetachFilter],
    Inr \<lparr>us_info = self, us_socket_fd = sys CallSocket, us_read_event_fd = sys CallSocket, us_write_event_fd = sys CallDup\<rparr>)"
proof -
  have "make_calls sys cs = (cs, True)" for cs using assms by (simp add: make_calls_ok)
  then show ?thesis using assms by (simp add: open_socket_def Setup_def ConnectTo_def UDPSocket_init_def)
qed

lemma prefix_of_open:
  assumes "setup_calls self @ [CallConnect peer, DetachFilter] = made @ rest"
  shows "exposed (fold after_call made kernel_init) \<Longrightarrow> ks_peer (fold after_call made kernel_init) = Some peer"
proof -
  have "made = take (length made) (setup_calls self @ [CallConnect peer, DetachFilter])" using assms by simp
  moreover have "length made \<le> 8"
    using arg_cong [OF assms, of length] by (simp add: setup_calls_def)
  then have "length made \<in> {0, 1, 2, 3, 4, 5, 6, 7, 8}" unfolding insert_iff empty_iff by arith
  ultimately show "exposed (fold after_call made kernel_init) \<Longrightarrow> ks_peer (fold after_call made kernel_init) = Some peer"
    by (auto simp: setup_calls_def kernel_init_def exposed_def)
qed

text \<open>While a socket is opened, whichever of the system calls fails, at every moment at
  which the socket is bound and nothing filters its input it is connected to its peer: no
  datagram of another process can reach it. When no call fails it ends up bound, connected
  and unfiltered.\<close>

lemma socket_never_exposed:
  assumes "fst (open_socket sys self peer) = made @ rest"
  shows "(exposed (fold after_call made kernel_init) \<longrightarrow> ks_peer (fold after_call made kernel_init) = Some peer) \<and>
    ((\<forall>c. sys c \<noteq> -1) \<longrightarrow> exposed (fold after_call (fst (open_socket sys self peer)) kernel_init) \<and>
      (\<exists>s. snd (open_socket sys self peer) = Inr s))"
proof -
  from open_socket_calls [of self peer sys] obtain rest' where
    "setup_calls self @ [CallConnect peer, DetachFilter] = made @ (rest @ rest')" using assms by auto
  moreover have "exposed (fold after_call (fst (open_socket sys self peer)) kernel_init) \<and>
      (\<exists>s. snd (open_socket sys self peer) = Inr s)" if "\<forall>c. sys c \<noteq> -1"
    using open_socket_ok [OF that] by (auto simp: setup_calls_def exposed_def kernel_init_def)
  ultimately show ?thesis using prefix_of_open by blast
qed

definition demo_sys :: "socket_call \<Rightarrow> int" where
  "demo_sys c = (case c of CallSocket \<Rightarrow> 3 | CallDup \<Rightarrow> 4 | _ \<Rightarrow> 0)"

definition demo_addr :: "u16 \<Rightarrow> AddrInfo" where
  "demo_addr port = \<lparr>sin_family = 2, sin_port = port, s_addr = 16777343\<rparr>"

lemma demo_sys_ok: "demo_sys c \<noteq> -1"
  by (simp add: demo_sys_def split: socket_call.split)

lemma socket_never_exposed_witness:
  "\<exists>s. snd (open_socket demo_sys (demo_addr 1) (demo_addr 2)) = Inr s"
  using socket_never_exposed [of demo_sys "demo_addr 1" "demo_addr 2" _ "[]"] demo_sys_ok by simp

section \<open>Closing\<close>

text \<open>
  \<open>Close\<close> closes the socket's first descriptor; the duplicate that the write events are
  registered with stays open. It does not forget the number, so a second call closes it again.
\<close>

lemma close_leaks_duplicate:
  assumes "\<forall>c. sys c \<noteq> -1" and "sys CallSocket \<noteq> 0" and "open_socket sys self peer = (made, Inr s)"
  shows "ks_descriptors (fold after_call (made @ fst (Close sys s)) kernel_init) = {CallDup}"
    and "fst (Close sys s) = [CallShutdown, CallClose]" and "snd (Close sys s) = Inr s"
proof -
  have "made = setup_calls self @ [CallConnect peer, DetachFilter]" and "us_socket_fd s = sys CallSocket"
    using open_socket_ok [OF assms(1), of self peer] assms(3) by auto
  moreover have "make_calls sys cs = (cs, True)" for cs using assms(1) by (simp add: make_calls_ok)
  ultimately show "ks_descriptors (fold after_call (made @ fst (Close sys s)) kernel_init) = {CallDup}"
    and "fst (Close sys s) = [CallShutdown, CallClose]" and "snd (Close sys s) = Inr s"
    using assms(1,2) by (auto simp: Close_def setup_calls_def kernel_init_def)
qed

end
