(* ===== verification/Event_Registration.thy ===== *)
theory Event_Registration
  imports Event_Loop UDP_Socket
begin

unbundle bit_operations_syntax

text \<open>
  Several threads run one event loop (\<open>Runtime::Start\<close>). This theory models the set-up of
  the loop, the registration of the channels and of the timer service, and the runners as a
  step relation over the interest list that the kernel keeps for \<open>epoll\<close>: a descriptor is
  added once, an event with \<open>EPOLLONESHOT\<close> is disarmed when it is reported, and
  \<open>EPOLL_CTL_MOD\<close> arms it again. A handler ends with \<open>Rearm\<close>, with a timer that will
  re-arm the event, or by giving the event up.
\<close>

section \<open>The interest list\<close>

record registration =
  rg_event :: EpollEvent
  rg_armed :: bool

record EventLoop =
  el_interest :: "u32 \<rightharpoonup> registration"
  el_stop_event_descriptor :: u32
  el_stop_value :: nat

fun ctl_effect :: "epoll_ctl \<Rightarrow> (u32 \<rightharpoonup> registration) \<Rightarrow> (u32 \<rightharpoonup> registration) option" where
  "ctl_effect (EPOLL_CTL_ADD fd e) I =
     (case I fd of None \<Rightarrow> Some (I(fd \<mapsto> \<lparr>rg_event = e, rg_armed = True\<rparr>)) | Some _ \<Rightarrow> None)"
| "ctl_effect (EPOLL_CTL_MOD fd e) I =
     (case I fd of None \<Rightarrow> None | Some _ \<Rightarrow> Some (I(fd \<mapsto> \<lparr>rg_event = e, rg_armed = True\<rparr>)))"
| "ctl_effect (EPOLL_CTL_DEL fd) I = (case I fd of None \<Rightarrow> None | Some _ \<Rightarrow> Some (I(fd := None)))"

definition make_ctl :: "epoll_ctl \<Rightarrow> EventLoop \<Rightarrow> int \<times> EventLoop" where
  "make_ctl call el =
     (case ctl_effect call (el_interest el) of None \<Rightarrow> (-1, el) | Some I \<Rightarrow> (0, el\<lparr>el_interest := I\<rparr>))"

definition EL_AddEvent :: "Event \<Rightarrow> EventLoop \<Rightarrow> fault + EventLoop" where
  "EL_AddEvent event el =
     (let (code, el) = make_ctl (EPOLL_CTL_ADD (ev_fd event) (AsEpollEvent event)) el
      in fbind (AddEvent code event) (\<lambda>_. Inr el))"

definition EL_ModEvent :: "Event \<Rightarrow> EventLoop \<Rightarrow> fault + EventLoop" where
  "EL_ModEvent event el =
     (let (code, el) = make_ctl (EPOLL_CTL_MOD (ev_fd event) (AsEpollEvent event)) el
      in fbind (ModEvent code event) (\<lambda>_. Inr el))"

definition EL_DelEvent :: "u32 \<Rightarrow> EventLoop \<Rightarrow> fault + EventLoop" where
  "EL_DelEvent fd el =
     (let (code, el) = make_ctl (EPOLL_CTL_DEL fd) el in fbind (DelEvent code fd) (\<lambda>_. Inr el))"

section \<open>Setting up and registering\<close>

text \<open>The answers of \<open>epoll_create1\<close> and \<open>eventfd\<close> are arguments.\<close>

definition EpollCreate :: "int \<Rightarrow> fault + EventLoop" where
  "EpollCreate epoll_descriptor =
     CANNOT_FAIL epoll_descriptor \<lparr>el_interest = Map.empty, el_stop_event_descriptor = 0, el_stop_value = 0\<rparr>"

definition EL_SetupStopEvent :: "u32 \<Rightarrow> int \<Rightarrow> EventLoop \<Rightarrow> fault + EventLoop" where
  "EL_SetupStopEvent garbage eventfd el =
     fbind (CANNOT_FAIL eventfd (of_int eventfd)) (\<lambda>fd.
     let (code, el) = make_ctl (EPOLL_CTL_ADD fd
           \<lparr>ee_events = EPOLLIN, ee_data = push_bit 32 (ucast garbage) OR ucast fd\<rparr>)
           (el\<lparr>el_stop_event_descriptor := fd\<rparr>)
     in fbind (SetupStopEvent garbage fd code) (\<lambda>_. Inr el))"

definition EventLoop_Setup :: "u32 \<Rightarrow> int \<Rightarrow> int \<Rightarrow> fault + EventLoop" where
  "EventLoop_Setup garbage epoll_descriptor eventfd =
     fbind (EpollCreate epoll_descriptor) (EL_SetupStopEvent garbage eventfd)"

text \<open>Writing to the event descriptor adds to its counter, which nobody reads.\<close>

definition TriggerStopEvent :: "int \<Rightarrow> EventLoop \<Rightarrow> fault + EventLoop" where
  "TriggerStopEvent code el = CANNOT_FAIL code (el\<lparr>el_stop_value := Suc (el_stop_value el)\<rparr>)"

definition Register :: "u64 \<Rightarrow> u64 \<Rightarrow> UDPSocket \<Rightarrow> EventLoop \<Rightarrow> fault + (Event \<times> Event \<times> EventLoop)" where
  "Register write_handler read_handler socket el =
     (let write_event = \<lparr>ev_fd = of_int (us_write_event_fd socket), ev_handler = write_handler, ev_type = kWriteReady\<rparr>
      in fbind (EL_AddEvent write_event el) (\<lambda>el.
         let read_event = \<lparr>ev_fd = of_int (us_read_event_fd socket), ev_handler = read_handler, ev_type = kReadReady\<rparr>
         in fbind (EL_AddEvent read_event el) (\<lambda>el. Inr (write_event, read_event, el))))"

definition Channel_Start ::
    "(socket_call \<Rightarrow> int) \<Rightarrow> AddrInfo \<Rightarrow> AddrInfo \<Rightarrow> u64 \<Rightarrow> u64 \<Rightarrow> EventLoop \<Rightarrow>
     socket_call list \<times> (fault + (UDPSocket \<times> Event \<times> Event \<times> EventLoop))" where
  "Channel_Start sys self peer write_handler read_handler el =
     (case open_socket sys self peer of (made, r) \<Rightarrow>
        (made, fbind r (\<lambda>socket. fbind (Register write_handler read_handler socket el) (\<lambda>(we, re, el).
           Inr (socket, we, re, el)))))"

definition TimerService_Register :: "int \<Rightarrow> u64 \<Rightarrow> EventLoop \<Rightarrow> fault + (Event \<times> EventLoop)" where
  "TimerService_Register timer_fd service el =
     (let tick_event = \<lparr>ev_fd = of_int timer_fd, ev_handler = service, ev_type = kReadReady\<rparr>
      in fbind (EL_AddEvent tick_event el) (\<lambda>el. Inr (tick_event, el)))"

section \<open>Waiting\<close>

definition reportable :: "u32 \<Rightarrow> EventLoop \<Rightarrow> bool" where
  "reportable fd el = (case el_interest el fd of
     None \<Rightarrow> False | Some r \<Rightarrow> rg_armed r \<and> (fd = el_stop_event_descriptor el \<longrightarrow> 0 < el_stop_value el))"

definition disarm :: "u32 \<Rightarrow> EventLoop \<Rightarrow> EventLoop" where
  "disarm fd el = (case el_interest el fd of
     None \<Rightarrow> el
   | Some r \<Rightarrow> el\<lparr>el_interest := (el_interest el)(fd \<mapsto>
       r\<lparr>rg_armed := rg_armed r \<and> ee_events (rg_event r) AND EPOLLONESHOT = 0\<rparr>)\<rparr>)"

text \<open>The events that one call of \<open>epoll_wait\<close> reports.\<close>

fun epoll_wait :: "u32 list \<Rightarrow> EventLoop \<Rightarrow> EventLoop option" where
  "epoll_wait [] el = Some el"
| "epoll_wait (fd # fds) el = (if reportable fd el then epoll_wait fds (disarm fd el) else None)"

section \<open>The runners\<close>

text \<open>
  A runner waits, or works through the events of its last wait, with the flag \<open>stop_flag\<close>, or
  has left the loop. \<open>lp_event\<close> is the event a handler keeps (\<open>SetEvent\<close>), \<open>lp_retry\<close>
  the descriptors that a timer will re-arm and \<open>lp_dropped\<close> those that were given up.
\<close>

datatype runner = Waiting | Working "u32 list" bool | Left

record loop_system =
  lp_loop :: EventLoop
  lp_event :: "u32 \<Rightarrow> Event"
  lp_runner :: "nat \<Rightarrow> runner"
  lp_retry :: "u32 set"
  lp_dropped :: "u32 set"

abbreviation stop_fd :: "loop_system \<Rightarrow> u32" where
  "stop_fd s \<equiv> el_stop_event_descriptor (lp_loop s)"

abbreviation run_as :: "nat \<Rightarrow> runner \<Rightarrow> loop_system \<Rightarrow> loop_system" where
  "run_as t r s \<equiv> s\<lparr>lp_runner := (lp_runner s)(t := r)\<rparr>"

inductive lp_step :: "loop_system \<Rightarrow> loop_system \<Rightarrow> bool" where
  register: "EL_AddEvent e (lp_loop s) = Inr el \<Longrightarrow>
     lp_step s (s\<lparr>lp_loop := el, lp_event := (lp_event s)(ev_fd e := e)\<rparr>)"
| wait: "lp_runner s t = Waiting \<Longrightarrow> distinct fds \<Longrightarrow> epoll_wait fds (lp_loop s) = Some el \<Longrightarrow>
     lp_step s (run_as t (Working fds False) (s\<lparr>lp_loop := el\<rparr>))"
| stop_event: "lp_runner s t = Working (fd # fds) stop_flag \<Longrightarrow> fd = stop_fd s \<Longrightarrow>
     lp_step s (run_as t (Working fds True) s)"
| rearm: "lp_runner s t = Working (fd # fds) stop_flag \<Longrightarrow> fd \<noteq> stop_fd s \<Longrightarrow>
     EL_ModEvent (lp_event s fd) (lp_loop s) = Inr el \<Longrightarrow>
     lp_step s (run_as t (Working fds stop_flag) (s\<lparr>lp_loop := el\<rparr>))"
| later: "lp_runner s t = Working (fd # fds) stop_flag \<Longrightarrow> fd \<noteq> stop_fd s \<Longrightarrow>
     lp_step s (run_as t (Working fds stop_flag) (s\<lparr>lp_retry := insert fd (lp_retry s)\<rparr>))"
| give_up: "lp_runner s t = Working (fd # fds) stop_flag \<Longrightarrow> fd \<noteq> stop_fd s \<Longrightarrow>
     lp_step s (run_as t (Working fds stop_flag) (s\<lparr>lp_dropped := insert fd (lp_dropped s)\<rparr>))"
| retry: "fd \<in> lp_retry s \<Longrightarrow> EL_ModEvent (lp_event s fd) (lp_loop s) = Inr el \<Longrightarrow>
     lp_step s (s\<lparr>lp_loop := el, lp_retry := lp_retry s - {fd}\<rparr>)"
| finished: "lp_runner s t = Working [] stop_flag \<Longrightarrow>
     lp_step s (run_as t (if stop_flag then Left else Waiting) s)"
| trigger: "TriggerStopEvent code (lp_loop s) = Inr el \<Longrightarrow> lp_step s (s\<lparr>lp_loop := el\<rparr>)"

definition loop_start :: "EventLoop \<Rightarrow> (u32 \<Rightarrow> Event) \<Rightarrow> loop_system" where
  "loop_start el ev = \<lparr>lp_loop = el, lp_event = ev, lp_runner = (\<lambda>_. Waiting), lp_retry = {}, lp_dropped = {}\<rparr>"

inductive lp_reach :: "loop_system \<Rightarrow> bool" where
  start: "EventLoop_Setup garbage epoll_descriptor eventfd = Inr el \<Longrightarrow> lp_reach (loop_start el ev)"
| step: "lp_reach s \<Longrightarrow> lp_step s s' \<Longrightarrow> lp_reach s'"

section \<open>Every event is in one place\<close>

datatype place = Armed | Handled nat | Retrying | Dropped

primrec batch_of :: "runner \<Rightarrow> u32 list" where
  "batch_of Waiting = []"
| "batch_of (Working fds stop_flag) = fds"
| "batch_of Left = []"

abbreviation batch :: "loop_system \<Rightarrow> nat \<Rightarrow> u32 list" where
  "batch s t \<equiv> batch_of (lp_runner s t)"

definition armed :: "EventLoop \<Rightarrow> u32 \<Rightarrow> bool" where
  "armed el fd = (case el_interest el fd of None \<Rightarrow> False | Some r \<Rightarrow> rg_armed r)"

definition places :: "loop_system \<Rightarrow> u32 \<Rightarrow> place set" where
  "places s fd = (if armed (lp_loop s) fd then {Armed} else {}) \<union> Handled ` {t. fd \<in> set (batch s t)} \<union>
     (if fd \<in> lp_retry s then {Retrying} else {}) \<union> (if fd \<in> lp_dropped s then {Dropped} else {})"

definition stop_ok :: "EventLoop \<Rightarrow> bool" where
  "stop_ok el \<longleftrightarrow> (\<exists>r. el_interest el (el_stop_event_descriptor el) = Some r \<and> rg_armed r \<and>
     ee_events (rg_event r) AND EPOLLONESHOT = 0)"

definition event_ok :: "loop_system \<Rightarrow> u32 \<Rightarrow> bool" where
  "event_ok s fd \<longleftrightarrow>
     (case el_interest (lp_loop s) fd of
        None \<Rightarrow> places s fd = {}
      | Some r \<Rightarrow> rg_event r = AsEpollEvent (lp_event s fd) \<and> ev_fd (lp_event s fd) = fd \<and> (\<exists>p. places s fd = {p}))"

definition lp_inv :: "loop_system \<Rightarrow> bool" where
  "lp_inv s \<longleftrightarrow> stop_ok (lp_loop s) \<and> stop_fd s \<notin> lp_retry s \<and> (\<forall>t. distinct (batch s t)) \<and>
     (\<forall>fd. fd \<noteq> stop_fd s \<longrightarrow> event_ok s fd)"

lemma event_ok_cong:
  assumes "el_interest (lp_loop s') fd = el_interest (lp_loop s) fd" and "lp_event s' fd = lp_event s fd"
    and "places s' fd = places s fd"
  shows "event_ok s' fd = event_ok s fd"
  unfolding event_ok_def assms ..

lemma EL_AddEvent_eq:
  "EL_AddEvent e el = (case el_interest el (ev_fd e) of
     None \<Rightarrow> Inr (el\<lparr>el_interest := (el_interest el)(ev_fd e \<mapsto> \<lparr>rg_event = AsEpollEvent e, rg_armed = True\<rparr>)\<rparr>)
   | Some _ \<Rightarrow> Inl SyscallFailed)"
  by (simp add: EL_AddEvent_def make_ctl_def AddEvent_def CANNOT_FAIL_def split: option.split)

lemma EL_ModEvent_eq:
  "EL_ModEvent e el = (case el_interest el (ev_fd e) of
     None \<Rightarrow> Inl SyscallFailed
   | Some _ \<Rightarrow> Inr (el\<lparr>el_interest := (el_interest el)(ev_fd e \<mapsto> \<lparr>rg_event = AsEpollEvent e, rg_armed = True\<rparr>)\<rparr>))"
  by (simp add: EL_ModEvent_def make_ctl_def ModEvent_def CANNOT_FAIL_def split: option.split)

lemma oneshot_event: "ee_events (AsEpollEvent e) AND EPOLLONESHOT \<noteq> 0"
  by (cases "ev_type e") (simp_all add: AsEpollEvent_def epoll_flags)

lemma EventLoop_Setup_ok:
  assumes "EventLoop_Setup garbage epoll_descriptor eventfd = Inr el"
  shows "stop_ok el" and "fd \<noteq> el_stop_event_descriptor el \<Longrightarrow> el_interest el fd = None"
    and "el_stop_value el = 0"
  using assms
  by (auto simp: EventLoop_Setup_def EpollCreate_def EL_SetupStopEvent_def CANNOT_FAIL_def SetupStopEvent_def
      make_ctl_def stop_ok_def fbind_eq_Inr epoll_flags split: if_splits)

text \<open>What a wait does to the interest list.\<close>

lemma disarm_frame:
  "el_stop_event_descriptor (disarm fd el) = el_stop_event_descriptor el" "el_stop_value (disarm fd el) = el_stop_value el"
  "g \<noteq> fd \<Longrightarrow> el_interest (disarm fd el) g = el_interest el g"
  by (simp_all add: disarm_def split: option.split)

lemma epoll_wait_frame:
  assumes "epoll_wait fds el = Some el'"
  shows "el_stop_event_descriptor el' = el_stop_event_descriptor el \<and> el_stop_value el' = el_stop_value el \<and>
    (\<forall>g. g \<notin> set fds \<longrightarrow> el_interest el' g = el_interest el g)"
  using assms by (induction fds arbitrary: el) (auto simp: disarm_frame split: if_splits)

lemma epoll_wait_reported:
  assumes "epoll_wait fds el = Some el'" and "distinct fds" and "fd \<in> set fds"
  shows "\<exists>r. el_interest el fd = Some r \<and> rg_armed r \<and>
    el_interest el' fd = Some (r\<lparr>rg_armed := ee_events (rg_event r) AND EPOLLONESHOT = 0\<rparr>)"
  using assms
proof (induction fds arbitrary: el)
  case (Cons f fds)
  then have rep: "reportable f el" and rest: "epoll_wait fds (disarm f el) = Some el'" by (auto split: if_splits)
  show ?case
  proof (cases "fd = f")
    case True
    then have "fd \<notin> set fds" using Cons.prems(2) by simp
    then have "el_interest el' fd = el_interest (disarm f el) fd" using epoll_wait_frame [OF rest] by blast
    with True rep show ?thesis by (auto simp: reportable_def disarm_def split: option.splits)
  next
    case False
    then show ?thesis using Cons.IH [OF rest] Cons.prems(2,3) by (simp add: disarm_frame)
  qed
qed simp

lemma places_cong:
  assumes "armed (lp_loop s') fd = armed (lp_loop s) fd" and "\<forall>t. fd \<in> set (batch s' t) \<longleftrightarrow> fd \<in> set (batch s t)"
    and "fd \<in> lp_retry s' \<longleftrightarrow> fd \<in> lp_retry s" and "fd \<in> lp_dropped s' \<longleftrightarrow> fd \<in> lp_dropped s"
  shows "places s' fd = places s fd"
  using assms by (simp add: places_def)

lemma places_single:
  "places s fd = {Armed} \<longleftrightarrow> armed (lp_loop s) fd \<and> (\<forall>t. fd \<notin> set (batch s t)) \<and> fd \<notin> lp_retry s \<and> fd \<notin> lp_dropped s"
  "places s fd = {Handled t} \<longleftrightarrow>
     \<not> armed (lp_loop s) fd \<and> (\<forall>u. fd \<in> set (batch s u) \<longleftrightarrow> u = t) \<and> fd \<notin> lp_retry s \<and> fd \<notin> lp_dropped s"
  "places s fd = {Retrying} \<longleftrightarrow>
     \<not> armed (lp_loop s) fd \<and> (\<forall>t. fd \<notin> set (batch s t)) \<and> fd \<in> lp_retry s \<and> fd \<notin> lp_dropped s"
  "places s fd = {Dropped} \<longleftrightarrow>
     \<not> armed (lp_loop s) fd \<and> (\<forall>t. fd \<notin> set (batch s t)) \<and> fd \<notin> lp_retry s \<and> fd \<in> lp_dropped s"
  "places s fd = {} \<longleftrightarrow>
     \<not> armed (lp_loop s) fd \<and> (\<forall>t. fd \<notin> set (batch s t)) \<and> fd \<notin> lp_retry s \<and> fd \<notin> lp_dropped s"
  by (auto simp: places_def split: if_splits)

lemma lp_inv_place:
  assumes "lp_inv s" and "fd \<noteq> stop_fd s" and "p \<in> places s fd"
  shows "places s fd = {p} \<and> ev_fd (lp_event s fd) = fd \<and>
    (\<exists>r. el_interest (lp_loop s) fd = Some r \<and> rg_event r = AsEpollEvent (lp_event s fd))"
proof -
  have "event_ok s fd" using assms(1,2) by (simp add: lp_inv_def)
  with assms(3) show ?thesis by (auto simp: event_ok_def split: option.splits)
qed

lemma working_place: "lp_runner s t = Working (fd # fds) b \<Longrightarrow> Handled t \<in> places s fd"
  by (simp add: places_def)

lemma lp_inv_start:
  assumes "EventLoop_Setup garbage epoll_descriptor eventfd = Inr el"
  shows "lp_inv (loop_start el ev)"
  using EventLoop_Setup_ok [OF assms]
  by (auto simp: lp_inv_def event_ok_def loop_start_def places_def armed_def)

text \<open>A step that moves one event only.\<close>

lemma lp_inv_move:
  assumes inv: "lp_inv s" and "stop_ok (lp_loop s')" and "stop_fd s' = stop_fd s" and "stop_fd s \<notin> lp_retry s'"
    and "\<forall>t. distinct (batch s' t)"
    and here: "el_interest (lp_loop s') fd = Some r" "rg_event r = AsEpollEvent (lp_event s' fd)"
      "ev_fd (lp_event s' fd) = fd" "places s' fd = {p}"
    and elsewhere: "\<And>g. g \<noteq> fd \<Longrightarrow> el_interest (lp_loop s') g = el_interest (lp_loop s) g \<and>
      lp_event s' g = lp_event s g \<and> places s' g = places s g"
  shows "lp_inv s'"
proof -
  have "event_ok s' g" if "g \<noteq> stop_fd s" for g
  proof (cases "g = fd")
    case True
    with here show ?thesis by (simp add: event_ok_def)
  next
    case False
    then have "event_ok s' g = event_ok s g" using elsewhere [of g] by (intro event_ok_cong) simp_all
    then show ?thesis using inv that by (simp add: lp_inv_def)
  qed
  then show ?thesis using assms(2-5) by (simp add: lp_inv_def)
qed

lemma stop_ok_other:
  assumes "stop_ok el" and "fd \<noteq> el_stop_event_descriptor el"
  shows "stop_ok (el\<lparr>el_interest := (el_interest el)(fd \<mapsto> r)\<rparr>)"
  using assms by (simp add: stop_ok_def)

lemma lp_inv_register:
  assumes inv: "lp_inv s" and add: "EL_AddEvent e (lp_loop s) = Inr el"
  shows "lp_inv (s\<lparr>lp_loop := el, lp_event := (lp_event s)(ev_fd e := e)\<rparr>)" (is "lp_inv ?s")
proof -
  let ?r = "\<lparr>rg_event = AsEpollEvent e, rg_armed = True\<rparr>"
  have new: "el_interest (lp_loop s) (ev_fd e) = None"
    and el: "el = (lp_loop s)\<lparr>el_interest := (el_interest (lp_loop s))(ev_fd e \<mapsto> ?r)\<rparr>"
    using add by (auto simp: EL_AddEvent_eq split: option.splits)
  have fd: "ev_fd e \<noteq> stop_fd s" using new inv by (auto simp: lp_inv_def stop_ok_def)
  then have "places s (ev_fd e) = {}" using inv new by (auto simp: lp_inv_def event_ok_def)
  then have "places ?s (ev_fd e) = {Armed}" by (simp add: places_single el armed_def)
  moreover have "places ?s g = places s g" if "g \<noteq> ev_fd e" for g
    by (rule places_cong) (simp_all add: el armed_def that)
  ultimately show ?thesis
    using inv fd by (intro lp_inv_move [OF inv, of _ "ev_fd e" ?r Armed]) (auto simp: el lp_inv_def stop_ok_other)
qed

text \<open>The event whose handler a runner is in, and the event a timer will re-arm, are registered and nowhere else.\<close>

lemma lp_inv_rearmed:
  assumes inv: "lp_inv s" and fd: "fd \<noteq> stop_fd s" and p: "p \<in> places s fd"
    and mod: "EL_ModEvent (lp_event s fd) (lp_loop s) = Inr el"
    and s': "lp_loop s' = el" "lp_event s' = lp_event s" "lp_retry s' \<subseteq> lp_retry s" "\<forall>t. distinct (batch s' t)"
    and gone: "fd \<notin> lp_retry s'" "\<forall>t. fd \<notin> set (batch s' t)" "fd \<notin> lp_dropped s'"
    and others: "\<And>g t. g \<noteq> fd \<Longrightarrow> (g \<in> set (batch s' t) \<longleftrightarrow> g \<in> set (batch s t)) \<and> (g \<in> lp_retry s' \<longleftrightarrow> g \<in> lp_retry s) \<and>
      (g \<in> lp_dropped s' \<longleftrightarrow> g \<in> lp_dropped s)"
  shows "lp_inv s'"
proof -
  let ?r = "\<lparr>rg_event = AsEpollEvent (lp_event s fd), rg_armed = True\<rparr>"
  have ev: "ev_fd (lp_event s fd) = fd" using lp_inv_place [OF inv fd p] by simp
  then have el: "el = (lp_loop s)\<lparr>el_interest := (el_interest (lp_loop s))(fd \<mapsto> ?r)\<rparr>"
    using mod by (auto simp: EL_ModEvent_eq split: option.splits)
  have "stop_ok el" using inv fd by (simp add: el stop_ok_other lp_inv_def)
  moreover have "places s' fd = {Armed}" using gone s'(1) by (simp add: places_single el armed_def)
  moreover have "places s' g = places s g" if "g \<noteq> fd" for g
    by (rule places_cong) (use that others s'(1) in \<open>auto simp: el armed_def\<close>)
  moreover have "stop_fd s \<notin> lp_retry s'" using inv s'(3) by (auto simp: lp_inv_def)
  ultimately show ?thesis
    using s' ev by (intro lp_inv_move [OF inv, of _ fd ?r Armed]) (simp_all add: el)
qed

lemma lp_inv_left_alone:
  assumes inv: "lp_inv s" and t: "lp_runner s t = Working (fd # fds) b" and fd: "fd \<noteq> stop_fd s"
  shows "lp_inv (run_as t (Working fds b) (s\<lparr>lp_retry := insert fd (lp_retry s)\<rparr>))" (is "lp_inv ?s")
    and "lp_inv (run_as t (Working fds b) (s\<lparr>lp_dropped := insert fd (lp_dropped s)\<rparr>))" (is "lp_inv ?s'")
proof -
  have dist: "distinct (batch s u)" for u using inv by (simp add: lp_inv_def)
  from dist [of t] have tail: "fd \<notin> set fds" "distinct fds" using t by simp_all
  obtain r where r: "places s fd = {Handled t}" "ev_fd (lp_event s fd) = fd" "el_interest (lp_loop s) fd = Some r"
    "rg_event r = AsEpollEvent (lp_event s fd)"
    using lp_inv_place [OF inv fd working_place [OF t]] by blast
  have now: "places ?s fd = {Retrying}" "places ?s' fd = {Dropped}"
    using r(1) tail by (auto simp: places_single)
  have rest: "places ?s g = places s g" "places ?s' g = places s g" if "g \<noteq> fd" for g
    by (rule places_cong; use that t in auto)+
  show "lp_inv ?s"
    by (rule lp_inv_move [OF inv, of _ fd r Retrying]) (use inv dist tail fd r now rest in \<open>auto simp: lp_inv_def\<close>)
  show "lp_inv ?s'"
    by (rule lp_inv_move [OF inv, of _ fd r Dropped]) (use inv dist tail fd r now rest in \<open>auto simp: lp_inv_def\<close>)
qed

lemma lp_inv_wait:
  assumes inv: "lp_inv s" and t: "lp_runner s t = Waiting" and dist: "distinct fds"
    and wait: "epoll_wait fds (lp_loop s) = Some el"
  shows "lp_inv (run_as t (Working fds False) (s\<lparr>lp_loop := el\<rparr>))" (is "lp_inv ?s")
proof -
  note frame = epoll_wait_frame [OF wait] and rep = epoll_wait_reported [OF wait dist]
  have empty: "batch s t = []" using t by simp
  have stop: "stop_ok el" using inv frame rep [of "stop_fd s"] by (fastforce simp: lp_inv_def stop_ok_def)
  have "event_ok ?s fd"
    if fd: "fd \<noteq> stop_fd s" for fd
  proof (cases "fd \<in> set fds")
    case True
    then obtain r where r: "el_interest (lp_loop s) fd = Some r" "rg_armed r"
      "el_interest el fd = Some (r\<lparr>rg_armed := ee_events (rg_event r) AND EPOLLONESHOT = 0\<rparr>)"
      using rep by blast
    have "places s fd = {Armed} \<and> ev_fd (lp_event s fd) = fd \<and> rg_event r = AsEpollEvent (lp_event s fd)"
      using lp_inv_place [OF inv fd, of Armed] r(1,2) by (auto simp: places_def armed_def)
    moreover from this have "places ?s fd = {Handled t}"
      using r True oneshot_event by (simp add: places_single armed_def)
    ultimately show ?thesis using r(3) by (simp add: event_ok_def)
  next
    case False
    then have "places ?s fd = places s fd" by (intro places_cong) (simp_all add: armed_def frame empty)
    then have "event_ok ?s fd = event_ok s fd" using False frame by (intro event_ok_cong) simp_all
    then show ?thesis using inv fd by (simp add: lp_inv_def)
  qed
  then show ?thesis using inv stop frame dist by (auto simp: lp_inv_def)
qed

lemma lp_inv_same:
  assumes "lp_inv s" and "lp_event s' = lp_event s" and "lp_retry s' = lp_retry s" and "lp_dropped s' = lp_dropped s"
    and "el_interest (lp_loop s') = el_interest (lp_loop s)" and "stop_fd s' = stop_fd s"
    and "\<forall>t. distinct (batch s' t)"
    and "\<And>t fd. fd \<noteq> stop_fd s \<Longrightarrow> fd \<in> set (batch s' t) \<longleftrightarrow> fd \<in> set (batch s t)"
  shows "lp_inv s'"
proof -
  have "event_ok s' fd = event_ok s fd" if "fd \<noteq> stop_fd s" for fd
    by (intro event_ok_cong places_cong) (use assms that in \<open>auto simp: armed_def\<close>)
  then show ?thesis using assms(1-7) by (simp add: lp_inv_def stop_ok_def)
qed

lemma lp_inv_step:
  assumes "lp_step s s'" and inv: "lp_inv s"
  shows "lp_inv s'"
proof -
  have dist: "distinct (batch s t)" for t using inv by (simp add: lp_inv_def)
  from assms(1) show ?thesis
  proof cases
    case (register e el)
    then show ?thesis using lp_inv_register [OF inv] by simp
  next
    case (wait t fds el)
    then show ?thesis using lp_inv_wait [OF inv] by simp
  next
    case (stop_event t fd fds b)
    with dist [of t] show ?thesis by (intro lp_inv_same [OF inv]) (auto simp: dist)
  next
    case (rearm t fd fds b el)
    have "places s fd = {Handled t}"
      using lp_inv_place [OF inv rearm(3) working_place [OF rearm(2)]] by blast
    with rearm dist [of t] show ?thesis
      by (intro lp_inv_rearmed [OF inv rearm(3) working_place [OF rearm(2)] rearm(4)]) (auto simp: places_single dist)
  next
    case (later t fd fds b)
    then show ?thesis using lp_inv_left_alone(1) [OF inv] by simp
  next
    case (give_up t fd fds b)
    then show ?thesis using lp_inv_left_alone(2) [OF inv] by simp
  next
    case (retry fd el)
    have fd: "fd \<noteq> stop_fd s" using retry(2) inv by (auto simp: lp_inv_def)
    have p: "Retrying \<in> places s fd" using retry(2) by (simp add: places_def)
    then have "places s fd = {Retrying}" using lp_inv_place [OF inv fd] by blast
    with retry show ?thesis
      by (intro lp_inv_rearmed [OF inv fd p retry(3)]) (auto simp: places_single dist)
  next
    case (finished t b)
    with dist show ?thesis by (intro lp_inv_same [OF inv]) auto
  next
    case (trigger code el)
    with dist show ?thesis
      by (intro lp_inv_same [OF inv]) (auto simp: TriggerStopEvent_def CANNOT_FAIL_def split: if_splits)
  qed
qed

lemma lp_reach_inv: "lp_reach s \<Longrightarrow> lp_inv s"
  by (induction rule: lp_reach.induct) (auto intro: lp_inv_start lp_inv_step)

text \<open>A reported event goes to the handler that was registered for the descriptor, with its type.\<close>

lemma reported_event_dispatched:
  assumes "lp_reach s" and "fd \<noteq> stop_fd s" and "el_interest (lp_loop s) fd = Some r"
    and "data_fd (ev_handler (lp_event s fd)) \<noteq> stop_fd s" and "ToEventType flags = Inr (ev_type (lp_event s fd))"
  shows "HandleEpollEvent (stop_fd s) handle \<lparr>ee_events = flags, ee_data = ee_data (rg_event r)\<rparr> st =
    fbind (handle (ev_handler (lp_event s fd)) (ev_type (lp_event s fd)) st) (\<lambda>st. Inr (True, st))"
proof -
  have "event_ok s fd" using lp_reach_inv [OF assms(1)] assms(2) by (simp add: lp_inv_def)
  then show ?thesis using assms(3-5) by (simp add: event_ok_def HandleEpollEvent_def AsEpollEvent_def)
qed

text \<open>
  Starting a channel registers its two handlers. A descriptor can be registered once only: it is
  the duplicate of the descriptor that makes the second registration possible.
\<close>

lemma Register_both:
  assumes "el_interest el (of_int (us_write_event_fd socket)) = None"
    and "el_interest el (of_int (us_read_event_fd socket)) = None"
    and "(of_int (us_write_event_fd socket) :: u32) \<noteq> of_int (us_read_event_fd socket)"
  shows "\<exists>we re el'. Register wh rh socket el = Inr (we, re, el') \<and> ev_handler we = wh \<and> ev_type we = kWriteReady \<and>
    ev_handler re = rh \<and> ev_type re = kReadReady \<and> armed el' (of_int (us_write_event_fd socket)) \<and>
    armed el' (of_int (us_read_event_fd socket))"
  using assms by (simp add: Register_def EL_AddEvent_eq armed_def Let_def)

lemma Register_same_descriptor:
  assumes "(of_int (us_write_event_fd socket) :: u32) = of_int (us_read_event_fd socket)"
  shows "Register wh rh socket el = Inl SyscallFailed"
  using assms by (simp add: Register_def EL_AddEvent_eq Let_def split: option.split)


section \<open>Example\<close>

text \<open>An event on descriptor 5 is registered and reported to the first runner.\<close>

definition loop_demo_event :: Event where
  "loop_demo_event = \<lparr>ev_fd = 5, ev_handler = 64, ev_type = kReadReady\<rparr>"

definition loop_demo_start :: loop_system where
  "loop_demo_start = loop_start \<lparr>el_interest = [4 \<mapsto> \<lparr>rg_event = \<lparr>ee_events = EPOLLIN, ee_data = 4\<rparr>, rg_armed = True\<rparr>],
     el_stop_event_descriptor = 4, el_stop_value = 0\<rparr> (\<lambda>_. loop_demo_event)"

definition loop_demo_registered :: loop_system where
  "loop_demo_registered = loop_demo_start\<lparr>lp_loop := (lp_loop loop_demo_start)\<lparr>el_interest :=
     (el_interest (lp_loop loop_demo_start))(5 \<mapsto> \<lparr>rg_event = AsEpollEvent loop_demo_event, rg_armed = True\<rparr>)\<rparr>,
     lp_event := (lp_event loop_demo_start)(5 := loop_demo_event)\<rparr>"

definition loop_demo :: loop_system where
  "loop_demo = run_as 0 (Working [5] False)
     (loop_demo_registered\<lparr>lp_loop := disarm 5 (lp_loop loop_demo_registered)\<rparr>)"

lemmas loop_demo_defs = loop_demo_def loop_demo_registered_def loop_demo_start_def loop_demo_event_def loop_start_def

lemma loop_demo_reach: "lp_reach loop_demo"
proof -
  have "EventLoop_Setup 0 3 4 = Inr (lp_loop loop_demo_start)"
    by (simp add: EventLoop_Setup_def EpollCreate_def EL_SetupStopEvent_def CANNOT_FAIL_def SetupStopEvent_def
        make_ctl_def loop_demo_defs)
  then have "lp_reach loop_demo_start"
    using lp_reach.start [of 0 3 4] by (simp add: loop_demo_start_def loop_start_def)
  moreover have "EL_AddEvent loop_demo_event (lp_loop loop_demo_start) = Inr (lp_loop loop_demo_registered)"
    by (simp add: EL_AddEvent_eq loop_demo_defs)
  then have "lp_step loop_demo_start loop_demo_registered"
    using lp_step.register [of loop_demo_event loop_demo_start] by (simp add: loop_demo_defs)
  moreover have "epoll_wait [5] (lp_loop loop_demo_registered) = Some (disarm 5 (lp_loop loop_demo_registered))"
    by (simp add: reportable_def loop_demo_defs)
  then have "lp_step loop_demo_registered loop_demo"
    using lp_step.wait [of loop_demo_registered 0 "[5]"] unfolding loop_demo_def
    by (simp add: loop_demo_registered_def loop_demo_start_def loop_start_def)
  ultimately show ?thesis by (blast intro: lp_reach.step)
qed


end
