(* ===== verification/Diagnostics.thy ===== *)
theory Diagnostics
  imports Concurrent_Containers Parser
begin

text \<open>
  The counters of \<open>include/util/statistics.hpp\<close>, with the changes that the shared send
  budget (\<open>include/concurrency/budget.hpp\<close>) reports to them, and the logger of
  \<open>include/util/logging.hpp\<close>. The counters are atomic and the logger holds its mutex, so
  every operation is one function on the state.
\<close>

section \<open>Counters\<close>

text \<open>\<open>int64_t\<close>: \<open>fetch_add\<close> wraps in two's complement.\<close>

type_synonym i64 = "64 word"

record Statistics =
  backoff_retries :: i64
  backoff_deletions :: i64
  write_queue_size :: i64
  acks_received :: i64
  pkts_received :: i64
  pkts_sent :: i64
  send_budget :: i64
  duplicate_pkts :: i64
  dropped_pkts :: i64
  pending_futures :: i64
  deleted_urb_msgs :: i64

definition Statistics_init :: Statistics where
  "Statistics_init = \<lparr>backoff_retries = 0, backoff_deletions = 0, write_queue_size = 0, acks_received = 0,
     pkts_received = 0, pkts_sent = 0, send_budget = 0, duplicate_pkts = 0, dropped_pkts = 0,
     pending_futures = 0, deleted_urb_msgs = 0\<rparr>"

text \<open>\<open>Mapping\<close> applies an operation to the counter of that name, and asserts that there is one.\<close>

definition Mapping :: "string \<Rightarrow> (i64 \<Rightarrow> i64) \<Rightarrow> Statistics \<Rightarrow> fault + (i64 \<times> Statistics)" where
  "Mapping name f st =
     (if name = ''backoff_retries'' then Inr (backoff_retries st, st\<lparr>backoff_retries := f (backoff_retries st)\<rparr>)
      else if name = ''backoff_deletions'' then Inr (backoff_deletions st, st\<lparr>backoff_deletions := f (backoff_deletions st)\<rparr>)
      else if name = ''write_queue_size'' then Inr (write_queue_size st, st\<lparr>write_queue_size := f (write_queue_size st)\<rparr>)
      else if name = ''acks_received'' then Inr (acks_received st, st\<lparr>acks_received := f (acks_received st)\<rparr>)
      else if name = ''pkts_received'' then Inr (pkts_received st, st\<lparr>pkts_received := f (pkts_received st)\<rparr>)
      else if name = ''pkts_sent'' then Inr (pkts_sent st, st\<lparr>pkts_sent := f (pkts_sent st)\<rparr>)
      else if name = ''send_budget'' then Inr (send_budget st, st\<lparr>send_budget := f (send_budget st)\<rparr>)
      else if name = ''duplicate_pkts'' then Inr (duplicate_pkts st, st\<lparr>duplicate_pkts := f (duplicate_pkts st)\<rparr>)
      else if name = ''dropped_pkts'' then Inr (dropped_pkts st, st\<lparr>dropped_pkts := f (dropped_pkts st)\<rparr>)
      else if name = ''pending_futures'' then Inr (pending_futures st, st\<lparr>pending_futures := f (pending_futures st)\<rparr>)
      else if name = ''deleted_urb_msgs'' then Inr (deleted_urb_msgs st, st\<lparr>deleted_urb_msgs := f (deleted_urb_msgs st)\<rparr>)
      else Inl AssertFailed)"

definition Statistics_Change :: "string \<Rightarrow> i64 \<Rightarrow> Statistics \<Rightarrow> fault + Statistics" where
  "Statistics_Change name difference st =
     fbind (Mapping name (\<lambda>v. v + difference) st) (\<lambda>(_, st). Inr st)"

definition Statistics_Get :: "string \<Rightarrow> Statistics \<Rightarrow> fault + i64" where
  "Statistics_Get name st = fbind (Mapping name (\<lambda>v. v) st) (\<lambda>(v, _). Inr v)"

definition GetSnapshot :: "Statistics \<Rightarrow> Statistics" where
  "GetSnapshot st = \<lparr>backoff_retries = backoff_retries st, backoff_deletions = backoff_deletions st,
     write_queue_size = write_queue_size st, acks_received = acks_received st,
     pkts_received = pkts_received st, pkts_sent = pkts_sent st, send_budget = send_budget st,
     duplicate_pkts = duplicate_pkts st, dropped_pkts = dropped_pkts st,
     pending_futures = pending_futures st, deleted_urb_msgs = deleted_urb_msgs st\<rparr>"

text \<open>\<open>std::setw(25) << std::left\<close>, and the decimal form of a signed number.\<close>

definition pad_left :: "nat \<Rightarrow> string \<Rightarrow> string" where
  "pad_left n s = s @ replicate (n - length s) CHR '' ''"

definition show_signed :: "i64 \<Rightarrow> string" where
  "show_signed v = (if sint v < 0 then ''-'' @ show_nat (nat (- sint v)) else show_nat (nat (sint v)))"

definition print_line :: "string \<Rightarrow> i64 \<Rightarrow> string" where
  "print_line label v = pad_left 25 label @ show_signed v @ [CHR 0x0A]"

definition Snapshot_Print :: "Statistics \<Rightarrow> string" where
  "Snapshot_Print s =
     print_line ''Backoff retries:'' (backoff_retries s) @
     print_line ''Backoff deletions:'' (backoff_deletions s) @
     print_line ''Write queue size:'' (write_queue_size s) @
     print_line ''Acks received:'' (acks_received s) @
     print_line ''Pkts received:'' (pkts_received s) @
     print_line ''Pkts sent:'' (pkts_sent s) @
     print_line ''Send budget:'' (send_budget s) @
     print_line ''Duplicate pkts:'' (duplicate_pkts s) @
     print_line ''Dropped pkts:'' (dropped_pkts s) @
     print_line ''Pending futures:'' (pending_futures s) @
     print_line ''Deleted urb msgs:'' (deleted_urb_msgs s) @ [CHR 0x0A]"

definition counter_names :: "string list" where
  "counter_names = [''backoff_retries'', ''backoff_deletions'', ''write_queue_size'', ''acks_received'',
     ''pkts_received'', ''pkts_sent'', ''send_budget'', ''duplicate_pkts'', ''dropped_pkts'',
     ''pending_futures'', ''deleted_urb_msgs'']"

lemma Mapping_known: "(\<exists>p. Mapping name f st = Inr p) \<longleftrightarrow> name \<in> set counter_names"
  by (simp add: Mapping_def counter_names_def)

text \<open>The names that the rest of the program uses are known.\<close>

lemma names_used_known:
  "set [''deleted_urb_msgs'', ''pending_futures'', ''send_budget'', ''backoff_retries'', ''backoff_deletions'',
     ''acks_received'', ''dropped_pkts'', ''write_queue_size'', ''duplicate_pkts'', ''pkts_sent'', ''pkts_received'']
   = set counter_names"
  by (auto simp: counter_names_def)

lemma Change_known: "(\<exists>st'. Statistics_Change name d st = Inr st') \<longleftrightarrow> name \<in> set counter_names"
  unfolding Statistics_Change_def Mapping_known [of name "\<lambda>v. v + d" st, symmetric]
  by (cases "Mapping name (\<lambda>v. v + d) st") (auto simp: split_beta)

text \<open>
  The two operations as a table of the counters: position \<open>i\<close> belongs to the name at
  position \<open>i\<close> of \<open>counter_names\<close>.
\<close>

definition counters :: "Statistics \<Rightarrow> i64 list" where
  "counters st = [backoff_retries st, backoff_deletions st, write_queue_size st, acks_received st,
     pkts_received st, pkts_sent st, send_budget st, duplicate_pkts st, dropped_pkts st,
     pending_futures st, deleted_urb_msgs st]"

lemma length_counters [simp]: "length (counters st) = 11"
  by (simp add: counters_def)

lemma length_counter_names [simp]: "length counter_names = 11"
  by (simp add: counter_names_def)

lemma distinct_counter_names: "distinct counter_names"
  by (simp add: counter_names_def)

lemma less_11: "i < (11 :: nat) \<longleftrightarrow> i \<in> {0, 1, 2, 3, 4, 5, 6, 7, 8, 9, 10}"
  unfolding insert_iff empty_iff by presburger

lemma Mapping_nth:
  assumes "i < 11"
  shows "\<exists>st'. Mapping (counter_names ! i) f st = Inr (counters st ! i, st') \<and>
    counters st' = (counters st)[i := f (counters st ! i)]"
proof -
  have "i \<in> {0, 1, 2, 3, 4, 5, 6, 7, 8, 9, 10}" using assms less_11 by simp
  then show ?thesis
    by (simp only: insert_iff empty_iff; elim disjE) (simp_all add: counter_names_def counters_def Mapping_def)
qed

lemma Statistics_Get_nth: "i < 11 \<Longrightarrow> Statistics_Get (counter_names ! i) st = Inr (counters st ! i)"
  using Mapping_nth [of i "\<lambda>v. v" st] by (auto simp: Statistics_Get_def)

lemma Statistics_Change_nth:
  "i < 11 \<Longrightarrow> \<exists>st'. Statistics_Change (counter_names ! i) d st = Inr st' \<and>
     counters st' = (counters st)[i := counters st ! i + d]"
  using Mapping_nth [of i "\<lambda>v. v + d" st] by (auto simp: Statistics_Change_def)

lemma known_index: "name \<in> set counter_names \<Longrightarrow> \<exists>i<11. counter_names ! i = name"
  by (simp add: in_set_conv_nth)

fun Changes :: "(string \<times> i64) list \<Rightarrow> Statistics \<Rightarrow> fault + Statistics" where
  "Changes [] st = Inr st"
| "Changes ((name, d) # rest) st = fbind (Statistics_Change name d st) (Changes rest)"

lemma Changes_index:
  assumes "\<forall>(name, d) \<in> set ds. name \<in> set counter_names" and "i < 11"
  shows "\<exists>st'. Changes ds st = Inr st' \<and>
    counters st' ! i = counters st ! i + (\<Sum>(name, d) \<leftarrow> ds. if name = counter_names ! i then d else 0)"
  using assms(1)
proof (induction ds arbitrary: st)
  case (Cons p ds)
  obtain name d where p: "p = (name, d)" by (cases p)
  with Cons.prems obtain j where j: "j < 11" "counter_names ! j = name" using known_index by auto
  obtain st1 where st1: "Statistics_Change name d st = Inr st1" "counters st1 = (counters st)[j := counters st ! j + d]"
    using Statistics_Change_nth [OF j(1), of d st] j(2) by auto
  have same: "name = counter_names ! i \<longleftrightarrow> j = i"
    using j assms(2) distinct_counter_names by (auto simp: nth_eq_iff_index_eq)
  from Cons.IH [of st1] Cons.prems p show ?case
    using st1 j assms(2) same by (auto simp: add.assoc)
qed simp

text \<open>
  Whatever the threads report, in whatever order, a counter holds the sum of the differences
  reported under its name, and no report under a known name fails.
\<close>

lemma statistics_exact:
  assumes "\<forall>(name, d) \<in> set ds. name \<in> set counter_names" and "name \<in> set counter_names"
  shows "\<exists>st. Changes ds Statistics_init = Inr st \<and>
    Statistics_Get name st = Inr (\<Sum>(n, d) \<leftarrow> ds. if n = name then d else 0)"
proof -
  from known_index [OF assms(2)] obtain i where i: "i < 11" "counter_names ! i = name" by blast
  have "counters Statistics_init ! i = 0"
    using i(1) unfolding less_11 insert_iff empty_iff
    by (elim disjE) (simp_all add: counters_def Statistics_init_def)
  with Changes_index [OF assms(1) i(1), of Statistics_init] i Statistics_Get_nth [OF i(1)] show ?thesis
    by auto
qed

section \<open>What the send budget reports\<close>

text \<open>The differences that \<open>SharedBudget\<close> reports as \<open>send_budget\<close>.\<close>

definition SharedBudget_report :: "u64 \<Rightarrow> i64" where
  "SharedBudget_report initial_budget = initial_budget"

definition Credit_report :: "u64 \<Rightarrow> SharedBudget \<Rightarrow> i64" where
  "Credit_report max_credit b = - min (sb_counter b) max_credit"

definition TopUp_report :: "u64 \<Rightarrow> SharedBudget \<Rightarrow> i64" where
  "TopUp_report credit b = min (sb_max_budget b - sb_counter b) credit"

lemma Credit_report_exact: "sb_counter (snd (Credit c b)) = sb_counter b + Credit_report c b"
  by (simp add: Credit_def Credit_report_def Let_def)

lemma TopUp_report_exact:
  assumes "budget_ok b" and "unat (sb_counter b) + unat c < 2 ^ 64"
  shows "sb_counter (TopUp c b) = sb_counter b + TopUp_report c b"
proof -
  let ?m = "sb_max_budget b" and ?n = "sb_counter b"
  have le: "unat ?n \<le> unat ?m" using assms(1) by (simp add: budget_ok_def word_le_nat_alt)
  then have sub: "unat (?m - ?n) = unat ?m - unat ?n" by (simp add: unat_sub word_le_nat_alt)
  have add: "unat (?n + c) = unat ?n + unat c" using assms(2) by (simp add: unat_word_ariths)
  show ?thesis
  proof (cases "unat ?m - unat ?n \<le> unat c")
    case True
    then have "min (?n + c) ?m = ?m" and "min (?m - ?n) c = ?m - ?n"
      by (simp_all add: min_absorb1 min_absorb2 word_le_nat_alt add sub)
    then show ?thesis by (simp add: TopUp_def TopUp_report_def)
  next
    case False
    then have "min (?n + c) ?m = ?n + c" and "min (?m - ?n) c = c"
      by (simp_all add: min_absorb1 min_absorb2 word_le_nat_alt add sub)
    then show ?thesis by (simp add: TopUp_def TopUp_report_def)
  qed
qed

section \<open>The logger\<close>

text \<open>
  A tag is printed with its colours, reset afterwards, and padded; the tag \<open>TID\<close> carries
  the identifier of the thread, which is an argument here. The lookup \<open>tags[tag]\<close> inserts
  an empty entry for a tag that is not registered.
\<close>

record Tag =
  tag_codes :: "nat list"
  tag_padding_right :: nat
  tag_metainfo :: bool

definition default_tag :: Tag where
  "default_tag = \<lparr>tag_codes = [], tag_padding_right = 1, tag_metainfo = False\<rparr>"

definition plain_tag :: "nat list \<Rightarrow> nat \<Rightarrow> Tag" where
  "plain_tag codes padding = \<lparr>tag_codes = codes, tag_padding_right = padding, tag_metainfo = False\<rparr>"

definition register_tags :: "string \<rightharpoonup> Tag" where
  "register_tags =
     [''EVENTS'' \<mapsto> plain_tag [33] 1, ''TIMERS'' \<mapsto> plain_tag [94] 1, ''SOCKET'' \<mapsto> plain_tag [91] 1,
      ''LOSSCH'' \<mapsto> plain_tag [92] 1, ''RELICH'' \<mapsto> plain_tag [95] 1, ''BRB'' \<mapsto> plain_tag [96] 4,
      ''URB'' \<mapsto> plain_tag [34] 4, ''FIFO'' \<mapsto> plain_tag [35] 3, ''LATTIC'' \<mapsto> plain_tag [36] 1,
      ''SYSTEM'' \<mapsto> plain_tag [36] 1,
      ''TID'' \<mapsto> \<lparr>tag_codes = [32, 1], tag_padding_right = 1, tag_metainfo = True\<rparr>,
      ''ERROR'' \<mapsto> plain_tag [31, 1] 1, ''DEBUG'' \<mapsto> plain_tag [35, 1] 1, ''INFO'' \<mapsto> plain_tag [34] 2]"

definition Modifier :: "nat \<Rightarrow> string" where
  "Modifier code = CHR 0x1B # ''['' @ show_nat code @ ''m''"

definition print_tag :: "string \<Rightarrow> string \<Rightarrow> (string \<rightharpoonup> Tag) \<Rightarrow> string \<times> (string \<rightharpoonup> Tag)" where
  "print_tag tid tag tags =
     (let (tag_info, tags) = (case tags tag of Some i \<Rightarrow> (i, tags) | None \<Rightarrow> (default_tag, tags(tag \<mapsto> default_tag)))
      in (''['' @ concat (map Modifier (tag_codes tag_info)) @ tag @ Modifier 0 @
          (if tag_metainfo tag_info then '': '' @ tid else []) @ '']'' @
          replicate (tag_padding_right tag_info) CHR '' '', tags))"

datatype Mode = ERROR | DEBUG | INFO

definition mode_tag :: "Mode \<Rightarrow> string" where
  "mode_tag mode = (case mode of ERROR \<Rightarrow> ''ERROR'' | DEBUG \<Rightarrow> ''DEBUG'' | INFO \<Rightarrow> ''INFO'')"

definition log_message :: "string \<Rightarrow> Mode \<Rightarrow> string \<Rightarrow> string \<Rightarrow> (string \<rightharpoonup> Tag) \<Rightarrow> string \<times> (string \<rightharpoonup> Tag)" where
  "log_message tid mode tag message tags =
     (let (s1, tags) = print_tag tid (mode_tag mode) tags;
          (s2, tags) = print_tag tid ''TID'' tags;
          (s3, tags) = print_tag tid tag tags
      in (s1 @ s2 @ s3 @ message @ [CHR 0x0A], tags))"

text \<open>The macros: which of them are not empty for a set of defined symbols.\<close>

definition LOG_enabled :: "Mode set \<Rightarrow> Mode \<Rightarrow> bool" where
  "LOG_enabled defined mode =
     (case mode of
        ERROR \<Rightarrow> ERROR \<in> defined \<or> INFO \<in> defined \<or> DEBUG \<in> defined
      | INFO \<Rightarrow> INFO \<in> defined \<or> DEBUG \<in> defined
      | DEBUG \<Rightarrow> DEBUG \<in> defined)"

definition ToString :: "AddrInfo \<Rightarrow> string" where
  "ToString addr_info = '':'' @ show_nat (unat (htons (sin_port addr_info)))"

text \<open>
  An unregistered tag costs one entry, once, and is printed without colours from then on; the
  registered ones are never changed.
\<close>

lemma print_tag_known: "tags tag = Some i \<Longrightarrow> snd (print_tag tid tag tags) = tags"
  by (simp add: print_tag_def)

lemma print_tag_stable: "tags other = Some i \<Longrightarrow> snd (print_tag tid tag tags) other = Some i"
  by (cases "tags tag") (auto simp: print_tag_def)

lemma print_tag_again:
  "print_tag tid tag (snd (print_tag tid tag tags)) = (fst (print_tag tid tag tags), snd (print_tag tid tag tags))"
  by (cases "tags tag") (simp_all add: print_tag_def)

lemma log_message_registered:
  assumes "register_tags tag = Some i"
  shows "snd (log_message tid mode tag message register_tags) = register_tags"
proof -
  have "\<exists>j. register_tags (mode_tag mode) = Some j" by (cases mode) (simp_all add: mode_tag_def register_tags_def)
  moreover have "\<exists>j. register_tags ''TID'' = Some j" by (simp add: register_tags_def)
  ultimately show ?thesis using assms
    by (auto simp: log_message_def split_beta print_tag_known)
qed

text \<open>A symbol that enables one level enables the levels above it.\<close>

lemma LOG_levels:
  "LOG_enabled defined DEBUG \<Longrightarrow> LOG_enabled defined INFO"
  "LOG_enabled defined INFO \<Longrightarrow> LOG_enabled defined ERROR"
  by (auto simp: LOG_enabled_def)

end
