(* ===== verification/Wait_Group.thy ===== *)
theory Wait_Group
  imports Fiber_Sync Event_Loop
begin

text \<open>
  The futex wrappers (\<open>src/concurrency/futex.cpp\<close>) and the wait group over them, with one
  shared access or system call per step. The kernel is the one documented in \<open>futex(2)\<close>:
  \<open>FUTEX_WAIT\<close> compares the word with the expected value and puts the caller to sleep in one
  atomic step, or returns \<open>EAGAIN\<close>; \<open>FUTEX_WAKE\<close> wakes as many sleepers as asked for, which
  ones is not specified; a sleeper may also return for no reason.
\<close>

section \<open>The wrappers\<close>

datatype futex_call = FUTEX_WAIT u32 | FUTEX_WAKE u32

definition EAGAIN :: int where "EAGAIN = 11"
definition EINTR :: int where "EINTR = 4"

text \<open>What the wrapper makes of the answer of the call.\<close>

definition Futex :: "int \<Rightarrow> int \<Rightarrow> fault + unit" where
  "Futex errcode errno = (if errcode = -1 \<and> errno = EAGAIN then Inr () else CANNOT_FAIL errcode ())"

definition AtomicWait :: "u32 \<Rightarrow> futex_call" where
  "AtomicWait v = FUTEX_WAIT v"

definition AtomicWakeOne :: futex_call where
  "AtomicWakeOne = FUTEX_WAKE 1"

definition AtomicWakeAll :: futex_call where
  "AtomicWakeAll = (let all_waiters = 2147483647 in FUTEX_WAKE all_waiters)"

lemma Futex_cases: "Futex errcode errno = Inr () \<longleftrightarrow> errcode \<noteq> -1 \<or> errno = EAGAIN"
  by (simp add: Futex_def CANNOT_FAIL_def)

lemma interrupted_wait_fails: "Futex (-1) EINTR = Inl SyscallFailed"
  by (simp add: Futex_def CANNOT_FAIL_def EAGAIN_def EINTR_def)

section \<open>Threads at a wait group\<close>

text \<open>
  Where a thread is: outside of the operations; in \<open>Done\<close> between the subtraction that gave 0 and
  the call that wakes; in \<open>Wait\<close> with the value it read; asleep in the call; in \<open>Wait\<close> after the call.
\<close>

datatype wg_place = Outside | Waking | Testing u32 | Sleeping | Reloading

record wg_conf =
  wg_counter :: u32
  wg_place :: "nat \<Rightarrow> wg_place"

definition wg_init :: wg_conf where
  "wg_init = \<lparr>wg_counter = 0, wg_place = (\<lambda>_. Outside)\<rparr>"

definition wg_move :: "nat \<Rightarrow> wg_place \<Rightarrow> wg_conf \<Rightarrow> wg_conf" where
  "wg_move t x w = w\<lparr>wg_place := (wg_place w)(t := x)\<rparr>"

definition sleepers :: "wg_conf \<Rightarrow> nat set" where
  "sleepers w = {t. wg_place w t = Sleeping}"

definition wake :: "nat set \<Rightarrow> wg_conf \<Rightarrow> wg_conf" where
  "wake W w = w\<lparr>wg_place := (\<lambda>t. if t \<in> W then Reloading else wg_place w t)\<rparr>"

text \<open>The threads are those of \<open>T\<close>; a call of \<open>Add\<close> does not overflow the counter.\<close>

inductive wg_step :: "nat set \<Rightarrow> wg_conf \<Rightarrow> wg_conf \<Rightarrow> bool" for T where
  add: "t \<in> T \<Longrightarrow> wg_place w t = Outside \<Longrightarrow> unat (wg_counter w) + unat n < 4294967296 \<Longrightarrow>
    wg_step T w (w\<lparr>wg_counter := WaitGroup_Add n (wg_counter w)\<rparr>)"
| done_subtract: "t \<in> T \<Longrightarrow> wg_place w t = Outside \<Longrightarrow> WaitGroup_Done n (wg_counter w) = (zero, c) \<Longrightarrow>
    wg_step T w (wg_move t (if zero then Waking else Outside) (w\<lparr>wg_counter := c\<rparr>))"
| done_wake: "wg_place w t = Waking \<Longrightarrow> AtomicWakeAll = FUTEX_WAKE n \<Longrightarrow> W \<subseteq> sleepers w \<Longrightarrow>
    card W = min (unat n) (card (sleepers w)) \<Longrightarrow> Futex (int (card W)) errno = Inr () \<Longrightarrow>
    wg_step T w (wg_move t Outside (wake W w))"
| wait_load: "t \<in> T \<Longrightarrow> wg_place w t = Outside \<Longrightarrow> wg_step T w (wg_move t (Testing (wg_counter w)) w)"
| wait_return: "wg_place w t = Testing 0 \<Longrightarrow> wg_step T w (wg_move t Outside w)"
| wait_sleep: "wg_place w t = Testing count \<Longrightarrow> count \<noteq> 0 \<Longrightarrow> AtomicWait count = FUTEX_WAIT v \<Longrightarrow> wg_counter w = v \<Longrightarrow>
    wg_step T w (wg_move t Sleeping w)"
| wait_again: "wg_place w t = Testing count \<Longrightarrow> count \<noteq> 0 \<Longrightarrow> AtomicWait count = FUTEX_WAIT v \<Longrightarrow> wg_counter w \<noteq> v \<Longrightarrow>
    Futex (-1) EAGAIN = Inr () \<Longrightarrow> wg_step T w (wg_move t Reloading w)"
| spurious: "wg_place w t = Sleeping \<Longrightarrow> Futex 0 errno = Inr () \<Longrightarrow> wg_step T w (wg_move t Reloading w)"
| reload: "wg_place w t = Reloading \<Longrightarrow> wg_step T w (wg_move t (Testing (wg_counter w)) w)"

inductive wg_reach :: "nat set \<Rightarrow> wg_conf \<Rightarrow> bool" for T where
  start: "wg_reach T wg_init"
| step: "wg_reach T w \<Longrightarrow> wg_step T w w' \<Longrightarrow> wg_reach T w'"

section \<open>No wake-up is lost\<close>

lemma sleepers_simps [simp]:
  "sleepers (wg_move t x w) = (if x = Sleeping then insert t (sleepers w) else sleepers w - {t})"
  "sleepers (w\<lparr>wg_counter := c\<rparr>) = sleepers w"
  "sleepers (wake W w) = sleepers w - W"
  by (auto simp: sleepers_def wg_move_def wake_def split: if_splits)

definition wg_inv :: "nat set \<Rightarrow> wg_conf \<Rightarrow> bool" where
  "wg_inv T w \<longleftrightarrow> (\<forall>t. wg_place w t \<noteq> Outside \<longrightarrow> t \<in> T) \<and>
     (wg_counter w = 0 \<longrightarrow> sleepers w \<noteq> {} \<longrightarrow> (\<exists>u. wg_place w u = Waking))"

lemma wg_inv_threads: "wg_inv T w \<Longrightarrow> sleepers w \<subseteq> T"
  by (auto simp: wg_inv_def sleepers_def)

lemma wake_all:
  assumes "AtomicWakeAll = FUTEX_WAKE n" and "W \<subseteq> sleepers w" and "card W = min (unat n) (card (sleepers w))"
    and "finite (sleepers w)" and "card (sleepers w) \<le> 2147483647"
  shows "W = sleepers w"
proof -
  have "unat n = 2147483647" using assms(1) by (auto simp: AtomicWakeAll_def)
  then have "card W = card (sleepers w)" using assms(3,5) by simp
  then show ?thesis by (rule card_subset_eq [OF assms(4,2)])
qed

lemma no_overflow_zero:
  fixes c n :: u32
  assumes "c + n = 0" and "unat c + unat n < 4294967296"
  shows "c = 0"
proof -
  have "unat (c + n) = unat c + unat n" using assms(2) by (simp add: unat_word_ariths)
  then show ?thesis using assms(1) by (simp add: unat_eq_0 flip: unat_eq_0)
qed

lemma wg_move_simps [simp]:
  "wg_place (wg_move t x w) u = (if u = t then x else wg_place w u)" "wg_counter (wg_move t x w) = wg_counter w"
  by (simp_all add: wg_move_def)

lemma wg_inv_move:
  assumes inv: "wg_inv T w" and t: "wg_place w t \<noteq> Waking" "t \<in> T" and x: "x \<noteq> Sleeping"
  shows "wg_inv T (wg_move t x w)"
proof -
  have "\<exists>u. wg_place (wg_move t x w) u = Waking" if zero: "wg_counter w = 0" "sleepers w - {t} \<noteq> {}"
  proof -
    obtain u where "wg_place w u = Waking" using inv zero unfolding wg_inv_def by blast
    then show ?thesis using t(1) by (intro exI [of _ u]) auto
  qed
  moreover have "\<forall>u. wg_place w u \<noteq> Outside \<longrightarrow> u \<in> T" using inv by (simp add: wg_inv_def)
  ultimately show ?thesis using t(2) x by (simp add: wg_inv_def)
qed

lemma wg_inv_thread: "wg_inv T w \<Longrightarrow> wg_place w t \<noteq> Outside \<Longrightarrow> t \<in> T"
  by (simp add: wg_inv_def)

lemma wg_inv_step:
  assumes "wg_step T w w'" and inv: "wg_inv T w" and T: "finite T" "card T \<le> 2147483647"
  shows "wg_inv T w'"
  using assms(1)
proof cases
  case (add t n)
  then show ?thesis using inv no_overflow_zero [of "wg_counter w" n] by (auto simp: wg_inv_def WaitGroup_Add_def)
next
  case (done_subtract t n zero c)
  then show ?thesis using inv by (auto simp: wg_inv_def wg_move_def WaitGroup_Done_def)
next
  case (done_wake t n W errno)
  have "finite (sleepers w)" "card (sleepers w) \<le> 2147483647"
    using wg_inv_threads [OF inv] T card_mono [of T "sleepers w"] finite_subset by (blast, simp)
  then have "W = sleepers w" using wake_all done_wake by blast
  then have "sleepers w' = {}" using done_wake(1) by simp
  moreover have "\<forall>u. wg_place w' u \<noteq> Outside \<longrightarrow> u \<in> T"
    using inv done_wake(1) \<open>W = sleepers w\<close> by (auto simp: wg_inv_def wg_move_def wake_def sleepers_def)
  ultimately show ?thesis by (simp add: wg_inv_def)
next
  case (wait_sleep t count v)
  then have "wg_counter w \<noteq> 0" by (auto simp: AtomicWait_def)
  then show ?thesis using inv wait_sleep(1,2) by (auto simp: wg_inv_def wg_move_def)
qed (use inv in \<open>auto intro!: wg_inv_move wg_inv_thread [OF inv]\<close>)

lemma wg_reach_inv: "wg_reach T w \<Longrightarrow> finite T \<Longrightarrow> card T \<le> 2147483647 \<Longrightarrow> wg_inv T w"
proof (induction rule: wg_reach.induct)
  case start
  then show ?case by (simp add: wg_init_def wg_inv_def sleepers_def)
next
  case (step w w')
  then show ?case using wg_inv_step by blast
qed

text \<open>The steps of one thread while the others stand still.\<close>

inductive wg_alone :: "nat set \<Rightarrow> nat \<Rightarrow> wg_conf \<Rightarrow> wg_conf \<Rightarrow> bool" for T t where
  here: "wg_alone T t w w"
| go: "wg_step T w w' \<Longrightarrow> (\<forall>u. u \<noteq> t \<longrightarrow> wg_place w' u = wg_place w u) \<Longrightarrow> wg_counter w' = wg_counter w \<Longrightarrow>
    wg_alone T t w' w'' \<Longrightarrow> wg_alone T t w w''"

lemma wg_alone_move:
  "wg_step T w (wg_move t x w) \<Longrightarrow> wg_alone T t (wg_move t x w) w' \<Longrightarrow> wg_alone T t w w'"
  by (rule wg_alone.go) (auto simp: wg_move_def)

lemma Testing_0_returns:
  assumes "wg_place w t = Testing 0"
  shows "wg_alone T t w (wg_move t Outside w)"
  using wg_alone_move [OF wg_step.wait_return [OF assms] wg_alone.here] .

lemma Reloading_returns:
  assumes "wg_place w t = Reloading" and "wg_counter w = 0"
  shows "wg_alone T t w (wg_move t Outside w)"
proof -
  let ?w = "wg_move t (Testing 0) w"
  have "wg_alone T t ?w (wg_move t Outside ?w)" by (rule Testing_0_returns) (simp add: wg_move_def)
  moreover have "wg_move t Outside ?w = wg_move t Outside w" by (simp add: wg_move_def)
  ultimately show ?thesis using wg_alone_move [of T w t "Testing 0"] wg_step.reload [OF assms(1)] assms(2) by simp
qed

lemma Testing_returns:
  assumes "wg_place w t = Testing c" and "wg_counter w = 0"
  shows "wg_alone T t w (wg_move t Outside w)"
proof (cases "c = 0")
  case True
  then show ?thesis using Testing_0_returns assms(1) by simp
next
  case False
  let ?w = "wg_move t Reloading w"
  have "wg_step T w ?w" using assms False by (intro wg_step.wait_again) (auto simp: AtomicWait_def Futex_cases)
  moreover have "wg_alone T t ?w (wg_move t Outside ?w)" by (rule Reloading_returns) (use assms in \<open>simp_all add: wg_move_def\<close>)
  moreover have "wg_move t Outside ?w = wg_move t Outside w" by (simp add: wg_move_def)
  ultimately show ?thesis using wg_alone_move by metis
qed

text \<open>C36. No wake-up is lost: however the threads interleave at a wait group and whichever sleepers
  the kernel picks, when the counter is 0 and no call of \<open>Done\<close> is about to wake, no thread
  sleeps, and every thread in \<open>Wait\<close> returns by steps of its own.\<close>

theorem wait_group_no_lost_wakeup:
  assumes "wg_reach T w" and "finite T" and "card T \<le> 2147483647"
    and "wg_counter w = 0" and "\<forall>t. wg_place w t \<noteq> Waking"
  shows "wg_place w t \<noteq> Sleeping \<and> wg_alone T t w (wg_move t Outside w)"
proof -
  have "sleepers w = {}" using wg_reach_inv [OF assms(1-3)] assms(4,5) by (auto simp: wg_inv_def)
  then have awake: "wg_place w t \<noteq> Sleeping" by (auto simp: sleepers_def)
  moreover have "wg_alone T t w (wg_move t Outside w)"
  proof (cases "wg_place w t")
    case Outside
    then have "wg_move t Outside w = w" by (simp add: wg_move_def fun_upd_idem)
    then show ?thesis using wg_alone.here by metis
  qed (use awake assms(4,5) Testing_returns Reloading_returns in auto)
  ultimately show ?thesis by simp
qed

text \<open>A thread that went to sleep before the counter became 0 and was woken.\<close>

definition wg_demo :: wg_conf where
  "wg_demo = \<lparr>wg_counter = 0, wg_place = (\<lambda>_. Outside)(3 := Reloading)\<rparr>"

lemma wg_demo_reach: "wg_reach {2, 3} wg_demo"
proof -
  let ?w = "\<lambda>c p q. \<lparr>wg_counter = c, wg_place = (\<lambda>_. Outside)(2 := p, 3 := q)\<rparr>"
  have "wg_init = ?w 0 Outside Outside" by (simp add: wg_init_def fun_eq_iff)
  then have "wg_reach {2, 3} (?w 0 Outside Outside)" using wg_reach.start by simp
  from wg_reach.step [OF this wg_step.add [of 2 _ _ 1]] have "wg_reach {2, 3} (?w 1 Outside Outside)"
    by (simp add: WaitGroup_Add_def)
  from wg_reach.step [OF this wg_step.wait_load [of 3]] have "wg_reach {2, 3} (?w 1 Outside (Testing 1))"
    by (simp add: wg_move_def)
  from wg_reach.step [OF this wg_step.wait_sleep [of _ 3 1 1]] have "wg_reach {2, 3} (?w 1 Outside Sleeping)"
    by (simp add: wg_move_def AtomicWait_def)
  from wg_reach.step [OF this wg_step.done_subtract [of 2 _ _ 1 True 0]] have "wg_reach {2, 3} (?w 0 Waking Sleeping)"
    by (simp add: wg_move_def WaitGroup_Done_def fun_upd_twist)
  moreover have "sleepers (?w 0 Waking Sleeping) = {3}" by (auto simp: sleepers_def split: if_splits)
  ultimately have "wg_reach {2, 3} (wg_move 2 Outside (wake {3} (?w 0 Waking Sleeping)))"
    by (intro wg_reach.step [OF _ wg_step.done_wake [of _ 2 2147483647 _ 0]]) (auto simp: AtomicWakeAll_def Futex_cases)
  moreover have "wg_move 2 Outside (wake {3} (?w 0 Waking Sleeping)) = wg_demo"
    by (auto simp: wg_demo_def wg_move_def wake_def)
  ultimately show ?thesis by simp
qed

theorem wait_group_no_lost_wakeup_witness:
  "wg_place wg_demo 3 \<noteq> Sleeping \<and> wg_alone {2, 3} 3 wg_demo (wg_move 3 Outside wg_demo)"
  by (rule wait_group_no_lost_wakeup [OF wg_demo_reach]) (auto simp: wg_demo_def)

end
