(* ===== verification/Timer_Clock.thy ===== *)
theory Timer_Clock
  imports Timer_Service Event_Loop
begin

text \<open>
  The kernel timer under the wheel (\<open>src/io/timer_service.cpp\<close>: \<open>SetupTimerFd\<close>,
  \<open>GetElapsedTicks\<close>). The code sets a periodic timer of one tick and reads the number of
  expirations since the last read; as documented in \<open>timerfd_create(2)\<close> that is the number
  of whole periods that passed.
\<close>

section \<open>The timer descriptor\<close>

text \<open>Signed 64-bit fields, read with \<^const>\<open>sint\<close>.\<close>

type_synonym time_t = u64

record itimerspec =
  it_value_sec :: time_t
  it_value_nsec :: time_t
  it_interval_sec :: time_t
  it_interval_nsec :: time_t

definition tick_spec :: "DurationMs \<Rightarrow> itimerspec" where
  "tick_spec tick_duration =
     (let tick_duration_s = tick_duration div 1000;
          tick_duration_ns = (tick_duration - tick_duration_s * 1000) * 1000000
      in \<lparr>it_value_sec = tick_duration_s, it_value_nsec = tick_duration_ns,
          it_interval_sec = tick_duration_s, it_interval_nsec = tick_duration_ns\<rparr>)"

text \<open>The first argument is the answer of \<open>timerfd_create\<close>, the second that of \<open>timerfd_settime\<close>.\<close>

definition SetupTimerFd :: "int \<Rightarrow> int \<Rightarrow> DurationMs \<Rightarrow> fault + (int \<times> itimerspec)" where
  "SetupTimerFd timer_fd status tick_duration =
     fbind (CANNOT_FAIL timer_fd ()) (\<lambda>_.
     let spec = tick_spec tick_duration in
     fbind (CANNOT_FAIL status ()) (\<lambda>_. Inr (timer_fd, spec)))"

definition GetElapsedTicks :: "int \<Rightarrow> int \<Rightarrow> Ticks \<Rightarrow> fault + Ticks" where
  "GetElapsedTicks timer_fd status elapsed_ticks =
     (if timer_fd = 0 then Inl AssertFailed
      else if status \<noteq> 8 then CANNOT_FAIL (-1) elapsed_ticks
      else Inr elapsed_ticks)"

definition TimerService_Tick :: "int \<Rightarrow> int \<Rightarrow> Ticks \<Rightarrow> 'a TimerService \<Rightarrow> fault + ('a Timer list \<times> 'a Timer list \<times> 'a TimerService)" where
  "TimerService_Tick timer_fd status elapsed_ticks ts =
     fbind (GetElapsedTicks timer_fd status elapsed_ticks) (\<lambda>elapsed. Inr (Tick elapsed ts))"

section \<open>The kernel's clock\<close>

definition period_ns :: "itimerspec \<Rightarrow> int" where
  "period_ns spec = sint (it_interval_sec spec) * 1000000000 + sint (it_interval_nsec spec)"

text \<open>The number of periods that are over \<open>t\<close> milliseconds after the timer was set.\<close>

definition expirations :: "itimerspec \<Rightarrow> nat \<Rightarrow> nat" where
  "expirations spec t = nat (int t * 1000000 div period_ns spec)"

lemma tick_spec_period:
  "0 \<le> sint (it_interval_nsec (tick_spec d)) \<and> sint (it_interval_nsec (tick_spec d)) < 1000000000"
  "0 \<le> sint (it_interval_sec (tick_spec d))"
  "period_ns (tick_spec d) = int (unat d) * 1000000"
proof -
  let ?s = "d div 1000" and ?r = "d mod 1000"
  have r: "d - d div 1000 * 1000 = ?r" by (simp add: minus_div_mult_eq_mod)
  have s: "unat ?s = unat d div 1000" "unat ?r = unat d mod 1000" by (simp_all add: unat_div unat_mod)
  have "unat ?r < 1000" by (simp add: s)
  then have ns: "unat (?r * 1000000) = unat ?r * 1000000" by (subst unat_mult_lem [THEN iffD1]) simp_all
  have small: "sint w = int (unat w)" if "unat w < 9223372036854775808" for w :: time_t
  proof -
    have "int (unat w) < 9223372036854775808" using that by linarith
    then have "uint w < 2 ^ 63" by simp
    moreover have "- (2 ^ 63) \<le> uint w" by (rule order_trans [OF _ uint_ge_0]) simp
    ultimately have "signed_take_bit 63 (uint w) = uint w" by (intro signed_take_bit_int_eq_self)
    then show ?thesis by (simp add: sint_uint)
  qed
  have "unat d < 18446744073709551616" using unsigned_less [of d, where 'a = nat] by simp
  then have "unat ?s < 9223372036854775808" unfolding s by simp
  then have sec: "sint ?s = int (unat d div 1000)" by (simp add: small s)
  have nsec: "sint (?r * 1000000) = int (unat d mod 1000) * 1000000"
    using \<open>unat ?r < 1000\<close> by (simp add: small ns s)
  have "it_interval_sec (tick_spec d) = ?s" "it_interval_nsec (tick_spec d) = ?r * 1000000"
    unfolding tick_spec_def Let_def r by simp_all
  then have spec: "sint (it_interval_sec (tick_spec d)) = int (unat d div 1000)"
    "sint (it_interval_nsec (tick_spec d)) = int (unat d mod 1000) * 1000000" by (simp_all only: sec nsec)
  have "unat d mod 1000 < 1000" by simp
  then show "0 \<le> sint (it_interval_nsec (tick_spec d)) \<and> sint (it_interval_nsec (tick_spec d)) < 1000000000"
    "0 \<le> sint (it_interval_sec (tick_spec d))" unfolding spec by linarith+
  have "int (unat d) = int (unat d div 1000) * 1000 + int (unat d mod 1000)"
    by (metis div_mult_mod_eq of_nat_add of_nat_mult of_nat_numeral)
  then show "period_ns (tick_spec d) = int (unat d) * 1000000"
    unfolding period_ns_def spec by linarith
qed

lemma expirations_tick: "expirations (tick_spec d) t = t div unat d"
  by (simp add: expirations_def tick_spec_period nat_div_distrib)

section \<open>Timers and time\<close>

lemma quotients_sum:
  fixes a b c d :: nat
  assumes "0 < d"
  shows "a + b \<le> c \<Longrightarrow> a div d + b div d \<le> c div d" and "c + 2 * d \<le> a + b \<Longrightarrow> c div d < a div d + b div d"
proof -
  have a: "a div d * d \<le> a" "a < a div d * d + d" and b: "b div d * d \<le> b" "b < b div d * d + d"
    using dividend_less_div_times [OF assms, of a] dividend_less_div_times [OF assms, of b] by simp_all
  have "(a div d + b div d) * d \<le> a + b" unfolding add_mult_distrib by (intro add_mono div_times_less_eq_dividend)
  then show "a div d + b div d \<le> c div d" if "a + b \<le> c"
    using that assms by (simp add: less_eq_div_iff_mult_less_eq)
  show "c div d < a div d + b div d" if "c + 2 * d \<le> a + b"
    using a b that assms by (simp add: div_less_iff_less_mult add_mult_distrib)
qed

lemma AddTimer_effect:
  assumes "AddTimer x duration ts = Inr (i, ts1)" and "ts_ok ts" and "none_due ts" and "ts_tick_duration ts \<le> duration"
    and "unat (ts_ticks ts) + unat duration div unat (ts_tick_duration ts) < 2 ^ 64"
  defines "t \<equiv> \<lparr>tm_deadline = ts_ticks ts + duration div ts_tick_duration ts, tm_id = i, tm_object = x\<rparr>"
  shows "0 < unat (ts_tick_duration ts)" and "all_timers ts1 = add_mset t (all_timers ts)" and "ts_ticks ts1 = ts_ticks ts"
    and "ts_ok ts1" and "none_due ts1"
    and "unat (tm_deadline t) = unat (ts_ticks ts) + unat duration div unat (ts_tick_duration ts)"
proof -
  let ?k = "duration div ts_tick_duration ts" and ?ts = "DoAddTimer x i (duration div ts_tick_duration ts) ts"
  have d: "ts_tick_duration ts \<noteq> 0" and ts1: "ts1 = ?ts\<lparr>ts_current_id := ts_current_id ts + 1\<rparr>"
    using assms(1) by (auto simp: AddTimer_def duration_ticks_def fbind_eq_Inr Let_def DoAddTimer_def split: if_splits)
  then show pos: "0 < unat (ts_tick_duration ts)" by (simp add: unat_gt_0)
  have k: "unat ?k = unat duration div unat (ts_tick_duration ts)" by (simp add: unat_div)
  have "0 < unat ?k" unfolding k using assms(4) pos by (simp add: div_greater_zero_iff word_le_nat_alt)
  then have "none_due ?ts" using assms(5) by (intro none_due_add assms(2,3)) (simp_all add: k)
  moreover have same: "all_timers ts1 = all_timers ?ts" "ts_ticks ts1 = ts_ticks ?ts" "ts_ok ts1 = ts_ok ?ts"
    by (simp_all add: ts1 all_timers_def ts_ok_def)
  ultimately show "all_timers ts1 = add_mset t (all_timers ts)" "ts_ticks ts1 = ts_ticks ts" "ts_ok ts1" "none_due ts1"
    using DoAddTimer_effect [OF assms(2), of x i ?k] by (simp_all add: t_def none_due_def)
  show "unat (tm_deadline t) = unat (ts_ticks ts) + unat duration div unat (ts_tick_duration ts)"
    using assms(5) by (simp add: t_def unat_word_ariths k)
qed



end
