(* ===== verification/Perfect_Links_Application.thy ===== *)
theory Perfect_Links_Application
  imports Application_Common Parser
begin

text \<open>
  The perfect links application (\<open>include/applications/perfect_links.hpp\<close>): a sender that
  sends its payloads to one receiver, eight per message and at most 30000 messages at a time,
  and a receiver that logs what it gets.
\<close>

section \<open>Configuration\<close>

definition PL_ParseConfig :: "string \<Rightarrow> (u32 \<times> u32) option" where
  "PL_ParseConfig content =
     do { (num_messages, s) \<leftarrow> extract_unsigned 32 content;
          (receiver_process, s) \<leftarrow> extract_unsigned 32 s;
          Some (of_nat num_messages, of_nat receiver_process) }"

definition GetRuntimeConfigSender :: RuntimeConfig where
  "GetRuntimeConfigSender = runtime_config 200"

definition GetRuntimeConfigReceiver :: RuntimeConfig where
  "GetRuntimeConfigReceiver = runtime_config 200"

section \<open>Application messages\<close>

text \<open>An array of eight 32-bit integers, all of them used.\<close>

type_synonym PerfectLinksMessage = "u32 list"

definition PerfectLinksMessage_Size :: "PerfectLinksMessage \<Rightarrow> nat" where
  "PerfectLinksMessage_Size m = 4 * 8"

definition PerfectLinksMessage_write :: "PerfectLinksMessage \<Rightarrow> Bytes \<Rightarrow> Bytes option" where
  "PerfectLinksMessage_write m bytes = map_option (\<lambda>(d, r). d @ r) (BinaryMarshalArrayType m 8 ([], bytes))"

definition PerfectLinksMessage_Marshal :: "PerfectLinksMessage \<Rightarrow> Bytes option" where
  "PerfectLinksMessage_Marshal m = marshal_fresh PerfectLinksMessage_Size PerfectLinksMessage_write m"

definition PerfectLinksMessage_Unmarshal :: "Bytes \<Rightarrow> PerfectLinksMessage option" where
  "PerfectLinksMessage_Unmarshal bytes = (if length bytes \<ge> 4 * 8 then BinaryUnmarshalArrayType 8 bytes else None)"

interpretation pl_message: serializable PerfectLinksMessage_Size PerfectLinksMessage_write
  PerfectLinksMessage_Unmarshal array_bytes "\<lambda>m. length m = 8"
proof
  fix m :: PerfectLinksMessage and buf r :: Bytes
  assume m: "length m = 8"
  show "length (array_bytes m) \<le> PerfectLinksMessage_Size m" using m by (simp add: PerfectLinksMessage_Size_def)
  show "PerfectLinksMessage_write m buf = Some (array_bytes m @ drop (length (array_bytes m)) buf)"
    if "length buf = PerfectLinksMessage_Size m"
    using m that by (simp add: PerfectLinksMessage_write_def PerfectLinksMessage_Size_def BinaryMarshalArrayType_def wire)
  show "PerfectLinksMessage_Unmarshal (array_bytes m @ r) = Some m"
    if "length r = PerfectLinksMessage_Size m - length (array_bytes m)"
    using m array_value_u32 [of m r] by (simp add: PerfectLinksMessage_Unmarshal_def BinaryUnmarshalArrayType_def)
qed

section \<open>The receiver\<close>

definition RunAsReceiver_callback :: "PeerID \<Rightarrow> Bytes \<Rightarrow> fault + (PeerID \<times> u32) list" where
  "RunAsReceiver_callback src message =
     (case PerfectLinksMessage_Unmarshal message of
        None \<Rightarrow> Inl AssertFailed
      | Some m \<Rightarrow> Inr (map (Pair src) m))"

section \<open>The sender\<close>

text \<open>The inner loop, bounded by the number of messages of a batch.\<close>

fun sender_batch :: "nat \<Rightarrow> u32 \<Rightarrow> u32 \<Rightarrow> fault + (u32 \<times> app_effect list \<times> nat)" where
  "sender_batch 0 num_messages current_payload = Inr (current_payload, [], 0)"
| "sender_batch (Suc k) num_messages current_payload =
     (if current_payload \<le> num_messages then
        let message = map (\<lambda>payload_idx. current_payload + of_nat payload_idx) [0..<8] in
        case PerfectLinksMessage_Marshal message of
          None \<Rightarrow> Inl AssertFailed
        | Some transport_message \<Rightarrow>
            fbind (sender_batch k num_messages (current_payload + 8)) (\<lambda>(current_payload, es, futures).
              Inr (current_payload, map LogBroadcast message @ [BroadcastMessage transport_message] @ es, Suc futures))
      else Inr (current_payload, [], 0))"

text \<open>The outer loop; it does not end when the 32-bit counter wraps.\<close>

partial_function (option) sender_loop :: "(nat \<Rightarrow> bool) \<Rightarrow> nat \<Rightarrow> u32 \<Rightarrow> nat \<Rightarrow> u32 \<Rightarrow> (fault + app_effect list) option" where
  "sender_loop answers batch_size num_messages batch current_payload =
     (if current_payload \<le> num_messages then
        case sender_batch batch_size num_messages current_payload of
          Inl e \<Rightarrow> Some (Inl e)
        | Inr (current_payload, es, futures) \<Rightarrow>
            if futures = 0 \<or> \<not> answers batch then Some (Inl AssertFailed)
            else Option.bind (sender_loop answers batch_size num_messages (Suc batch) current_payload)
                   (\<lambda>r. Some (fbind r (\<lambda>es'. Inr (es @ [AwaitAll futures] @ es'))))
      else Some (Inr []))"

declare sender_loop.simps [code]

definition RunAsSender :: "(nat \<Rightarrow> bool) \<Rightarrow> u32 \<Rightarrow> (fault + app_effect list) option" where
  "RunAsSender answers num_messages = sender_loop answers 30000 num_messages 0 1"

section \<open>What a run sends\<close>

lemma message_payloads:
  "map (\<lambda>i. c + of_nat i) [0..<8] = payloads (unat c) (unat c + 8)"
  by (rule nth_equalityI) (simp_all add: payloads_def)

lemma RunAsReceiver_callback_message:
  "\<exists>bs. PerfectLinksMessage_Marshal (payloads c (c + 8)) = Some bs \<and>
     RunAsReceiver_callback src bs = Inr (map (Pair src) (payloads c (c + 8)))"
  using pl_message.fresh_roundtrip [of "payloads c (c + 8)"]
  by (auto simp: PerfectLinksMessage_Marshal_def RunAsReceiver_callback_def)

text \<open>The smallest end of a message, counted from 1, that covers \<open>n\<close> payloads.\<close>

definition full_messages :: "nat \<Rightarrow> nat" where
  "full_messages n = 8 * ((n + 7) div 8)"

lemma full_messages_step:
  assumes "c mod 8 = 1" and "c \<le> n"
  shows "c + 8 \<le> full_messages n + 1"
proof -
  obtain q where c: "c = 8 * q + 1" using assms(1) by (metis mult_div_mod_eq)
  have "(8 * q + 8) div 8 \<le> (n + 7) div 8" using assms(2) c by (intro div_le_mono) simp
  then show ?thesis using c by (simp add: full_messages_def)
qed

lemma full_messages_end:
  assumes "c mod 8 = 1" and "n < c" and "c \<le> full_messages n + 1"
  shows "c = full_messages n + 1"
proof -
  obtain q where c: "c = 8 * q + 1" using assms(1) by (metis mult_div_mod_eq)
  have "(n + 7) div 8 \<le> (8 * q + 7) div 8" using assms(2) c by (intro div_le_mono) simp
  then have "(n + 7) div 8 \<le> q" by simp
  then show ?thesis using c assms(3) by (simp add: full_messages_def)
qed

lemma sender_batch_run:
  assumes "unat num + 8 < 2 ^ 32" and "unat c \<le> full_messages (unat num) + 1" and "unat c mod 8 = 1"
  shows "\<exists>c' es k. sender_batch b num c = Inr (c', es, k) \<and> unat c \<le> unat c' \<and>
    unat c' \<le> full_messages (unat num) + 1 \<and> unat c' mod 8 = 1 \<and> logged es = payloads (unat c) (unat c') \<and>
    deliver_all (RunAsReceiver_callback src) (broadcasts es) = Inr (map (Pair src) (logged es)) \<and>
    (b \<noteq> 0 \<and> unat c \<le> unat num \<longrightarrow> k \<noteq> 0 \<and> unat c < unat c')"
  using assms(2,3)
proof (induction b arbitrary: c)
  case 0
  then show ?case by (simp add: payloads_Nil)
next
  case (Suc b)
  show ?case
  proof (cases "unat c \<le> unat num")
    case False
    then show ?thesis using Suc.prems by (simp add: word_le_nat_alt payloads_Nil)
  next
    case True
    have next_c: "unat (c + 8) = unat c + 8" using True assms(1) by (simp add: unat_word_ariths)
    have "unat c + 8 \<le> full_messages (unat num) + 1"
      using Suc.prems(2) True by (rule full_messages_step)
    then obtain c' es k where rec: "sender_batch b num (c + 8) = Inr (c', es, k)" "unat c + 8 \<le> unat c'"
        "unat c' \<le> full_messages (unat num) + 1" "unat c' mod 8 = 1" "logged es = payloads (unat c + 8) (unat c')"
        "deliver_all (RunAsReceiver_callback src) (broadcasts es) = Inr (map (Pair src) (logged es))"
      using Suc.IH [of "c + 8"] Suc.prems(2) next_c by auto
    obtain bs where bs: "PerfectLinksMessage_Marshal (payloads (unat c) (unat c + 8)) = Some bs"
        "RunAsReceiver_callback src bs = Inr (map (Pair src) (payloads (unat c) (unat c + 8)))"
      using RunAsReceiver_callback_message by blast
    have "sender_batch (Suc b) num c =
        Inr (c', map LogBroadcast (payloads (unat c) (unat c + 8)) @ [BroadcastMessage bs] @ es, Suc k)"
      using True bs(1) rec(1) by (simp only: sender_batch.simps message_payloads) (simp add: word_le_nat_alt)
    moreover have "payloads (unat c) (unat c + 8) @ logged es = payloads (unat c) (unat c')"
      unfolding rec(5) using rec(2) by (intro payloads_append) auto
    ultimately show ?thesis
      using rec bs(2) True by (simp add: deliver_all_append del: sender_batch.simps flip: map_append)
  qed
qed

lemma sender_loop_run:
  assumes "unat num + 8 < 2 ^ 32" and "\<forall>b. answers b" and "0 < batch_size"
    and "unat c \<le> full_messages (unat num) + 1" and "unat c mod 8 = 1"
  shows "\<exists>es. sender_loop answers batch_size num b c = Some (Inr es) \<and>
    logged es = payloads (unat c) (full_messages (unat num) + 1) \<and>
    deliver_all (RunAsReceiver_callback src) (broadcasts es) = Inr (map (Pair src) (logged es))"
  using assms(4,5)
proof (induction "full_messages (unat num) + 1 - unat c" arbitrary: b c rule: less_induct)
  case less
  show ?case
  proof (cases "unat c \<le> unat num")
    case False
    then have "unat c = full_messages (unat num) + 1"
      using full_messages_end less.prems by simp
    then show ?thesis using False by (subst sender_loop.simps) (simp add: word_le_nat_alt payloads_Nil)
  next
    case True
    obtain c' es k where batch: "sender_batch batch_size num c = Inr (c', es, k)" "unat c < unat c'"
        "unat c' \<le> full_messages (unat num) + 1" "unat c' mod 8 = 1" "logged es = payloads (unat c) (unat c')"
        "deliver_all (RunAsReceiver_callback src) (broadcasts es) = Inr (map (Pair src) (logged es))" "k \<noteq> 0"
      using sender_batch_run [OF assms(1) less.prems, of batch_size src] True assms(3) by auto
    have dec: "full_messages (unat num) + 1 - unat c' < full_messages (unat num) + 1 - unat c"
      using batch(2,3) by linarith
    obtain es' where rest: "sender_loop answers batch_size num (Suc b) c' = Some (Inr es')"
        "logged es' = payloads (unat c') (full_messages (unat num) + 1)"
        "deliver_all (RunAsReceiver_callback src) (broadcasts es') = Inr (map (Pair src) (logged es'))"
      using less.hyps [OF dec batch(3,4), of "Suc b"] by blast
    have "sender_loop answers batch_size num b c = Some (Inr (es @ [AwaitAll k] @ es'))"
      using True batch(1,7) rest(1) assms(2) by (subst sender_loop.simps) (simp add: word_le_nat_alt)
    moreover have "logged es @ logged es' = payloads (unat c) (full_messages (unat num) + 1)"
      unfolding batch(5) rest(2) using batch(2,3) by (intro payloads_append) auto
    ultimately show ?thesis using batch(6) rest(3) by (simp add: deliver_all_append flip: map_append)
  qed
qed

text \<open>The sender of the perfect links application returns, as long as every batch is
  acknowledged and the number \<open>m\<close> of messages is below \<open>2 ^ 32 - 8\<close>. It logs and sends
  the payloads from 1 on, each once and in order, up to the end of the message that contains
  payload \<open>m\<close>: when \<open>m\<close> is not a multiple of eight these are more than the \<open>m\<close>
  configured ones. The receiver logs exactly what is sent.\<close>

lemma perfect_links_complete:
  assumes "unat num + 8 < 2 ^ 32" and "\<forall>b. answers b"
  shows "\<exists>es. RunAsSender answers num = Some (Inr es) \<and>
    logged es = map of_nat [1..<8 * ((unat num + 7) div 8) + 1] \<and>
    deliver_all (RunAsReceiver_callback src) (broadcasts es) =
      Inr (map (\<lambda>i. (src, of_nat i)) [1..<8 * ((unat num + 7) div 8) + 1])"
  using sender_loop_run [OF assms, of 30000 1 0 src]
  by (auto simp: RunAsSender_def payloads_def full_messages_def comp_def simp del: upt_Suc)

lemma perfect_links_complete_witness:
  "\<exists>es. RunAsSender (\<lambda>_. True) 10 = Some (Inr es) \<and> logged es = map of_nat [1..<17]"
  using perfect_links_complete [of 10 "\<lambda>_. True"] by (auto simp del: upt_Suc)

end
