(* ===== verification/Application_Classes.thy ===== *)
theory Application_Classes
  imports FIFO_Application Perfect_Links_Application Lattice_Application
begin

text \<open>
  The classes of the three applications (\<open>include/applications\<close>): their members,
  constructors and the operations of the interface \<open>IApplication\<close>, which \<open>main\<close> and the
  signal handler call through the base class. The sending loops and the callbacks are in the
  theories of the applications; here they are put between setting up and stopping the transport.
  The content of the files and the answers of the name lookup are parameters.
\<close>

section \<open>Members\<close>

datatype application = PerfectLinks | FIFO | LatticeAgreementApplication

text \<open>The configuration that the constructor reads; \<open>None\<close> when it could not be read.\<close>

datatype run_config =
    PL_RunConfig "(u32 \<times> u32) option"
  | FIFO_RunConfig "u32 option"
  | LA_RunConfig "(LAConfig \<times> string list) option"

record Application =
  ap_kind :: application
  ap_local_id :: PeerID
  ap_hosts_table :: HostsTable
  ap_output_path :: string
  ap_config_path :: string
  ap_run_config :: run_config
  ap_runtime :: Runtime
  ap_output_open :: bool

section \<open>Constructors\<close>

definition pbind :: "parse_error + 'a \<Rightarrow> ('a \<Rightarrow> parse_error + 'b) \<Rightarrow> parse_error + 'b" where
  "pbind x f = (case x of Inl e \<Rightarrow> Inl e | Inr a \<Rightarrow> f a)"

lemma pbind_simps [simp]: "pbind (Inl e) f = Inl e" "pbind (Inr a) f = f a"
  by (simp_all add: pbind_def)

text \<open>The member initialisers, the same in every class: the id of the command line is cut down to a byte.\<close>

definition init_members ::
  "application \<Rightarrow> (string \<Rightarrow> addrinfo list option) \<Rightarrow> string option \<Rightarrow> Parser \<Rightarrow> (PeerID \<Rightarrow> run_config \<times> RuntimeConfig) \<Rightarrow>
   parse_error + Application" where
  "init_members kind getaddrinfo hosts_file p body =
     pbind (Parser_id p) (\<lambda>i.
     pbind (Parser_hosts getaddrinfo hosts_file p) (\<lambda>hosts.
     pbind (outputPath p) (\<lambda>output_path.
     pbind (configPath p) (\<lambda>config_path.
     let me = of_nat i; (run_config, runtime_config) = body me in
     Inr \<lparr>ap_kind = kind, ap_local_id = me, ap_hosts_table = HostsTable_init hosts me,
          ap_output_path = output_path, ap_config_path = config_path, ap_run_config = run_config,
          ap_runtime = Runtime_init runtime_config, ap_output_open = False\<rparr>))))"

text \<open>\<open>PerfectLinks\<close> chooses between two configurations by the receiver that the file names.\<close>

definition PerfectLinks_init ::
  "(string \<Rightarrow> addrinfo list option) \<Rightarrow> string option \<Rightarrow> string \<Rightarrow> Parser \<Rightarrow> parse_error + Application" where
  "PerfectLinks_init getaddrinfo hosts_file config_file p =
     init_members PerfectLinks getaddrinfo hosts_file p (\<lambda>me.
       let run_config = PL_ParseConfig config_file in
       (PL_RunConfig run_config,
        case run_config of
          Some (_, receiver) \<Rightarrow> if receiver = ucast me then GetRuntimeConfigReceiver else GetRuntimeConfigSender
        | None \<Rightarrow> GetRuntimeConfigSender))"

definition FIFO_application_init ::
  "(string \<Rightarrow> addrinfo list option) \<Rightarrow> string option \<Rightarrow> string \<Rightarrow> Parser \<Rightarrow> parse_error + Application" where
  "FIFO_application_init getaddrinfo hosts_file config_file p =
     init_members FIFO getaddrinfo hosts_file p (\<lambda>me.
       (FIFO_RunConfig (FIFO_ParseConfig config_file), FIFO_GetRuntimeConfig))"

definition LA_application_init ::
  "(string \<Rightarrow> addrinfo list option) \<Rightarrow> string option \<Rightarrow> string \<Rightarrow> Parser \<Rightarrow> parse_error + Application" where
  "LA_application_init getaddrinfo hosts_file config_file p =
     init_members LatticeAgreementApplication getaddrinfo hosts_file p (\<lambda>me.
       (LA_RunConfig (ParseConfigHeader config_file), LA_GetRuntimeConfig))"

definition Application_init ::
  "application \<Rightarrow> (string \<Rightarrow> addrinfo list option) \<Rightarrow> string option \<Rightarrow> string \<Rightarrow> Parser \<Rightarrow> parse_error + Application" where
  "Application_init kind = (case kind of
     PerfectLinks \<Rightarrow> PerfectLinks_init | FIFO \<Rightarrow> FIFO_application_init | LatticeAgreementApplication \<Rightarrow> LA_application_init)"

section \<open>Retry policies\<close>

definition GetReliableRetryPolicySender :: "DurationMs \<Rightarrow> ReliableRetryPolicy" where
  "GetReliableRetryPolicySender timer_service_max_timeout =
     (let error_policy = RetryPolicy_init 100 (3, 2) timer_service_max_timeout False;
          empty_write_policy = RetryPolicy_init 100 (3, 2) timer_service_max_timeout False;
          fair_loss_policy = \<lparr>error_policy = error_policy, empty_write_policy = empty_write_policy\<rparr>;
          msg_policy = RetryPolicy_init 1000 (3, 1) timer_service_max_timeout False
      in \<lparr>msg_policy = msg_policy, fair_loss_policy = fair_loss_policy\<rparr>)"

definition GetReliableRetryPolicyReceiver :: "DurationMs \<Rightarrow> ReliableRetryPolicy" where
  "GetReliableRetryPolicyReceiver timer_service_max_timeout =
     (let error_policy = RetryPolicy_init 100 (3, 2) timer_service_max_timeout False;
          empty_write_policy = RetryPolicy_init 100 (3, 2) timer_service_max_timeout False;
          fair_loss_policy = \<lparr>error_policy = error_policy, empty_write_policy = empty_write_policy\<rparr>;
          msg_policy = RetryPolicy_init 1000 (3, 1) timer_service_max_timeout False
      in \<lparr>msg_policy = msg_policy, fair_loss_policy = fair_loss_policy\<rparr>)"

definition LA_GetReliableRetryPolicy :: "Runtime \<Rightarrow> ReliableRetryPolicy" where
  "LA_GetReliableRetryPolicy runtime =
     (let timer_service_max_timeout = MaxDuration (rn_timer_service runtime);
          error_policy = RetryPolicy_init 100 (3, 2) timer_service_max_timeout False;
          empty_write_policy = RetryPolicy_init 100 (3, 2) timer_service_max_timeout False;
          fair_loss_policy = \<lparr>error_policy = error_policy, empty_write_policy = empty_write_policy\<rparr>;
          msg_policy = RetryPolicy_init 1000 (3, 1) timer_service_max_timeout False
      in \<lparr>msg_policy = msg_policy, fair_loss_policy = fair_loss_policy\<rparr>)"

lemma retry_policies_agree:
  "GetReliableRetryPolicySender = GetReliableRetryPolicy" "GetReliableRetryPolicyReceiver = GetReliableRetryPolicy"
  "LA_GetReliableRetryPolicy r = GetReliableRetryPolicy (MaxDuration (rn_timer_service r))"
  by (simp_all add: fun_eq_iff GetReliableRetryPolicySender_def GetReliableRetryPolicyReceiver_def
      LA_GetReliableRetryPolicy_def GetReliableRetryPolicy_def Let_def)

section \<open>Running\<close>

text \<open>
  What \<open>Run\<close> does to the runtime and the transport, in the order of the code; the effects of the
  loops come from the theories of the applications. \<open>EventLoop_Run\<close> lends the thread to the event loop
  and returns when the loop is stopped.
\<close>

datatype run_effect =
    SetTransport HostsTable ReliableRetryPolicy
  | Transport_Started
  | Sending app_effect
  | Proposing ProposalMessage
  | EventLoop_Run
  | Transport_Stopped

definition SetTransport_of :: "Application \<Rightarrow> (DurationMs \<Rightarrow> ReliableRetryPolicy) \<Rightarrow> run_effect" where
  "SetTransport_of a policy = SetTransport (ap_hosts_table a) (policy (MaxDuration (rn_timer_service (ap_runtime a))))"

definition PerfectLinks_RunAsSender :: "(nat \<Rightarrow> bool) \<Rightarrow> u32 \<Rightarrow> Application \<Rightarrow> (fault + run_effect list) option" where
  "PerfectLinks_RunAsSender answers num_messages a =
     map_option (map_sum id (\<lambda>es.
       [SetTransport_of a GetReliableRetryPolicySender, Transport_Started] @ map Sending es @ [Transport_Stopped]))
     (RunAsSender answers num_messages)"

definition PerfectLinks_RunAsReceiver :: "Application \<Rightarrow> run_effect list" where
  "PerfectLinks_RunAsReceiver a =
     [SetTransport_of a GetReliableRetryPolicyReceiver, Transport_Started, EventLoop_Run, Transport_Stopped]"

definition PerfectLinks_Run :: "(nat \<Rightarrow> bool) \<Rightarrow> u32 \<times> u32 \<Rightarrow> Application \<Rightarrow> (fault + run_effect list) option" where
  "PerfectLinks_Run answers run_config a = (case run_config of (num_messages, receiver_process) \<Rightarrow>
     if receiver_process = ucast (ap_local_id a) then Some (Inr (PerfectLinks_RunAsReceiver a))
     else PerfectLinks_RunAsSender answers num_messages a)"

definition FIFO_Run :: "(nat \<Rightarrow> bool) \<Rightarrow> u32 \<Rightarrow> Application \<Rightarrow> (fault + run_effect list) option" where
  "FIFO_Run answers num_messages a =
     map_option (map_sum id (\<lambda>es.
       [SetTransport_of a GetReliableRetryPolicy, Transport_Started] @ map Sending es @ [EventLoop_Run, Transport_Stopped]))
     (RunAsBroadcaster answers (of_nat (GetNetworkSize (ap_hosts_table a) True)) num_messages)"

definition LA_Run :: "(nat \<Rightarrow> bool) \<Rightarrow> LAConfig \<times> string list \<Rightarrow> Application \<Rightarrow> (fault + run_effect list) option" where
  "LA_Run answers run_config a = (case run_config of (c, lines) \<Rightarrow>
     map_option (map_sum id (\<lambda>ms.
       [SetTransport (ap_hosts_table a) (LA_GetReliableRetryPolicy (ap_runtime a)), Transport_Started] @ map Proposing ms @
       [EventLoop_Run, Transport_Stopped]))
     (RunAsProposerAndAcceptor answers (of_nat (GetNetworkSize (ap_hosts_table a) True)) (num_proposals c) lines))"

text \<open>\<open>None\<close> also when the configuration could not be read, where the fields have no value.\<close>

definition Application_Run :: "(nat \<Rightarrow> bool) \<Rightarrow> Application \<Rightarrow> (fault + run_effect list) option" where
  "Application_Run answers a = (case ap_run_config a of
     PL_RunConfig c \<Rightarrow> Option.bind c (\<lambda>c. PerfectLinks_Run answers c a)
   | FIFO_RunConfig c \<Rightarrow> Option.bind c (\<lambda>c. FIFO_Run answers c a)
   | LA_RunConfig c \<Rightarrow> Option.bind c (\<lambda>c. LA_Run answers c a))"

text \<open>
  Whatever the application, the transport is set up for the hosts of the application with the same
  retry policy, started before anything is sent and stopped at the end, and nothing else is done to it.
\<close>

lemma map_sum_Inr: "map_sum id f x = Inr y \<longleftrightarrow> (\<exists>z. x = Inr z \<and> y = f z)"
  by (cases x) auto

lemma run_shape:
  assumes "Application_Run answers a = Some (Inr es)"
  shows "\<exists>body. es = [SetTransport_of a GetReliableRetryPolicy, Transport_Started] @ body @ [Transport_Stopped] \<and>
    set body \<subseteq> range Sending \<union> range Proposing \<union> {EventLoop_Run}"
proof (cases "ap_run_config a")
  case (PL_RunConfig c)
  then obtain num receiver where run: "PerfectLinks_Run answers (num, receiver) a = Some (Inr es)"
    using assms by (auto simp: Application_Run_def split: bind_splits)
  show ?thesis
  proof (cases "receiver = ucast (ap_local_id a)")
    case True
    then show ?thesis using run
      by (intro exI [of _ "[EventLoop_Run]"])
        (auto simp: PerfectLinks_Run_def PerfectLinks_RunAsReceiver_def retry_policies_agree)
  next
    case False
    then obtain z where "es = [SetTransport_of a GetReliableRetryPolicy, Transport_Started] @ map Sending z @ [Transport_Stopped]"
      using run by (auto simp: PerfectLinks_Run_def PerfectLinks_RunAsSender_def map_sum_Inr retry_policies_agree)
    then show ?thesis by (intro exI [of _ "map Sending z"]) auto
  qed
next
  case (FIFO_RunConfig c)
  then obtain z where "es = [SetTransport_of a GetReliableRetryPolicy, Transport_Started] @ map Sending z @ [EventLoop_Run, Transport_Stopped]"
    using assms by (auto simp: Application_Run_def FIFO_Run_def map_sum_Inr split: bind_splits)
  then show ?thesis by (intro exI [of _ "map Sending z @ [EventLoop_Run]"]) auto
next
  case (LA_RunConfig c)
  then obtain z where "es = [SetTransport_of a GetReliableRetryPolicy, Transport_Started] @ map Proposing z @ [EventLoop_Run, Transport_Stopped]"
    using assms by (auto simp: Application_Run_def LA_Run_def map_sum_Inr retry_policies_agree SetTransport_of_def split: bind_splits)
  then show ?thesis by (intro exI [of _ "map Proposing z @ [EventLoop_Run]"]) auto
qed

section \<open>Starting and stopping\<close>

text \<open>
  \<open>Runtime::Stop\<close> returns when no task is pending; \<open>None\<close> is a call that waits. The
  timers that are cancelled by stopping are the first component.
\<close>

definition Runtime_Stop :: "Runtime \<Rightarrow> (TimerObject Timer list \<times> Runtime) option" where
  "Runtime_Stop r =
     (if tp_pending_tasks (rn_thread_pool r) \<noteq> 0 then None
      else let r = r\<lparr>rn_thread_pool := SignalStop (rn_thread_pool r)\<rparr>;
               (expired, ts) = TimerService_Stop (rn_timer_service r)
           in Some (expired, r\<lparr>rn_timer_service := ts\<rparr>))"

text \<open>
  \<open>Shutdown\<close> joins the workers of the pool. The C++ library refuses to join the calling
  thread, so the call throws when it is made by a worker.
\<close>

definition PerfectLinks_Start :: "Application \<Rightarrow> Application" where
  "PerfectLinks_Start a = a\<lparr>ap_output_open := True, ap_runtime := Runtime_Start (ap_runtime a)\<rparr>"

definition PerfectLinks_Stop :: "Application \<Rightarrow> Application option" where
  "PerfectLinks_Stop a = (let a = a\<lparr>ap_output_open := False\<rparr> in
     map_option (\<lambda>(_, r). a\<lparr>ap_runtime := r\<rparr>) (Runtime_Stop (ap_runtime a)))"

definition PerfectLinks_Shutdown :: "bool \<Rightarrow> Application \<Rightarrow> fault + Application" where
  "PerfectLinks_Shutdown on_worker a =
     (let a = a\<lparr>ap_output_open := False, ap_runtime := Runtime_Shutdown (ap_runtime a)\<rparr>
      in if on_worker then Inl ResourceDeadlock else Inr a)"

definition FIFO_Start :: "Application \<Rightarrow> Application" where
  "FIFO_Start a = a\<lparr>ap_output_open := True, ap_runtime := Runtime_Start (ap_runtime a)\<rparr>"

definition FIFO_Stop :: "Application \<Rightarrow> Application option" where
  "FIFO_Stop a = (let a = a\<lparr>ap_output_open := False\<rparr> in
     map_option (\<lambda>(_, r). a\<lparr>ap_runtime := r\<rparr>) (Runtime_Stop (ap_runtime a)))"

definition FIFO_Shutdown :: "bool \<Rightarrow> Application \<Rightarrow> fault + Application" where
  "FIFO_Shutdown on_worker a =
     (let a = a\<lparr>ap_output_open := False, ap_runtime := Runtime_Shutdown (ap_runtime a)\<rparr>
      in if on_worker then Inl ResourceDeadlock else Inr a)"

definition LA_Start :: "Application \<Rightarrow> Application" where
  "LA_Start a = a\<lparr>ap_output_open := True, ap_runtime := Runtime_Start (ap_runtime a)\<rparr>"

definition LA_Stop :: "Application \<Rightarrow> Application option" where
  "LA_Stop a = (let a = a\<lparr>ap_output_open := False\<rparr> in
     map_option (\<lambda>(_, r). a\<lparr>ap_runtime := r\<rparr>) (Runtime_Stop (ap_runtime a)))"

definition LA_Shutdown :: "bool \<Rightarrow> Application \<Rightarrow> fault + Application" where
  "LA_Shutdown on_worker a =
     (let a = a\<lparr>ap_output_open := False, ap_runtime := Runtime_Shutdown (ap_runtime a)\<rparr>
      in if on_worker then Inl ResourceDeadlock else Inr a)"

section \<open>Calls through the interface\<close>

definition Application_Start :: "Application \<Rightarrow> Application" where
  "Application_Start a = (case ap_kind a of
     PerfectLinks \<Rightarrow> PerfectLinks_Start a | FIFO \<Rightarrow> FIFO_Start a | LatticeAgreementApplication \<Rightarrow> LA_Start a)"

definition Application_Stop :: "Application \<Rightarrow> Application option" where
  "Application_Stop a = (case ap_kind a of
     PerfectLinks \<Rightarrow> PerfectLinks_Stop a | FIFO \<Rightarrow> FIFO_Stop a | LatticeAgreementApplication \<Rightarrow> LA_Stop a)"

definition Application_Shutdown :: "bool \<Rightarrow> Application \<Rightarrow> fault + Application" where
  "Application_Shutdown on_worker a = (case ap_kind a of
     PerfectLinks \<Rightarrow> PerfectLinks_Shutdown on_worker a | FIFO \<Rightarrow> FIFO_Shutdown on_worker a
   | LatticeAgreementApplication \<Rightarrow> LA_Shutdown on_worker a)"

text \<open>The handler of every class shuts it down, whatever the signal.\<close>

definition GetSignalHandler :: "Application \<Rightarrow> int \<Rightarrow> bool \<Rightarrow> fault + Application" where
  "GetSignalHandler a signal on_worker = Application_Shutdown on_worker a"

text \<open>The three classes start and stop alike.\<close>

lemma Application_eqs:
  "Application_Start a = a\<lparr>ap_output_open := True, ap_runtime := Runtime_Start (ap_runtime a)\<rparr>"
  "Application_Stop a = map_option (\<lambda>(_, r). a\<lparr>ap_output_open := False, ap_runtime := r\<rparr>) (Runtime_Stop (ap_runtime a))"
  "Application_Shutdown w a = (if w then Inl ResourceDeadlock
     else Inr (a\<lparr>ap_output_open := False, ap_runtime := Runtime_Shutdown (ap_runtime a)\<rparr>))"
  by (cases "ap_kind a"; simp add: Application_Start_def Application_Stop_def Application_Shutdown_def
      PerfectLinks_Start_def FIFO_Start_def LA_Start_def PerfectLinks_Stop_def FIFO_Stop_def LA_Stop_def
      PerfectLinks_Shutdown_def FIFO_Shutdown_def LA_Shutdown_def)+

lemma Application_init_ok:
  assumes "Parser_id p = Inr i" and "Parser_hosts getaddrinfo hosts_file p = Inr hosts" and "outputPath p = Inr out" and "configPath p = Inr cfg"
  shows "\<exists>a. Application_init kind getaddrinfo hosts_file config_file p = Inr a \<and> ap_kind a = kind \<and>
    ap_hosts_table a = HostsTable_init hosts (of_nat i)"
proof -
  have "\<exists>a. init_members kind getaddrinfo hosts_file p body = Inr a \<and> ap_kind a = kind \<and>
      ap_hosts_table a = HostsTable_init hosts (of_nat i)" for body
    using assms by (simp add: init_members_def case_prod_beta Let_def)
  then show ?thesis
    by (cases kind) (simp_all add: Application_init_def PerfectLinks_init_def FIFO_application_init_def LA_application_init_def)
qed

end
