(* ===== verification/Program.thy ===== *)
theory Program
  imports Application_Classes
begin

text \<open>
  The program (\<open>src/main.cpp\<close>): it parses its arguments and the hosts file, builds the
  application that the mode names, and starts, runs and stops it; a signal shuts the
  application down. The content of the files and the answers of the name lookup are parameters.
\<close>

section \<open>The choice of the application\<close>

definition choose_application :: "string \<Rightarrow> application option" where
  "choose_application mode =
     (if mode = ''PERFECT_LINKS'' then Some PerfectLinks
      else if mode = ''FIFO'' then Some FIFO
      else if mode = ''LATTICE'' then Some LatticeAgreementApplication
      else None)"

section \<open>\<open>main\<close> and the signal handler\<close>

datatype main_effect =
    PrintHosts "Host list"
  | PrintInvalidMode
  | StartApplication Application
  | RunApplication
  | StopApplication
  | SleepForever

definition main ::
  "(string \<Rightarrow> addrinfo list option) \<Rightarrow> string option \<Rightarrow> string \<Rightarrow> Parser \<Rightarrow> parse_error + main_effect list" where
  "main getaddrinfo hosts_file config_file p =
     pbind (Parser_parse p) (\<lambda>p.
     pbind (Parser_hosts getaddrinfo hosts_file p) (\<lambda>hosts.
     pbind (Parser_mode p) (\<lambda>mode.
     case choose_application mode of
       None \<Rightarrow> Inr [PrintHosts hosts, PrintInvalidMode]
     | Some kind \<Rightarrow>
         pbind (Application_init kind getaddrinfo hosts_file config_file p) (\<lambda>a.
         Inr [PrintHosts hosts, StartApplication a, RunApplication, StopApplication, SleepForever]))))"

text \<open>
  \<open>signal_handler\<close> is empty until the application exists; calling it then throws.
\<close>

definition stop :: "int \<Rightarrow> bool \<Rightarrow> Application option \<Rightarrow> fault + Application" where
  "stop value on_worker signal_handler =
     (case signal_handler of None \<Rightarrow> Inl BadFunctionCall | Some a \<Rightarrow> GetSignalHandler a value on_worker)"

lemma signal_too_early: "stop value w None = Inl BadFunctionCall"
  by (simp add: stop_def)

lemma signal_on_worker_throws: "stop value True (Some a) = Inl ResourceDeadlock"
  by (simp add: stop_def GetSignalHandler_def Application_eqs)

lemma signal_shuts_down:
  "\<exists>b. stop value False (Some a) = Inr b \<and> \<not> ap_output_open b \<and> uq_is_closed (tp_tasks (rn_thread_pool (ap_runtime b))) \<and>
     uq_buffer (tp_tasks (rn_thread_pool (ap_runtime b))) = []"
  by (simp add: stop_def GetSignalHandler_def Application_eqs Runtime_Shutdown_def Shutdown_def UQ_Clear_def)

section \<open>A documented call starts the application\<close>

lemma stoul_show:
  assumes "n < 2 ^ 64"
  shows "isPositiveNumber (show_nat n) \<and> stoul (show_nat n) = Some n"
proof -
  note facts = show_nat_facts [of n]
  then have tw: "takeWhile isdigit (show_nat n) = show_nat n" by (simp add: list_all_iff)
  from facts assms show ?thesis by (simp add: isPositiveNumber_def stoul_def tw)
qed

lemma ucast_of_nat_u8: "(ucast (of_nat n :: u64) :: PeerID) = of_nat n"
  by (simp add: word_unat_eq_iff unsigned_ucast_eq unsigned_of_nat min_def)

lemma valid_hosts_sorted:
  assumes "length hs < 256" and ids: "fst ` set hs = {1..length hs}" and "i \<in> {1..length hs}"
  shows "valid_hosts (map (to_host address) (sort_key fst hs)) (of_nat i)"
proof -
  have small: "j < 256" if "j \<in> fst ` set hs" for j using that ids assms(1) by simp
  have "distinct (map (\<lambda>h. of_nat (fst h) :: u64) (sort_key fst hs))"
  proof -
    have "inj_on (of_nat :: nat \<Rightarrow> u64) (fst ` set hs)"
    proof (rule inj_onI)
      fix x y assume "x \<in> fst ` set hs" "y \<in> fst ` set hs" "(of_nat x :: u64) = of_nat y"
      moreover have "unat (of_nat z :: u64) = z" if "z \<in> fst ` set hs" for z
        using small [OF that] by (simp add: unat_of_nat_u64)
      ultimately show "x = y" by metis
    qed
    moreover have "distinct (map fst hs)" using ids by (intro card_distinct) simp
    then have "distinct (map fst (sort_key fst hs))" by (metis distinct_map mset_map mset_sort mset_eq_imp_distinct_iff)
    ultimately show ?thesis
      using distinct_map [of "of_nat :: nat \<Rightarrow> u64" "map fst (sort_key fst hs)"] by (simp add: comp_def)
  qed
  moreover have "unat (of_nat (fst h) :: u64) < 256" if "h \<in> set hs" for h
    using small [of "fst h"] that by (simp add: unat_of_nat_u64)
  moreover have "ucast (of_nat i :: PeerID) = (of_nat i :: u64)"
  proof -
    have "i < 256" using assms(1,3) by simp
    then show ?thesis by (simp add: word_unat_eq_iff unat_of_nat_u8 unat_of_nat_u64 unsigned_ucast_eq take_bit_nat_eq_self)
  qed
  moreover have "(of_nat i :: u64) \<in> (\<lambda>h. of_nat (fst h)) ` set hs"
    using assms(3) ids by (metis (no_types, lifting) image_iff)
  ultimately show ?thesis by (auto simp: valid_hosts_def host_id_to_host comp_def)
qed



end
